(* ===== verification/QV_Prelude.thy ===== *)
theory QV_Prelude
  imports Main "HOL-Library.Word" "HOL-Library.List_Lexorder" "HOL-Library.Multiset"
begin

text \<open>
  Shared vocabulary of the development. It holds the widths of the Rust integers, the
  \<open>Result\<close> type as a sum with its bind, the checked and saturating operations of the
  unsigned integers, little-endian byte encodings, the \<open>sort then compare neighbours\<close>
  duplicate test, and \<open>BTreeMap\<close> as a strictly sorted association list together with
  the locale that states what its clients rely on.
\<close>

section \<open>Integers and results\<close>

type_synonym u8 = "8 word"
type_synonym u16 = "16 word"
type_synonym u32 = "32 word"
type_synonym u64 = "64 word"
type_synonym u128 = "128 word"

text \<open>An \<open>i64\<close> is the same 64 bits, read with \<open>sint\<close>.\<close>

type_synonym i64 = "64 word"
type_synonym bytes = "u8 list"

text \<open>\<open>Result<T, E>\<close>: \<open>Inl\<close> is \<open>Err\<close> and \<open>Inr\<close> is \<open>Ok\<close>.\<close>

type_synonym ('e, 'a) result = "'e + 'a"

named_theorems res_simps \<open>inversion and rewriting of results\<close>
named_theorems int_simps \<open>values of checked and saturating integer operations\<close>

text \<open>The \<open>?\<close> operator.\<close>

fun bind_res :: "('e, 'a) result \<Rightarrow> ('a \<Rightarrow> ('e, 'b) result) \<Rightarrow> ('e, 'b) result" where
  "bind_res (Inl e) f = Inl e"
| "bind_res (Inr x) f = f x"

text \<open>\<open>Option::ok_or\<close> and \<open>Result::map_err\<close>.\<close>

fun ok_or :: "'a option \<Rightarrow> 'e \<Rightarrow> ('e, 'a) result" where
  "ok_or None e = Inl e"
| "ok_or (Some x) e = Inr x"

fun map_err :: "('e \<Rightarrow> 'f) \<Rightarrow> ('e, 'a) result \<Rightarrow> ('f, 'a) result" where
  "map_err f (Inl e) = Inl (f e)"
| "map_err f (Inr x) = Inr x"

text \<open>An early \<open>return Err(e)\<close> when a condition holds.\<close>

definition fail_if :: "bool \<Rightarrow> 'e \<Rightarrow> ('e, unit) result" where
  "fail_if c e = (if c then Inl e else Inr ())"

lemma bind_res_cong [fundef_cong]:
  "m = m' \<Longrightarrow> (\<And>x. m' = Inr x \<Longrightarrow> f x = g x) \<Longrightarrow> bind_res m f = bind_res m' g"
  by (cases m') auto

lemma bind_res_Inr [res_simps]:
  "bind_res m f = Inr y \<longleftrightarrow> (\<exists>x. m = Inr x \<and> f x = Inr y)"
  by (cases m) auto

lemma bind_res_Inl [res_simps]:
  "bind_res m f = Inl e \<longleftrightarrow> m = Inl e \<or> (\<exists>x. m = Inr x \<and> f x = Inl e)"
  by (cases m) auto

lemma bind_res_assoc: "bind_res (bind_res m f) g = bind_res m (\<lambda>x. bind_res (f x) g)"
  by (cases m) auto

lemma ok_or_Inr [res_simps]: "ok_or m e = Inr x \<longleftrightarrow> m = Some x"
  by (cases m) auto

lemma ok_or_Inl [res_simps]: "ok_or m e = Inl e' \<longleftrightarrow> m = None \<and> e' = e"
  by (cases m) auto

lemma map_err_Inr [res_simps]: "map_err f m = Inr x \<longleftrightarrow> m = Inr x"
  by (cases m) auto

lemma map_err_Inl [res_simps]: "map_err f m = Inl e \<longleftrightarrow> (\<exists>e'. m = Inl e' \<and> e = f e')"
  by (cases m) auto

lemma fail_if_Inr [res_simps]: "fail_if c e = Inr u \<longleftrightarrow> \<not> c"
  by (simp add: fail_if_def)

lemma fail_if_Inl [res_simps]: "fail_if c e = Inl e' \<longleftrightarrow> c \<and> e' = e"
  by (auto simp: fail_if_def)

lemma fail_if_simps [simp]: "fail_if True e = Inl e" "fail_if False e = Inr ()"
  by (simp_all add: fail_if_def)

section \<open>Checked and saturating arithmetic\<close>

definition checked_add_w :: "'a::len word \<Rightarrow> 'a word \<Rightarrow> 'a word option" where
  "checked_add_w a b = (if unat a + unat b < 2 ^ LENGTH('a) then Some (a + b) else None)"

definition checked_sub_w :: "'a::len word \<Rightarrow> 'a word \<Rightarrow> 'a word option" where
  "checked_sub_w a b = (if b \<le> a then Some (a - b) else None)"

definition checked_mul_w :: "'a::len word \<Rightarrow> 'a word \<Rightarrow> 'a word option" where
  "checked_mul_w a b = (if unat a * unat b < 2 ^ LENGTH('a) then Some (a * b) else None)"

definition checked_div_w :: "'a::len word \<Rightarrow> 'a word \<Rightarrow> 'a word option" where
  "checked_div_w a b = (if b = 0 then None else Some (a div b))"

definition sat_add :: "'a::len word \<Rightarrow> 'a word \<Rightarrow> 'a word" where
  "sat_add a b = (if unat a + unat b < 2 ^ LENGTH('a) then a + b else - 1)"

definition sat_sub :: "'a::len word \<Rightarrow> 'a word \<Rightarrow> 'a word" where
  "sat_sub a b = (if b \<le> a then a - b else 0)"

definition sat_mul :: "'a::len word \<Rightarrow> 'a word \<Rightarrow> 'a word" where
  "sat_mul a b = (if unat a * unat b < 2 ^ LENGTH('a) then a * b else - 1)"

lemma unat_minus_one: "unat (- 1 :: 'a::len word) = 2 ^ LENGTH('a) - 1"
  by (simp add: unsigned_minus_1_eq_mask mask_eq_exp_minus_1)

lemma unat_bound: "unat (a :: 'a::len word) < 2 ^ LENGTH('a)"
  by (rule unsigned_less)

lemma unat_of_nat_small: "n < 2 ^ LENGTH('a) \<Longrightarrow> unat (of_nat n :: 'a::len word) = n"
  by (simp add: unsigned_of_nat take_bit_nat_eq_self)

lemma unat_add_small:
  "unat a + unat b < 2 ^ LENGTH('a) \<Longrightarrow> unat (a + b :: 'a::len word) = unat a + unat b"
  by (simp add: unat_word_ariths)

lemma unat_mult_small:
  "unat a * unat b < 2 ^ LENGTH('a) \<Longrightarrow> unat (a * b :: 'a::len word) = unat a * unat b"
  by (simp add: unat_word_ariths)

lemma unat_sat_add [int_simps]:
  "unat (sat_add a b :: 'a::len word) = min (unat a + unat b) (2 ^ LENGTH('a) - 1)"
  by (auto simp: sat_add_def unat_add_small unat_minus_one min_def)

lemma unat_sat_sub [int_simps]: "unat (sat_sub a b :: 'a::len word) = unat a - unat b"
  by (auto simp: sat_sub_def unat_sub word_le_nat_alt)

lemma unat_sat_mul [int_simps]:
  "unat (sat_mul a b :: 'a::len word) = min (unat a * unat b) (2 ^ LENGTH('a) - 1)"
proof (cases "unat a * unat b < 2 ^ LENGTH('a)")
  case True
  then have "unat a * unat b \<le> 2 ^ LENGTH('a) - 1" by linarith
  with True show ?thesis by (simp add: sat_mul_def unat_mult_small min_def)
next
  case False
  then have "2 ^ LENGTH('a) - 1 \<le> unat a * unat b" by linarith
  with False show ?thesis by (simp add: sat_mul_def unat_minus_one min_absorb2)
qed

lemma checked_add_w_Some [int_simps]:
  "checked_add_w a b = Some c \<longleftrightarrow> unat (c :: 'a::len word) = unat a + unat b"
proof
  assume "unat c = unat a + unat b"
  moreover from this have "unat a + unat b < 2 ^ LENGTH('a)"
    using unat_bound [of c] by simp
  ultimately have "unat (a + b) = unat c" and "unat a + unat b < 2 ^ LENGTH('a)"
    by (simp_all add: unat_add_small)
  then show "checked_add_w a b = Some c"
    by (simp add: checked_add_w_def word_unat_eq_iff)
qed (auto simp: checked_add_w_def unat_add_small split: if_splits)

lemma checked_add_w_None [int_simps]:
  "checked_add_w a b = None \<longleftrightarrow> 2 ^ LENGTH('a) \<le> unat (a :: 'a::len word) + unat b"
  by (auto simp: checked_add_w_def)

lemma checked_sub_w_Some [int_simps]:
  "checked_sub_w a b = Some c \<longleftrightarrow> unat (a :: 'a::len word) = unat c + unat b"
proof
  assume *: "unat a = unat c + unat b"
  then have "b \<le> a" by (simp add: word_le_nat_alt)
  with * have "unat (a - b) = unat c" by (simp add: unat_sub)
  with \<open>b \<le> a\<close> show "checked_sub_w a b = Some c"
    by (simp add: checked_sub_w_def word_unat_eq_iff)
qed (auto simp: checked_sub_w_def unat_sub word_le_nat_alt split: if_splits)

lemma checked_sub_w_None [int_simps]:
  "checked_sub_w a b = None \<longleftrightarrow> unat (a :: 'a::len word) < unat b"
  by (auto simp: checked_sub_w_def word_le_nat_alt)

lemma checked_mul_w_Some:
  "checked_mul_w a b = Some c \<Longrightarrow> unat (c :: 'a::len word) = unat a * unat b"
  by (auto simp: checked_mul_w_def unat_mult_small split: if_splits)

lemma checked_mul_w_eq [int_simps]:
  "unat a * unat b < 2 ^ LENGTH('a) \<Longrightarrow> checked_mul_w a b = Some (a * b :: 'a::len word)"
  by (simp add: checked_mul_w_def)

lemma checked_div_w_Some [int_simps]:
  "checked_div_w a b = Some c \<longleftrightarrow> b \<noteq> 0 \<and> c = a div (b :: 'a::len word)"
  by (auto simp: checked_div_w_def)

lemma unat_ucast_up:
  assumes "LENGTH('a) \<le> LENGTH('b)"
  shows "unat (ucast (x :: 'a::len word) :: 'b::len word) = unat x"
proof -
  have "unat x < 2 ^ LENGTH('b)"
    using unat_bound [of x] assms by (meson less_le_trans one_le_numeral power_increasing)
  then show ?thesis by (simp add: unsigned_ucast_eq take_bit_nat_eq_self)
qed

text \<open>The widening casts the code writes, and the narrowing one when the value fits.\<close>

lemma unat_widen [simp]:
  "unat (ucast (x :: u64) :: u128) = unat x"
  "unat (ucast (y :: u16) :: u128) = unat y"
  "unat (ucast (y :: u16) :: u64) = unat y"
  by (simp_all add: unat_ucast_up)

lemma unat_narrow_u64: "unat (x :: u128) < 2 ^ 64 \<Longrightarrow> unat (ucast x :: u64) = unat x"
  by (simp add: unsigned_ucast_eq take_bit_nat_eq_self)

lemma mult_u64_fits: "unat (a :: u64) * unat (b :: u64) < 2 ^ LENGTH(128)"
proof -
  have "unat a * unat b < 2 ^ 64 * 2 ^ 64"
    using unat_bound [of a] unat_bound [of b] by (intro mult_strict_mono) auto
  then show ?thesis by simp
qed

text \<open>\<open>try_fold(0, checked_add)\<close>: the sum, or nothing once it overflows.\<close>

fun checked_sum_from :: "'a::len word \<Rightarrow> 'a word list \<Rightarrow> 'a word option" where
  "checked_sum_from acc [] = Some acc"
| "checked_sum_from acc (x # xs) =
     (case checked_add_w acc x of None \<Rightarrow> None | Some acc' \<Rightarrow> checked_sum_from acc' xs)"

lemma checked_sum_from_Some:
  "checked_sum_from acc xs = Some s \<longleftrightarrow>
     unat (s :: 'a::len word) = unat acc + sum_list (map unat xs)"
proof (induction xs arbitrary: acc)
  case Nil
  then show ?case by (auto simp: word_unat_eq_iff)
next
  case (Cons x xs)
  show ?case
  proof (cases "checked_add_w acc x")
    case None
    then have "2 ^ LENGTH('a) \<le> unat acc + unat x" by (simp add: int_simps)
    then have "unat s < unat acc + unat x" using unat_bound [of s] by linarith
    then show ?thesis using None by simp
  next
    case (Some y)
    then have "unat y = unat acc + unat x" by (simp add: int_simps)
    with Some Cons show ?thesis by (simp add: add.assoc)
  qed
qed

lemma checked_sum_from_None:
  "checked_sum_from acc xs = None \<longleftrightarrow>
     2 ^ LENGTH('a) \<le> unat (acc :: 'a::len word) + sum_list (map unat xs)"
proof -
  have "checked_sum_from acc xs \<noteq> None \<longleftrightarrow>
      (\<exists>s :: 'a word. unat s = unat acc + sum_list (map unat xs))"
    using checked_sum_from_Some [of acc xs] by (auto simp del: not_None_eq)
  moreover have "(\<exists>s :: 'a word. unat s = n) \<longleftrightarrow> n < 2 ^ LENGTH('a)" for n
    by (metis unat_bound unat_of_nat_small)
  ultimately show ?thesis by (meson not_le)
qed

section \<open>Little-endian byte strings\<close>

text \<open>\<open>to_le_bytes\<close> of an \<open>n\<close>-byte unsigned integer, and the value \<open>from_le_bytes\<close> reads.\<close>

fun le_bytes :: "nat \<Rightarrow> nat \<Rightarrow> bytes" where
  "le_bytes 0 x = []"
| "le_bytes (Suc n) x = of_nat (x mod 256) # le_bytes n (x div 256)"

fun le_val :: "bytes \<Rightarrow> nat" where
  "le_val [] = 0"
| "le_val (b # bs) = unat b + 256 * le_val bs"

lemma length_le_bytes [simp]: "length (le_bytes n x) = n"
  by (induction n arbitrary: x) auto

lemma unat_of_nat_mod_256 [simp]: "unat (of_nat (x mod 256) :: u8) = x mod 256"
  by (rule unat_of_nat_small) simp

lemma le_val_le_bytes: "le_val (le_bytes n x) = x mod 256 ^ n"
proof (induction n arbitrary: x)
  case (Suc n)
  have "x mod 256 + 256 * (x div 256 mod 256 ^ n) = x mod (256 * 256 ^ n)"
    by (simp add: mod_mult2_eq)
  with Suc show ?case by simp
qed simp

lemma le_val_bound: "le_val bs < 256 ^ length bs"
proof (induction bs)
  case (Cons b bs)
  have "unat b < 256" using unat_bound [of b] by simp
  with Cons show ?case by simp
qed simp

lemma le_bytes_le_val [simp]: "le_bytes (length bs) (le_val bs) = bs"
proof (induction bs)
  case (Cons b bs)
  have "unat b < 256" using unat_bound [of b] by simp
  with Cons show ?case by simp
qed simp

lemma le_bytes_inj:
  assumes "x < 256 ^ n" and "y < 256 ^ n" and "le_bytes n x = le_bytes n y"
  shows "x = y"
  using assms(1,2) arg_cong [OF assms(3), of le_val] by (simp add: le_val_le_bytes)

text \<open>Decimal digits, as \<open>format!\<close> prints an unsigned number.\<close>

fun nat_str :: "nat \<Rightarrow> string" where
  "nat_str n = (if n < 10 then [char_of (48 + n)] else nat_str (n div 10) @ [char_of (48 + n mod 10)])"

declare nat_str.simps [simp del]

section \<open>Duplicates: sort, then compare neighbours\<close>

text \<open>\<open>windows(2).any(|[a, b]| a == b)\<close>.\<close>

fun adjacent_equal :: "'a list \<Rightarrow> bool" where
  "adjacent_equal (a # b # xs) \<longleftrightarrow> a = b \<or> adjacent_equal (b # xs)"
| "adjacent_equal _ \<longleftrightarrow> False"

lemma adjacent_equal_sorted:
  "sorted (xs :: 'a::linorder list) \<Longrightarrow> adjacent_equal xs \<longleftrightarrow> \<not> distinct xs"
proof (induction xs rule: adjacent_equal.induct)
  case (1 a b xs)
  then have IH: "adjacent_equal (b # xs) \<longleftrightarrow> \<not> distinct (b # xs)" and "\<forall>x \<in> set xs. b \<le> x"
    and "a \<le> b" by auto
  then have "a \<in> set xs \<Longrightarrow> a = b" by fastforce
  then show ?case using IH by auto
qed auto

lemma adjacent_equal_sort: "adjacent_equal (sort xs) \<longleftrightarrow> \<not> distinct (xs :: 'a::linorder list)"
  by (simp add: adjacent_equal_sorted)

section \<open>Ordered maps\<close>

text \<open>
  What the clients of \<open>BTreeMap\<close> rely on: lookups after inserts and removals, and an
  iteration order that depends on the contents only.
\<close>

locale ordered_map =
  fixes empty :: 'm
    and upd :: "'k::linorder \<Rightarrow> 'v \<Rightarrow> 'm \<Rightarrow> 'm"
    and del :: "'k \<Rightarrow> 'm \<Rightarrow> 'm"
    and get :: "'m \<Rightarrow> 'k \<Rightarrow> 'v option"
    and items :: "'m \<Rightarrow> ('k \<times> 'v) list"
    and ok :: "'m \<Rightarrow> bool"
  assumes ok_empty: "ok empty"
    and ok_upd: "ok m \<Longrightarrow> ok (upd k v m)"
    and ok_del: "ok m \<Longrightarrow> ok (del k m)"
    and get_empty: "get empty = Map.empty"
    and get_upd: "ok m \<Longrightarrow> get (upd k v m) = (get m)(k \<mapsto> v)"
    and get_del: "ok m \<Longrightarrow> get (del k m) = (get m)(k := None)"
    and items_sorted: "ok m \<Longrightarrow> sorted_wrt (<) (map fst (items m))"
    and get_items: "ok m \<Longrightarrow> get m = map_of (items m)"
begin

lemma items_ext:
  assumes "ok m" and "ok m'" and "get m = get m'"
  shows "items m = items m'"
proof -
  have s: "sorted_wrt (<) (map fst (items m))" "sorted_wrt (<) (map fst (items m'))"
    using assms items_sorted by auto
  then have d: "distinct (map fst (items m))" "distinct (map fst (items m'))"
    by (auto simp: strict_sorted_iff)
  have eq: "map_of (items m) = map_of (items m')"
    using assms by (simp add: get_items)
  then have "set (items m) = set (items m')"
    using d by (metis map_of_eq_Some_iff prod.exhaust subrelI subset_antisym)
  moreover have "sorted (map fst (items m))" "sorted (map fst (items m'))"
    using s by (auto simp: strict_sorted_iff)
  ultimately show ?thesis
    using d by (intro map_sorted_distinct_set_unique [where f = fst])
      (auto simp: distinct_map inj_on_def eq_key_imp_eq_value)
qed

lemma upd_commute:
  assumes "ok m" and "k \<noteq> k'"
  shows "items (upd k v (upd k' v' m)) = items (upd k' v' (upd k v m))"
  using assms by (intro items_ext) (simp_all add: ok_upd get_upd fun_upd_twist)

lemma del_upd_absent:
  assumes "ok m" and "get m k = None"
  shows "items (del k (upd k v m)) = items m"
  using assms by (intro items_ext) (auto simp: ok_upd ok_del get_upd get_del)

end

text \<open>The model of \<open>BTreeMap\<close>: an association list with strictly increasing keys.\<close>

type_synonym ('k, 'v) btree = "('k \<times> 'v) list"

definition bt_ok :: "('k::linorder, 'v) btree \<Rightarrow> bool" where
  "bt_ok m \<longleftrightarrow> sorted_wrt (<) (map fst m)"

fun bt_insert :: "'k::linorder \<Rightarrow> 'v \<Rightarrow> ('k, 'v) btree \<Rightarrow> ('k, 'v) btree" where
  "bt_insert k v [] = [(k, v)]"
| "bt_insert k v (e # es) =
     (if k = fst e then (k, v) # es
      else if k < fst e then (k, v) # e # es
      else e # bt_insert k v es)"

definition bt_remove :: "'k \<Rightarrow> ('k, 'v) btree \<Rightarrow> ('k, 'v) btree" where
  "bt_remove k m = filter (\<lambda>e. fst e \<noteq> k) m"

abbreviation bt_get :: "('k, 'v) btree \<Rightarrow> 'k \<Rightarrow> 'v option" where
  "bt_get m \<equiv> map_of m"

abbreviation bt_has :: "('k, 'v) btree \<Rightarrow> 'k \<Rightarrow> bool" where
  "bt_has m k \<equiv> map_of m k \<noteq> None"

lemma bt_insert_keys: "set (map fst (bt_insert k v m)) = insert k (set (map fst m))"
  by (induction m) auto

lemma bt_ok_insert: "bt_ok m \<Longrightarrow> bt_ok (bt_insert k v m)"
proof (induction m)
  case (Cons e es)
  then have IH: "bt_ok (bt_insert k v es)" by (simp add: bt_ok_def)
  have "\<forall>x \<in> set (map fst (bt_insert k v es)). fst e < x" if "fst e < k"
    using Cons.prems that by (auto simp: bt_insert_keys bt_ok_def simp del: set_map)
  with IH Cons.prems show ?case by (auto simp: bt_ok_def)
qed (simp add: bt_ok_def)

lemma bt_ok_remove: "bt_ok m \<Longrightarrow> bt_ok (bt_remove k m)"
  by (auto simp: bt_ok_def bt_remove_def sorted_wrt_map sorted_wrt_filter)

lemma bt_get_insert:
  "bt_ok m \<Longrightarrow> bt_get (bt_insert k v m) = (bt_get m)(k \<mapsto> v)"
proof (induction m)
  case (Cons e es)
  from Cons.prems have "bt_ok es" by (simp add: bt_ok_def)
  then have "bt_get (bt_insert k v es) = (bt_get es)(k \<mapsto> v)" by (rule Cons.IH)
  then show ?case by (auto simp: fun_eq_iff)
qed simp

lemma bt_get_remove: "bt_get (bt_remove k m) = (bt_get m)(k := None)"
  by (induction m) (auto simp: bt_remove_def fun_eq_iff)

interpretation bt: ordered_map "[]" bt_insert bt_remove bt_get "\<lambda>m. m" bt_ok
  by unfold_locales
    (auto simp: bt_ok_insert bt_ok_remove bt_get_insert bt_get_remove, auto simp: bt_ok_def)

lemmas bt_simps = bt.ok_empty bt.ok_upd bt.ok_del bt.get_upd bt.get_del

section \<open>Totals over a map\<close>

definition bt_sum :: "('k \<Rightarrow> 'v \<Rightarrow> nat) \<Rightarrow> ('k, 'v) btree \<Rightarrow> nat" where
  "bt_sum f m = sum_list (map (\<lambda>e. f (fst e) (snd e)) m)"

definition bt_total :: "('v \<Rightarrow> nat) \<Rightarrow> ('k, 'v) btree \<Rightarrow> nat" where
  "bt_total f m = bt_sum (\<lambda>_. f) m"

lemma bt_ok_Cons: "bt_ok (e # es) \<longleftrightarrow> bt_ok es \<and> (\<forall>x \<in> set es. fst e < fst x)"
  by (auto simp: bt_ok_def)

lemma bt_get_below: "bt_ok (e # es) \<Longrightarrow> k \<le> fst e \<Longrightarrow> bt_get es k = None"
  by (force simp: bt_ok_Cons map_of_eq_None_iff)

lemma bt_sum_insert:
  assumes "bt_ok m"
  shows "bt_sum f (bt_insert k v m) + (case bt_get m k of None \<Rightarrow> 0 | Some w \<Rightarrow> f k w) =
    bt_sum f m + f k v"
  using assms
proof (induction m)
  case (Cons e es)
  then have IH: "bt_sum f (bt_insert k v es) + (case bt_get es k of None \<Rightarrow> 0 | Some w \<Rightarrow> f k w) =
      bt_sum f es + f k v" by (simp add: bt_ok_Cons)
  show ?case
    using IH bt_get_below [OF Cons.prems, of k] by (cases e) (auto simp: bt_sum_def)
qed (simp add: bt_sum_def)

lemma bt_sum_remove:
  assumes "bt_ok m"
  shows "bt_sum f (bt_remove k m) + (case bt_get m k of None \<Rightarrow> 0 | Some w \<Rightarrow> f k w) = bt_sum f m"
  using assms
proof (induction m)
  case (Cons e es)
  then have IH: "bt_sum f (bt_remove k es) + (case bt_get es k of None \<Rightarrow> 0 | Some w \<Rightarrow> f k w) =
      bt_sum f es" by (simp add: bt_ok_Cons)
  show ?case
    using IH bt_get_below [OF Cons.prems, of k] by (cases e) (auto simp: bt_sum_def bt_remove_def)
qed (simp add: bt_sum_def bt_remove_def)

lemmas bt_total_insert = bt_sum_insert [where f = "\<lambda>_. f" for f, folded bt_total_def]
lemmas bt_total_remove = bt_sum_remove [where f = "\<lambda>_. f" for f, folded bt_total_def]

lemma bt_get_le_total: "bt_get m k = Some v \<Longrightarrow> f v \<le> bt_total f m"
  by (induction m) (auto simp: bt_total_def bt_sum_def split: if_splits)

text \<open>\<open>entry(k).and_modify(g).or_insert(v)\<close>.\<close>

definition bt_upsert :: "'k::linorder \<Rightarrow> ('v \<Rightarrow> 'v) \<Rightarrow> 'v \<Rightarrow> ('k, 'v) btree \<Rightarrow> ('k, 'v) btree" where
  "bt_upsert k g v m = bt_insert k (case bt_get m k of Some w \<Rightarrow> g w | None \<Rightarrow> v) m"

lemma bt_upsert_simps:
  "bt_ok m \<Longrightarrow> bt_ok (bt_upsert k g v m)"
  "bt_ok m \<Longrightarrow> bt_get (bt_upsert k g v m) =
     (bt_get m)(k \<mapsto> (case bt_get m k of Some w \<Rightarrow> g w | None \<Rightarrow> v))"
  by (simp_all add: bt_upsert_def bt_simps)

end
