(* ===== verification/QV_Types.thy ===== *)
theory QV_Types
  imports QV_Prelude
begin

text \<open>
  \<open>qv-core/src/types.rs\<close>: digests, the numeric newtypes and the outpoint, with the
  derived orders and the canonical outpoint key. The hash newtypes (\<open>TxId\<close>,
  \<open>BlockHash\<close>, \<open>MerkleRoot\<close>, \<open>UtxoCommitment\<close>, \<dots>) wrap \<open>Hash256\<close>, and
  \<open>Height\<close>, \<open>Slot\<close>, \<open>Epoch\<close>, \<open>Timestamp\<close> and \<open>Amount\<close> wrap a
  \<open>u64\<close>; the wrappers are transparent here. Hex parsing uses the \<open>hex\<close> crate and is
  not modelled.
\<close>

section \<open>Digests\<close>

text \<open>\<open>[u8; 32]\<close> is a byte list; \<open>hash_wf\<close> is what the array type guarantees.\<close>

datatype hash256 = Hash256 (hbytes: bytes)

type_synonym txid = hash256
type_synonym block_hash = hash256
type_synonym script_hash = hash256
type_synonym datum_hash = hash256
type_synonym utxo_commitment = hash256
type_synonym merkle_root = hash256

definition hash_wf :: "hash256 \<Rightarrow> bool" where
  "hash_wf h \<longleftrightarrow> length (hbytes h) = 32"

definition hash_zero :: hash256 where
  "hash_zero = Hash256 (replicate 32 0)"

definition hash_is_zero :: "hash256 \<Rightarrow> bool" where
  "hash_is_zero h \<longleftrightarrow> list_all (\<lambda>b. b = 0) (hbytes h)"

lemma hbytes_inject [simp]: "hbytes h = hbytes h' \<longleftrightarrow> h = h'"
  by (cases h; cases h') auto

instantiation hash256 :: linorder
begin

definition less_eq_hash256 :: "hash256 \<Rightarrow> hash256 \<Rightarrow> bool" where
  "less_eq_hash256 h h' \<longleftrightarrow> hbytes h \<le> hbytes h'"

definition less_hash256 :: "hash256 \<Rightarrow> hash256 \<Rightarrow> bool" where
  "less_hash256 h h' \<longleftrightarrow> hbytes h < hbytes h'"

instance
  by standard (auto simp: less_eq_hash256_def less_hash256_def order.strict_iff_order)

end

lemma hash_wf_zero [simp]: "hash_wf hash_zero"
  by (simp add: hash_wf_def hash_zero_def)

lemma hash_is_zero_iff: "hash_wf h \<Longrightarrow> hash_is_zero h \<longleftrightarrow> h = hash_zero"
  by (cases h) (auto simp: hash_wf_def hash_zero_def hash_is_zero_def list_all_iff
      intro!: replicate_eqI)

section \<open>Numeric newtypes\<close>

type_synonym height = u64
type_synonym slot = u64
type_synonym epoch = u64
type_synonym timestamp = u64
type_synonym amount = u64

definition height_next :: "height \<Rightarrow> height" where
  "height_next h = sat_add h 1"

definition slot_next :: "slot \<Rightarrow> slot" where
  "slot_next s = sat_add s 1"

definition amount_checked_add :: "amount \<Rightarrow> amount \<Rightarrow> amount option" where
  "amount_checked_add a b = checked_add_w a b"

definition amount_checked_sub :: "amount \<Rightarrow> amount \<Rightarrow> amount option" where
  "amount_checked_sub a b = checked_sub_w a b"

definition amount_checked_sum :: "amount list \<Rightarrow> amount option" where
  "amount_checked_sum xs = checked_sum_from 0 xs"

text \<open>The value of a list of amounts as an unbounded number.\<close>

abbreviation total_of :: "amount list \<Rightarrow> nat" where
  "total_of xs \<equiv> sum_list (map unat xs)"

lemma amount_checked_add_Some [int_simps]:
  "amount_checked_add a b = Some c \<longleftrightarrow> unat c = unat a + unat b"
  by (simp add: amount_checked_add_def int_simps)

lemma amount_checked_sub_Some [int_simps]:
  "amount_checked_sub a b = Some c \<longleftrightarrow> unat a = unat c + unat b"
  by (simp add: amount_checked_sub_def int_simps)

lemma amount_checked_sum_Some [int_simps]:
  "amount_checked_sum xs = Some s \<longleftrightarrow> unat s = total_of xs"
  by (simp add: amount_checked_sum_def checked_sum_from_Some)

lemma amount_checked_sum_None [int_simps]:
  "amount_checked_sum xs = None \<longleftrightarrow> 2 ^ 64 \<le> total_of xs"
  by (simp add: amount_checked_sum_def checked_sum_from_None)

section \<open>Outpoints\<close>

datatype outpoint = OutPoint (op_tx_id: txid) (op_index: u32)

instantiation outpoint :: linorder
begin

definition less_eq_outpoint :: "outpoint \<Rightarrow> outpoint \<Rightarrow> bool" where
  "less_eq_outpoint a b \<longleftrightarrow>
     op_tx_id a < op_tx_id b \<or> (op_tx_id a = op_tx_id b \<and> op_index a \<le> op_index b)"

definition less_outpoint :: "outpoint \<Rightarrow> outpoint \<Rightarrow> bool" where
  "less_outpoint a b \<longleftrightarrow>
     op_tx_id a < op_tx_id b \<or> (op_tx_id a = op_tx_id b \<and> op_index a < op_index b)"

instance
  by standard (auto simp: less_eq_outpoint_def less_outpoint_def outpoint.expand)

end

definition op_canonical_bytes :: "outpoint \<Rightarrow> bytes" where
  "op_canonical_bytes p = hbytes (op_tx_id p) @ le_bytes 4 (unat (op_index p))"

lemma le_bytes4_inj [simp]:
  "le_bytes 4 (unat (i :: u32)) = le_bytes 4 (unat j) \<longleftrightarrow> i = j"
  using le_bytes_inj [of "unat i" 4 "unat j"] unat_bound [of i] unat_bound [of j]
  by (auto simp: word_unat_eq_iff)

text \<open>The outpoint key is injective on well-formed digests: no two outpoints share a store key.\<close>

lemma op_canonical_bytes_inj:
  assumes "hash_wf (op_tx_id p)" and "hash_wf (op_tx_id q)"
    and "op_canonical_bytes p = op_canonical_bytes q"
  shows "p = q"
  using assms by (auto simp: op_canonical_bytes_def hash_wf_def outpoint.expand)

lemma length_op_canonical_bytes: "hash_wf (op_tx_id p) \<Longrightarrow> length (op_canonical_bytes p) = 36"
  by (simp add: op_canonical_bytes_def hash_wf_def)

end
