(* ===== verification/QV_Params.thy ===== *)
theory QV_Params
  imports QV_Types
begin

text \<open>
  \<open>qv-core/src/params.rs\<close>: the protocol parameter bundle, its presets and its validation.
  TOML and JSON loading are the \<open>toml\<close> and \<open>serde_json\<close> crates and are not modelled.
\<close>

datatype params_error = ParseError string | InvalidParam string

datatype network_id = Mainnet | Testnet | Devnet | Ephemeral

fun network_magic :: "network_id \<Rightarrow> bytes" where
  "network_magic Mainnet = [0x51, 0x56]"
| "network_magic Testnet = [0x54, 0x56]"
| "network_magic Devnet = [0x44, 0x56]"
| "network_magic Ephemeral = [0x45, 0x56]"

record consensus_params =
  slot_duration_ms :: u64
  epoch_slots :: u64
  k_finality :: u64
  honest_stake_num :: u32
  honest_stake_den :: u32

definition consensus_mainnet :: consensus_params where
  "consensus_mainnet =
     \<lparr>slot_duration_ms = 2000, epoch_slots = 21600, k_finality = 50,
      honest_stake_num = 51, honest_stake_den = 100\<rparr>"

definition epoch_seconds :: "consensus_params \<Rightarrow> u64" where
  "epoch_seconds p = sat_mul (epoch_slots p) (slot_duration_ms p) div 1000"

definition consensus_validate :: "consensus_params \<Rightarrow> (params_error, unit) result" where
  "consensus_validate p =
     (if slot_duration_ms p = 0 then Inl (InvalidParam ''slot_duration_ms must be > 0'')
      else if epoch_slots p = 0 then Inl (InvalidParam ''epoch_slots must be > 0'')
      else if k_finality p = 0 then Inl (InvalidParam ''k_finality must be > 0'')
      else if honest_stake_den p = 0 then Inl (InvalidParam ''honest_stake_den must be > 0'')
      else if honest_stake_num p = 0 then Inl (InvalidParam ''honest_stake_num must be > 0'')
      else if honest_stake_den p < honest_stake_num p
      then Inl (InvalidParam ''honest_stake_num must not exceed honest_stake_den'')
      else Inr ())"

record ledger_params =
  max_block_bytes :: u32
  max_tx_bytes :: u32
  max_tx_inputs :: u32
  max_tx_outputs :: u32
  max_block_txs :: u32
  max_script_bytes :: u32
  max_datum_bytes :: u32

definition ledger_mainnet :: ledger_params where
  "ledger_mainnet =
     \<lparr>max_block_bytes = 7500000, max_tx_bytes = 200000, max_tx_inputs = 1024,
      max_tx_outputs = 1024, max_block_txs = 10000, max_script_bytes = 64 * 1024,
      max_datum_bytes = 16 * 1024\<rparr>"

definition ledger_validate :: "ledger_params \<Rightarrow> (params_error, unit) result" where
  "ledger_validate p =
     (if max_block_bytes p = 0 then Inl (InvalidParam ''max_block_bytes must be > 0'')
      else if max_tx_bytes p = 0 then Inl (InvalidParam ''max_tx_bytes must be > 0'')
      else if max_block_bytes p < max_tx_bytes p
      then Inl (InvalidParam ''max_tx_bytes must not exceed max_block_bytes'')
      else if max_tx_inputs p = 0 \<or> max_tx_outputs p = 0
      then Inl (InvalidParam ''tx input/output limits must be > 0'')
      else if max_block_txs p = 0 then Inl (InvalidParam ''max_block_txs must be > 0'')
      else Inr ())"

record monetary_params =
  total_supply :: amount
  initial_block_reward :: amount
  halving_interval_blocks :: u64
  min_fee_per_byte :: u64

definition monetary_mainnet :: monetary_params where
  "monetary_mainnet =
     \<lparr>total_supply = 21000000 * 100000000, initial_block_reward = 50 * 100000000,
      halving_interval_blocks = 210000, min_fee_per_byte = 1\<rparr>"

definition monetary_validate :: "monetary_params \<Rightarrow> (params_error, unit) result" where
  "monetary_validate p =
     (if total_supply p = 0 then Inl (InvalidParam ''total_supply must be > 0'')
      else if total_supply p < initial_block_reward p
      then Inl (InvalidParam ''initial_block_reward must not exceed total_supply'')
      else if halving_interval_blocks p = 0
      then Inl (InvalidParam ''halving_interval_blocks must be > 0'')
      else Inr ())"

record protocol_params =
  network :: network_id
  genesis_slot :: slot
  genesis_time :: u64
  pp_consensus :: consensus_params
  pp_ledger :: ledger_params
  pp_monetary :: monetary_params

definition protocol_mainnet :: protocol_params where
  "protocol_mainnet =
     \<lparr>network = Mainnet, genesis_slot = 0, genesis_time = 0,
      pp_consensus = consensus_mainnet, pp_ledger = ledger_mainnet,
      pp_monetary = monetary_mainnet\<rparr>"

definition protocol_testnet :: protocol_params where
  "protocol_testnet = protocol_mainnet
     \<lparr>network := Testnet, pp_consensus := consensus_mainnet\<lparr>epoch_slots := 1000\<rparr>\<rparr>"

definition protocol_ephemeral :: protocol_params where
  "protocol_ephemeral = protocol_mainnet
     \<lparr>network := Ephemeral,
      pp_consensus :=
        \<lparr>slot_duration_ms = 100, epoch_slots = 50, k_finality = 3,
         honest_stake_num = 2, honest_stake_den = 3\<rparr>,
      pp_ledger :=
        \<lparr>max_block_bytes = 2 ^ 20, max_tx_bytes = 2 ^ 16, max_tx_inputs = 8,
         max_tx_outputs = 8, max_block_txs = 32, max_script_bytes = 2 ^ 12,
         max_datum_bytes = 2 ^ 10\<rparr>,
      pp_monetary :=
        \<lparr>total_supply = 1000000, initial_block_reward = 100,
         halving_interval_blocks = 10, min_fee_per_byte = 0\<rparr>\<rparr>"

definition protocol_validate :: "protocol_params \<Rightarrow> (params_error, unit) result" where
  "protocol_validate p =
     bind_res (consensus_validate (pp_consensus p)) (\<lambda>_.
     bind_res (ledger_validate (pp_ledger p)) (\<lambda>_.
     bind_res (monetary_validate (pp_monetary p)) (\<lambda>_. Inr ())))"

section \<open>What validation guarantees\<close>

lemma consensus_validate_Inr [res_simps]:
  "consensus_validate p = Inr u \<longleftrightarrow>
     slot_duration_ms p \<noteq> 0 \<and> epoch_slots p \<noteq> 0 \<and> k_finality p \<noteq> 0 \<and>
     honest_stake_num p \<noteq> 0 \<and> honest_stake_num p \<le> honest_stake_den p"
  by (auto simp: consensus_validate_def not_less)

lemma monetary_validate_Inr [res_simps]:
  "monetary_validate p = Inr u \<longleftrightarrow>
     total_supply p \<noteq> 0 \<and> initial_block_reward p \<le> total_supply p \<and>
     halving_interval_blocks p \<noteq> 0"
  by (auto simp: monetary_validate_def not_less)

lemma network_magic_inj: "network_magic a = network_magic b \<longleftrightarrow> a = b"
  by (cases a; cases b) auto

text \<open>
  Every preset the code ships (mainnet, testnet, ephemeral) passes its own validation,
  and a validated bundle has a positive slot duration, epoch length, finality depth and
  halving interval, so none of the divisions by these parameters can trap.
\<close>

theorem presets_valid:
  "protocol_validate protocol_mainnet = Inr () \<and> protocol_validate protocol_testnet = Inr () \<and>
   protocol_validate protocol_ephemeral = Inr () \<and>
   (\<forall>p. protocol_validate p = Inr () \<longrightarrow>
      slot_duration_ms (pp_consensus p) \<noteq> 0 \<and> epoch_slots (pp_consensus p) \<noteq> 0 \<and>
      k_finality (pp_consensus p) \<noteq> 0 \<and> halving_interval_blocks (pp_monetary p) \<noteq> 0)"
proof (intro conjI allI impI)
  show "protocol_validate protocol_mainnet = Inr ()"
    by (simp add: protocol_validate_def protocol_mainnet_def consensus_validate_def
        consensus_mainnet_def ledger_validate_def ledger_mainnet_def monetary_validate_def
        monetary_mainnet_def)
  show "protocol_validate protocol_testnet = Inr ()"
    by (simp add: protocol_validate_def protocol_testnet_def protocol_mainnet_def
        consensus_validate_def consensus_mainnet_def ledger_validate_def ledger_mainnet_def
        monetary_validate_def monetary_mainnet_def)
  show "protocol_validate protocol_ephemeral = Inr ()"
    by (simp add: protocol_validate_def protocol_ephemeral_def protocol_mainnet_def
        consensus_validate_def ledger_validate_def monetary_validate_def)
qed (auto simp: protocol_validate_def res_simps)

theorem presets_valid_witness:
  "protocol_validate protocol_mainnet = Inr () \<and>
   halving_interval_blocks (pp_monetary protocol_mainnet) \<noteq> 0"
  using presets_valid by blast

end
