(* ===== verification/QV_Crypto.thy ===== *)
theory QV_Crypto
  imports QV_Prelude
begin

text \<open>
  The part of \<open>qv-crypto\<close> the ledger calls: the size checks around ML-DSA keys and
  signatures (\<open>pqc_sign.rs\<close>). The hash functions and the lattice signature itself are
  third-party crates; they are the fields of \<open>crypto_env\<close>, which every definition that
  hashes or verifies takes as an argument. Nothing is assumed about them here.
\<close>

datatype dilithium_level = Level2 | Level3 | Level5

datatype crypto_error =
    InvalidSize nat nat
  | HashFailed
  | KeyGenerationFailed
  | SignFailed
  | SignatureRejected
  | EncapsulationFailed
  | DecapsulationFailed
  | MalformedCiphertext
  | MalformedPublicKey
  | CryptoOther string

text \<open>
  \<open>mldsa_pk_len\<close> and \<open>mldsa_sig_len\<close> are the encoded sizes of the crate's types, and
  \<open>mldsa_verify\<close> decodes a key and a signature of those sizes and verifies (an undecodable
  signature does not verify).
\<close>

record crypto_env =
  sha3_256 :: "bytes \<Rightarrow> bytes"
  blake3_256 :: "bytes \<Rightarrow> bytes"
  mldsa_pk_len :: "dilithium_level \<Rightarrow> nat"
  mldsa_sig_len :: "dilithium_level \<Rightarrow> nat"
  mldsa_verify :: "dilithium_level \<Rightarrow> bytes \<Rightarrow> bytes \<Rightarrow> bytes \<Rightarrow> bool"

record pqc_public_key =
  pk_level :: dilithium_level
  pk_bytes :: bytes

record pqc_signature =
  sig_level :: dilithium_level
  sig_bytes :: bytes

definition pqc_public_key_from_bytes ::
  "'z crypto_env_scheme \<Rightarrow> dilithium_level \<Rightarrow> bytes \<Rightarrow> (crypto_error, pqc_public_key) result" where
  "pqc_public_key_from_bytes E level bs =
     (if length bs \<noteq> mldsa_pk_len E level
      then Inl (InvalidSize (mldsa_pk_len E level) (length bs))
      else Inr \<lparr>pk_level = level, pk_bytes = bs\<rparr>)"

definition pqc_signature_from_bytes ::
  "'z crypto_env_scheme \<Rightarrow> dilithium_level \<Rightarrow> bytes \<Rightarrow> (crypto_error, pqc_signature) result" where
  "pqc_signature_from_bytes E level bs =
     (if bs = [] \<or> mldsa_sig_len E level < length bs
      then Inl (InvalidSize (mldsa_sig_len E level) (length bs))
      else Inr \<lparr>sig_level = level, sig_bytes = bs\<rparr>)"

definition verify_level ::
  "'z crypto_env_scheme \<Rightarrow> bytes \<Rightarrow> bytes \<Rightarrow> bytes \<Rightarrow> dilithium_level \<Rightarrow> (crypto_error, bool) result" where
  "verify_level E pk msg sg level =
     (if length pk \<noteq> mldsa_pk_len E level then Inl MalformedPublicKey
      else if length sg \<noteq> mldsa_sig_len E level
      then Inl (InvalidSize (mldsa_sig_len E level) (length sg))
      else Inr (mldsa_verify E level pk msg sg))"

definition verify_pqc ::
  "'z crypto_env_scheme \<Rightarrow> pqc_public_key \<Rightarrow> bytes \<Rightarrow> pqc_signature \<Rightarrow> (crypto_error, bool) result" where
  "verify_pqc E pk msg sg =
     (if pk_level pk \<noteq> sig_level sg
      then Inl (CryptoOther ''public key and signature target different parameter sets'')
      else verify_level E (pk_bytes pk) msg (sig_bytes sg) (pk_level pk))"

lemma verify_pqc_True:
  "verify_pqc E pk msg sg = Inr True \<longleftrightarrow>
     pk_level pk = sig_level sg \<and> length (pk_bytes pk) = mldsa_pk_len E (pk_level pk) \<and>
     length (sig_bytes sg) = mldsa_sig_len E (pk_level pk) \<and>
     mldsa_verify E (pk_level pk) (pk_bytes pk) msg (sig_bytes sg)"
  by (auto simp: verify_pqc_def verify_level_def)

text \<open>
  A signature shorter than its parameter set is accepted by
  \<open>pqc_signature_from_bytes\<close> but can never verify.
\<close>

lemma short_signature_never_verifies:
  assumes "pqc_signature_from_bytes E level bs = Inr sg" and "length bs < mldsa_sig_len E level"
  shows "verify_pqc E pk msg sg \<noteq> Inr True"
  using assms by (auto simp: verify_pqc_True pqc_signature_from_bytes_def split: if_splits)

end
