(* ===== verification/QV_Transaction.thy ===== *)
theory QV_Transaction
  imports QV_Types QV_Crypto
begin

text \<open>
  \<open>qv-core/src/transaction.rs\<close>: eUTXO transactions, their structural checks, identifier
  and signature hash. Canonical bytes are produced by \<open>bincode\<close>, a third-party crate: the
  encoders are fields of \<open>tx_env\<close>.
\<close>

section \<open>Data\<close>

datatype transaction_error =
    NoInputs
  | NoOutputs
  | DuplicateInput
  | OutputOverflow
  | CoinbaseHasInputs
  | CoinbaseHeightMismatch u64 u64
  | TxEncode string
  | TxDecode string

text \<open>\<open>Script\<close>, \<open>Datum\<close> and \<open>Witness\<close> are newtypes over bytes.\<close>

type_synonym script = bytes
type_synonym datum = bytes
type_synonym witness = bytes

record stealth_info =
  ephemeral_pubkey :: bytes
  kyber_level :: u8
  view_tag :: u8

record tx_input =
  prev_output :: outpoint
  in_witness :: witness

record tx_output =
  out_value :: amount
  locking_script :: script
  out_datum :: "datum option"
  out_stealth :: "stealth_info option"

record validity_interval =
  not_before :: "slot option"
  not_after :: "slot option"

record transaction =
  tx_version :: u32
  tx_inputs :: "tx_input list"
  tx_outputs :: "tx_output list"
  tx_validity :: validity_interval
  tx_lock_time :: slot
  tx_fee :: amount

record tx_env = crypto_env +
  ser_tx :: "transaction \<Rightarrow> (string, bytes) result"
  de_tx :: "bytes \<Rightarrow> (string, transaction) result"
  ser_output :: "tx_output \<Rightarrow> (string, bytes) result"
  de_output :: "bytes \<Rightarrow> (string, tx_output) result"

definition script_hash_of :: "'z crypto_env_scheme \<Rightarrow> script \<Rightarrow> script_hash" where
  "script_hash_of E s = Hash256 (sha3_256 E s)"

definition datum_hash_of :: "'z crypto_env_scheme \<Rightarrow> datum \<Rightarrow> datum_hash" where
  "datum_hash_of E d = Hash256 (sha3_256 E d)"

definition tx_input_new :: "outpoint \<Rightarrow> tx_input" where
  "tx_input_new p = \<lparr>prev_output = p, in_witness = []\<rparr>"

definition with_witness :: "tx_input \<Rightarrow> witness \<Rightarrow> tx_input" where
  "with_witness i w = i\<lparr>in_witness := w\<rparr>"

definition tx_output_new :: "amount \<Rightarrow> script \<Rightarrow> tx_output" where
  "tx_output_new v s = \<lparr>out_value = v, locking_script = s, out_datum = None, out_stealth = None\<rparr>"

definition with_datum :: "tx_output \<Rightarrow> datum \<Rightarrow> tx_output" where
  "with_datum out d = out\<lparr>out_datum := Some d\<rparr>"

definition with_stealth :: "tx_output \<Rightarrow> stealth_info \<Rightarrow> tx_output" where
  "with_stealth out s = out\<lparr>out_stealth := Some s\<rparr>"

section \<open>Validity interval\<close>

definition vi_unbounded :: validity_interval where
  "vi_unbounded = \<lparr>not_before = None, not_after = None\<rparr>"

definition vi_at_or_after :: "slot \<Rightarrow> validity_interval" where
  "vi_at_or_after lo = \<lparr>not_before = Some lo, not_after = None\<rparr>"

definition vi_at_or_before :: "slot \<Rightarrow> validity_interval" where
  "vi_at_or_before hi = \<lparr>not_before = None, not_after = Some hi\<rparr>"

definition vi_between :: "slot \<Rightarrow> slot \<Rightarrow> validity_interval" where
  "vi_between lo hi = \<lparr>not_before = Some lo, not_after = Some hi\<rparr>"

definition vi_contains :: "validity_interval \<Rightarrow> slot \<Rightarrow> bool" where
  "vi_contains vi s \<longleftrightarrow>
     (let lower_ok = (case not_before vi of Some lo \<Rightarrow> lo \<le> s | None \<Rightarrow> True);
          upper_ok = (case not_after vi of Some hi \<Rightarrow> s \<le> hi | None \<Rightarrow> True)
      in lower_ok \<and> upper_ok)"

section \<open>Transactions\<close>

definition TX_VERSION :: u32 where
  "TX_VERSION = 1"

definition tx_new :: "tx_input list \<Rightarrow> tx_output list \<Rightarrow> transaction" where
  "tx_new ins outs =
     \<lparr>tx_version = TX_VERSION, tx_inputs = ins, tx_outputs = outs, tx_validity = vi_unbounded,
      tx_lock_time = 0, tx_fee = 0\<rparr>"

definition tx_genesis :: "tx_output list \<Rightarrow> transaction" where
  "tx_genesis outs =
     \<lparr>tx_version = TX_VERSION, tx_inputs = [], tx_outputs = outs, tx_validity = vi_unbounded,
      tx_lock_time = 0, tx_fee = 0\<rparr>"

definition tx_new_coinbase :: "height \<Rightarrow> tx_output list \<Rightarrow> transaction" where
  "tx_new_coinbase h outs =
     \<lparr>tx_version = TX_VERSION, tx_inputs = [], tx_outputs = outs, tx_validity = vi_unbounded,
      tx_lock_time = h, tx_fee = 0\<rparr>"

definition is_coinbase :: "transaction \<Rightarrow> bool" where
  "is_coinbase tx \<longleftrightarrow> tx_inputs tx = []"

definition coinbase_height :: "transaction \<Rightarrow> height option" where
  "coinbase_height tx = (if is_coinbase tx then Some (tx_lock_time tx) else None)"

definition validate_coinbase_structure ::
  "transaction \<Rightarrow> height \<Rightarrow> (transaction_error, unit) result" where
  "validate_coinbase_structure tx h =
     (if tx_inputs tx \<noteq> [] then Inl CoinbaseHasInputs
      else if tx_outputs tx = [] then Inl NoOutputs
      else bind_res (ok_or (amount_checked_sum (map out_value (tx_outputs tx))) OutputOverflow) (\<lambda>_.
        if tx_lock_time tx \<noteq> h then Inl (CoinbaseHeightMismatch h (tx_lock_time tx))
        else Inr ()))"

definition tx_validate_structure :: "transaction \<Rightarrow> (transaction_error, unit) result" where
  "tx_validate_structure tx =
     (if tx_inputs tx = [] then Inl NoInputs
      else if tx_outputs tx = [] then Inl NoOutputs
      else if adjacent_equal (sort (map prev_output (tx_inputs tx))) then Inl DuplicateInput
      else bind_res (ok_or (amount_checked_sum (map out_value (tx_outputs tx))) OutputOverflow) (\<lambda>_.
        Inr ()))"

definition tx_canonical_bytes :: "'z tx_env_scheme \<Rightarrow> transaction \<Rightarrow> (transaction_error, bytes) result" where
  "tx_canonical_bytes E tx = map_err TxEncode (ser_tx E tx)"

definition tx_decode :: "'z tx_env_scheme \<Rightarrow> bytes \<Rightarrow> (transaction_error, transaction) result" where
  "tx_decode E bs = map_err TxDecode (de_tx E bs)"

definition tx_id :: "'z tx_env_scheme \<Rightarrow> transaction \<Rightarrow> (transaction_error, txid) result" where
  "tx_id E tx = bind_res (tx_canonical_bytes E tx) (\<lambda>bs. Inr (Hash256 (sha3_256 E bs)))"

definition clear_witnesses :: "transaction \<Rightarrow> transaction" where
  "clear_witnesses tx = tx\<lparr>tx_inputs := map (\<lambda>i. i\<lparr>in_witness := []\<rparr>) (tx_inputs tx)\<rparr>"

definition sighash :: "'z tx_env_scheme \<Rightarrow> transaction \<Rightarrow> (transaction_error, bytes) result" where
  "sighash E tx = bind_res (tx_canonical_bytes E (clear_witnesses tx)) (\<lambda>bs. Inr (sha3_256 E bs))"

section \<open>Lemmas\<close>

lemma vi_contains_between [simp]: "vi_contains (vi_between lo hi) s \<longleftrightarrow> lo \<le> s \<and> s \<le> hi"
  by (simp add: vi_contains_def vi_between_def)

lemma vi_contains_split:
  "vi_contains vi s \<longleftrightarrow>
     (\<forall>lo. not_before vi = Some lo \<longrightarrow> lo \<le> s) \<and> (\<forall>hi. not_after vi = Some hi \<longrightarrow> s \<le> hi)"
  by (auto simp: vi_contains_def split: option.splits)

lemma tx_validate_structure_Inr [res_simps]:
  "tx_validate_structure tx = Inr u \<longleftrightarrow>
     tx_inputs tx \<noteq> [] \<and> tx_outputs tx \<noteq> [] \<and> distinct (map prev_output (tx_inputs tx)) \<and>
     total_of (map out_value (tx_outputs tx)) < 2 ^ 64"
proof -
  have "(\<exists>s. amount_checked_sum xs = Some s) \<longleftrightarrow> total_of xs < 2 ^ 64" for xs
    using amount_checked_sum_None [of xs] by (metis not_None_eq not_le)
  then show ?thesis
    by (auto simp: tx_validate_structure_def adjacent_equal_sort res_simps)
qed

lemma validate_coinbase_structure_Inr [res_simps]:
  "validate_coinbase_structure tx h = Inr u \<longleftrightarrow>
     tx_inputs tx = [] \<and> tx_outputs tx \<noteq> [] \<and>
     total_of (map out_value (tx_outputs tx)) < 2 ^ 64 \<and> tx_lock_time tx = h"
proof -
  have "(\<exists>s. amount_checked_sum xs = Some s) \<longleftrightarrow> total_of xs < 2 ^ 64" for xs
    using amount_checked_sum_None [of xs] by (metis not_None_eq not_le)
  then show ?thesis by (auto simp: validate_coinbase_structure_def res_simps)
qed

lemma tx_id_Inr [res_simps]:
  "tx_id E tx = Inr i \<longleftrightarrow> (\<exists>bs. ser_tx E tx = Inr bs \<and> i = Hash256 (sha3_256 E bs))"
  by (auto simp: tx_id_def tx_canonical_bytes_def res_simps)

text \<open>
  C29. \<open>Transaction::validate_structure\<close> accepts exactly the transactions with at least
  one input and one output, pairwise distinct outpoints (the sort-and-compare-neighbours test
  is exact) and an output total that fits in 64 bits; each rejection names the first rule
  broken, in the order the code checks them.
\<close>

theorem tx_validate_structure_spec:
  "tx_validate_structure tx =
     (if tx_inputs tx = [] then Inl NoInputs
      else if tx_outputs tx = [] then Inl NoOutputs
      else if \<not> distinct (map prev_output (tx_inputs tx)) then Inl DuplicateInput
      else if 2 ^ 64 \<le> total_of (map out_value (tx_outputs tx)) then Inl OutputOverflow
      else Inr ())"
proof (cases "amount_checked_sum (map out_value (tx_outputs tx))")
  case None
  then have "2 ^ 64 \<le> total_of (map out_value (tx_outputs tx))" by (simp add: int_simps)
  with None show ?thesis by (simp add: tx_validate_structure_def adjacent_equal_sort)
next
  case (Some s)
  then have "\<not> 2 ^ 64 \<le> total_of (map out_value (tx_outputs tx))"
    by (metis amount_checked_sum_None option.distinct(1))
  with Some show ?thesis by (simp add: tx_validate_structure_def adjacent_equal_sort)
qed

lemma clear_witnesses_eq:
  "clear_witnesses tx = tx\<lparr>tx_inputs := map tx_input_new (map prev_output (tx_inputs tx))\<rparr>"
  by (simp add: clear_witnesses_def tx_input_new_def)

text \<open>
  C32. The signature hash does not depend on the witnesses: changing witnesses only leaves
  \<open>sighash\<close> unchanged, so signing is not circular. It binds everything else: given that
  bincode decodes what it encoded, two transactions with the same signature hash spend the
  same outpoints and have the same outputs, validity, lock time, fee and version, unless
  their two encodings are a SHA3 collision.
\<close>

theorem sighash_binds_all_but_witnesses:
  assumes bincode: "\<And>t bs. ser_tx E t = Inr bs \<Longrightarrow> de_tx E bs = Inr t"
    and same: "sighash E tx' = Inr d"
    and tx: "sighash E tx = Inr d"
  shows "(\<forall>ins. map prev_output ins = map prev_output (tx_inputs tx) \<longrightarrow>
            sighash E (tx\<lparr>tx_inputs := ins\<rparr>) = Inr d) \<and>
         (map prev_output (tx_inputs tx') = map prev_output (tx_inputs tx) \<and>
          tx'\<lparr>tx_inputs := []\<rparr> = tx\<lparr>tx_inputs := []\<rparr> \<or>
          (\<exists>b b'. b \<noteq> b' \<and> ser_tx E (clear_witnesses tx) = Inr b \<and>
             ser_tx E (clear_witnesses tx') = Inr b' \<and> sha3_256 E b = sha3_256 E b'))"
proof (rule conjI)
  have "clear_witnesses (tx\<lparr>tx_inputs := ins\<rparr>) = clear_witnesses tx"
    if "map prev_output ins = map prev_output (tx_inputs tx)" for ins
    using that by (simp add: clear_witnesses_eq del: map_map)
  with tx show "\<forall>ins. map prev_output ins = map prev_output (tx_inputs tx) \<longrightarrow>
      sighash E (tx\<lparr>tx_inputs := ins\<rparr>) = Inr d"
    by (simp add: sighash_def)
next
  obtain b b' where b: "ser_tx E (clear_witnesses tx) = Inr b" "sha3_256 E b = d"
    and b': "ser_tx E (clear_witnesses tx') = Inr b'" "sha3_256 E b' = d"
    using tx same by (auto simp: sighash_def tx_canonical_bytes_def res_simps)
  show "map prev_output (tx_inputs tx') = map prev_output (tx_inputs tx) \<and>
      tx'\<lparr>tx_inputs := []\<rparr> = tx\<lparr>tx_inputs := []\<rparr> \<or>
      (\<exists>b b'. b \<noteq> b' \<and> ser_tx E (clear_witnesses tx) = Inr b \<and>
         ser_tx E (clear_witnesses tx') = Inr b' \<and> sha3_256 E b = sha3_256 E b')"
  proof (cases "b = b'")
    case True
    then have eq: "clear_witnesses tx = clear_witnesses tx'"
      using bincode b b' by (metis sum.inject(2))
    have "map prev_output (tx_inputs (clear_witnesses t)) = map prev_output (tx_inputs t)"
      and "(clear_witnesses t)\<lparr>tx_inputs := []\<rparr> = t\<lparr>tx_inputs := []\<rparr>" for t
      by (simp_all add: clear_witnesses_def)
    with eq show ?thesis by metis
  qed (use b b' in auto)
qed

text \<open>
  A concrete environment for evaluating examples: a toy digest (32 bytes taken from the front
  of the padded input), an encoder that knows one transaction, and a verifier that accepts a
  signature equal to the key.
\<close>

definition demo_tx :: transaction where
  "demo_tx = tx_new [tx_input_new (OutPoint hash_zero 0)] [tx_output_new 7 [1]]"

definition demo_env :: tx_env where
  "demo_env =
     \<lparr>sha3_256 = (\<lambda>bs. take 32 (bs @ replicate 32 0)), blake3_256 = (\<lambda>bs. take 32 (bs @ replicate 32 0)),
      mldsa_pk_len = (\<lambda>_. 2), mldsa_sig_len = (\<lambda>_. 2), mldsa_verify = (\<lambda>_ pk _ sg. pk = sg),
      ser_tx = (\<lambda>t. if t = demo_tx then Inr [1] else Inl ''unsupported''),
      de_tx = (\<lambda>bs. if bs = [1] then Inr demo_tx else Inl ''malformed''),
      ser_output = (\<lambda>out. Inr (le_bytes 8 (unat (out_value out)) @ locking_script out)),
      de_output = (\<lambda>bs. if length bs < 8 then Inl ''malformed''
         else Inr (tx_output_new (of_nat (le_val (take 8 bs))) (drop 8 bs)))\<rparr>"

theorem sighash_binds_all_but_witnesses_witness:
  "sighash demo_env demo_tx = Inr (1 # replicate 31 0) \<and>
   sighash demo_env (demo_tx\<lparr>tx_inputs :=
     [with_witness (tx_input_new (OutPoint hash_zero 0)) [9]]\<rparr>) = Inr (1 # replicate 31 0)"
proof -
  have clear: "clear_witnesses demo_tx = demo_tx"
    by (simp add: clear_witnesses_def demo_tx_def tx_new_def tx_input_new_def)
  have 1: "\<And>t bs. ser_tx demo_env t = Inr bs \<Longrightarrow> de_tx demo_env bs = Inr t"
    by (simp add: demo_env_def split: if_splits)
  have 2: "sighash demo_env demo_tx = Inr (1 # replicate 31 0)"
    by (simp add: sighash_def tx_canonical_bytes_def clear) (simp add: demo_env_def)
  have 3: "map prev_output [with_witness (tx_input_new (OutPoint hash_zero 0)) [9]] =
      map prev_output (tx_inputs demo_tx)"
    by (simp add: demo_tx_def tx_new_def tx_input_new_def with_witness_def)
  show ?thesis
    using 2 3 sighash_binds_all_but_witnesses [OF 1 2 2] by blast
qed

end
