(* ===== verification/QV_Opcode.thy ===== *)
theory QV_Opcode
  imports QV_Transaction
begin

text \<open>
  \<open>qv-script/src/opcode.rs\<close>: stack values, the opcode set, instructions and the script byte
  format. The decoder walks the remaining suffix of the script where the code advances a
  position; both stop at the same errors with the same byte counts.
\<close>

section \<open>Values and opcodes\<close>

datatype opcode_error =
    UnknownOpcode u8
  | UnexpectedEnd nat nat
  | ZeroPush
  | ScriptTooLarge nat nat

datatype vm_value = VInt i64 | VBytes bytes

fun as_int :: "vm_value \<Rightarrow> i64 option" where
  "as_int (VInt n) = Some n"
| "as_int (VBytes b) = None"

fun as_bytes_v :: "vm_value \<Rightarrow> bytes option" where
  "as_bytes_v (VBytes b) = Some b"
| "as_bytes_v (VInt n) = None"

fun is_truthy :: "vm_value \<Rightarrow> bool" where
  "is_truthy (VInt n) = (n \<noteq> 0)"
| "is_truthy (VBytes b) = (b \<noteq> [])"

fun to_canonical_bytes :: "vm_value \<Rightarrow> bytes" where
  "to_canonical_bytes (VInt n) = le_bytes 8 (unat n)"
| "to_canonical_bytes (VBytes b) = b"

definition value_of_bool :: "bool \<Rightarrow> vm_value" where
  "value_of_bool b = VInt (if b then 1 else 0)"

lemma is_truthy_value_of_bool [simp]: "is_truthy (value_of_bool b) = b"
  by (simp add: value_of_bool_def)

datatype (plugins only: code size) opcode =
    Op0 | Op1 | OpPush1 | OpPush2 | OpPush4 | OpPushInt | OpDup | OpSwap | OpDrop | OpPick
    | OpRoll | OpOver | OpRot | OpDup2 | OpAdd | OpSub | OpMul | OpDiv | OpMod | OpNeg | OpAbs
    | OpMin | OpMax | OpMulU128 | OpEq | OpNeq | OpLt | OpGt | OpLe | OpGe | OpNot | OpAnd
    | OpOr | OpGeU128 | OpIf | OpElse | OpEndIf | OpVerify | OpReturn | OpCheckSigPqc
    | OpCheckMultiSigPqc | OpHashSha3 | OpHashBlake3 | OpReadInputValue | OpReadOutputValue
    | OpReadOutputScript | OpReadOutputDatum | OpTxHash | OpReadInputDatum | OpSelfScriptHash
    | OpSlotNumber | OpInputCount | OpOutputCount | OpTxFee | OpSigHash
    | OpAssertOutputScriptHash | OpAssertDatumHash | OpAssertValue | OpCat | OpSlice | OpLen
    | OpBytesToInt | OpNop

definition MAX_SCRIPT_SIZE :: nat where
  "MAX_SCRIPT_SIZE = 16384"

definition MAX_STACK_DEPTH :: nat where
  "MAX_STACK_DEPTH = 1024"

text \<open>The arms of \<open>OpCode::from_byte\<close>, in the source's order.\<close>

definition from_byte_arms :: "(u8 \<times> opcode) list" where
  "from_byte_arms =
    [(0x00, Op0), (0x01, Op1), (0x02, OpPush1), (0x03, OpPush2), (0x04, OpPush4)
     , (0x05, OpPushInt), (0x10, OpDup), (0x11, OpSwap), (0x12, OpDrop), (0x13, OpPick)
     , (0x14, OpRoll), (0x15, OpOver), (0x16, OpRot), (0x17, OpDup2), (0x20, OpAdd)
     , (0x21, OpSub), (0x22, OpMul), (0x23, OpDiv), (0x24, OpMod), (0x25, OpNeg), (0x26, OpAbs)
     , (0x27, OpMin), (0x28, OpMax), (0x29, OpMulU128), (0x30, OpEq), (0x31, OpNeq)
     , (0x32, OpLt), (0x33, OpGt), (0x34, OpLe), (0x35, OpGe), (0x36, OpNot), (0x37, OpAnd)
     , (0x38, OpOr), (0x39, OpGeU128), (0x40, OpIf), (0x41, OpElse), (0x42, OpEndIf)
     , (0x43, OpVerify), (0x44, OpReturn), (0x50, OpCheckSigPqc), (0x51, OpCheckMultiSigPqc)
     , (0x52, OpHashSha3), (0x53, OpHashBlake3), (0x60, OpReadInputValue)
     , (0x61, OpReadOutputValue), (0x62, OpReadOutputScript), (0x63, OpReadOutputDatum)
     , (0x64, OpTxHash), (0x65, OpSlotNumber), (0x66, OpInputCount), (0x67, OpOutputCount)
     , (0x68, OpTxFee), (0x69, OpSigHash), (0x6A, OpReadInputDatum), (0x6B, OpSelfScriptHash)
     , (0x70, OpAssertOutputScriptHash), (0x71, OpAssertDatumHash), (0x72, OpAssertValue)
     , (0x80, OpCat), (0x81, OpSlice), (0x82, OpLen), (0x83, OpBytesToInt), (0xFF, OpNop)]"

definition from_byte :: "u8 \<Rightarrow> (opcode_error, opcode) result" where
  "from_byte b = ok_or (map_of from_byte_arms b) (UnknownOpcode b)"

text \<open>The discriminants of the enum.\<close>

primrec to_byte :: "opcode \<Rightarrow> u8" where
  "to_byte Op0 = 0x00"
| "to_byte Op1 = 0x01"
| "to_byte OpPush1 = 0x02"
| "to_byte OpPush2 = 0x03"
| "to_byte OpPush4 = 0x04"
| "to_byte OpPushInt = 0x05"
| "to_byte OpDup = 0x10"
| "to_byte OpSwap = 0x11"
| "to_byte OpDrop = 0x12"
| "to_byte OpPick = 0x13"
| "to_byte OpRoll = 0x14"
| "to_byte OpOver = 0x15"
| "to_byte OpRot = 0x16"
| "to_byte OpDup2 = 0x17"
| "to_byte OpAdd = 0x20"
| "to_byte OpSub = 0x21"
| "to_byte OpMul = 0x22"
| "to_byte OpDiv = 0x23"
| "to_byte OpMod = 0x24"
| "to_byte OpNeg = 0x25"
| "to_byte OpAbs = 0x26"
| "to_byte OpMin = 0x27"
| "to_byte OpMax = 0x28"
| "to_byte OpMulU128 = 0x29"
| "to_byte OpEq = 0x30"
| "to_byte OpNeq = 0x31"
| "to_byte OpLt = 0x32"
| "to_byte OpGt = 0x33"
| "to_byte OpLe = 0x34"
| "to_byte OpGe = 0x35"
| "to_byte OpNot = 0x36"
| "to_byte OpAnd = 0x37"
| "to_byte OpOr = 0x38"
| "to_byte OpGeU128 = 0x39"
| "to_byte OpIf = 0x40"
| "to_byte OpElse = 0x41"
| "to_byte OpEndIf = 0x42"
| "to_byte OpVerify = 0x43"
| "to_byte OpReturn = 0x44"
| "to_byte OpCheckSigPqc = 0x50"
| "to_byte OpCheckMultiSigPqc = 0x51"
| "to_byte OpHashSha3 = 0x52"
| "to_byte OpHashBlake3 = 0x53"
| "to_byte OpReadInputValue = 0x60"
| "to_byte OpReadOutputValue = 0x61"
| "to_byte OpReadOutputScript = 0x62"
| "to_byte OpReadOutputDatum = 0x63"
| "to_byte OpTxHash = 0x64"
| "to_byte OpReadInputDatum = 0x6A"
| "to_byte OpSelfScriptHash = 0x6B"
| "to_byte OpSlotNumber = 0x65"
| "to_byte OpInputCount = 0x66"
| "to_byte OpOutputCount = 0x67"
| "to_byte OpTxFee = 0x68"
| "to_byte OpSigHash = 0x69"
| "to_byte OpAssertOutputScriptHash = 0x70"
| "to_byte OpAssertDatumHash = 0x71"
| "to_byte OpAssertValue = 0x72"
| "to_byte OpCat = 0x80"
| "to_byte OpSlice = 0x81"
| "to_byte OpLen = 0x82"
| "to_byte OpBytesToInt = 0x83"
| "to_byte OpNop = 0xFF"

primrec mnemonic :: "opcode \<Rightarrow> string" where
  "mnemonic Op0 = ''OP_0''"
| "mnemonic Op1 = ''OP_1''"
| "mnemonic OpPush1 = ''PUSH1''"
| "mnemonic OpPush2 = ''PUSH2''"
| "mnemonic OpPush4 = ''PUSH4''"
| "mnemonic OpPushInt = ''PUSH_INT''"
| "mnemonic OpDup = ''DUP''"
| "mnemonic OpSwap = ''SWAP''"
| "mnemonic OpDrop = ''DROP''"
| "mnemonic OpPick = ''PICK''"
| "mnemonic OpRoll = ''ROLL''"
| "mnemonic OpOver = ''OVER''"
| "mnemonic OpRot = ''ROT''"
| "mnemonic OpDup2 = ''DUP2''"
| "mnemonic OpAdd = ''ADD''"
| "mnemonic OpSub = ''SUB''"
| "mnemonic OpMul = ''MUL''"
| "mnemonic OpDiv = ''DIV''"
| "mnemonic OpMod = ''MOD''"
| "mnemonic OpNeg = ''NEG''"
| "mnemonic OpAbs = ''ABS''"
| "mnemonic OpMin = ''MIN''"
| "mnemonic OpMulU128 = ''MUL_U128''"
| "mnemonic OpMax = ''MAX''"
| "mnemonic OpEq = ''EQ''"
| "mnemonic OpNeq = ''NEQ''"
| "mnemonic OpLt = ''LT''"
| "mnemonic OpGt = ''GT''"
| "mnemonic OpLe = ''LE''"
| "mnemonic OpGe = ''GE''"
| "mnemonic OpNot = ''NOT''"
| "mnemonic OpAnd = ''AND''"
| "mnemonic OpOr = ''OR''"
| "mnemonic OpGeU128 = ''GE_U128''"
| "mnemonic OpIf = ''IF''"
| "mnemonic OpElse = ''ELSE''"
| "mnemonic OpEndIf = ''ENDIF''"
| "mnemonic OpVerify = ''VERIFY''"
| "mnemonic OpReturn = ''RETURN''"
| "mnemonic OpCheckSigPqc = ''CHECKSIG_PQC''"
| "mnemonic OpCheckMultiSigPqc = ''CHECKMULTISIG_PQC''"
| "mnemonic OpHashSha3 = ''HASH_SHA3''"
| "mnemonic OpHashBlake3 = ''HASH_BLAKE3''"
| "mnemonic OpReadInputValue = ''READ_INPUT_VALUE''"
| "mnemonic OpReadOutputValue = ''READ_OUTPUT_VALUE''"
| "mnemonic OpReadOutputScript = ''READ_OUTPUT_SCRIPT''"
| "mnemonic OpReadOutputDatum = ''READ_OUTPUT_DATUM''"
| "mnemonic OpTxHash = ''TX_HASH''"
| "mnemonic OpSlotNumber = ''SLOT_NUMBER''"
| "mnemonic OpInputCount = ''INPUT_COUNT''"
| "mnemonic OpOutputCount = ''OUTPUT_COUNT''"
| "mnemonic OpTxFee = ''TX_FEE''"
| "mnemonic OpSigHash = ''SIG_HASH''"
| "mnemonic OpReadInputDatum = ''READ_INPUT_DATUM''"
| "mnemonic OpSelfScriptHash = ''SELF_SCRIPT_HASH''"
| "mnemonic OpAssertOutputScriptHash = ''ASSERT_OUTPUT_SCRIPT_HASH''"
| "mnemonic OpAssertDatumHash = ''ASSERT_DATUM_HASH''"
| "mnemonic OpAssertValue = ''ASSERT_VALUE''"
| "mnemonic OpCat = ''CAT''"
| "mnemonic OpSlice = ''SLICE''"
| "mnemonic OpLen = ''LEN''"
| "mnemonic OpBytesToInt = ''BYTES_TO_INT''"
| "mnemonic OpNop = ''NOP''"

definition is_push :: "opcode \<Rightarrow> bool" where
  "is_push c \<longleftrightarrow> c \<in> {OpPush1, OpPush2, OpPush4, OpPushInt}"

lemma from_byte_to_byte [simp]: "from_byte (to_byte c) = Inr c"
  by (cases c) (simp_all add: from_byte_def from_byte_arms_def)

lemma to_byte_arms: "\<forall>e \<in> set from_byte_arms. to_byte (snd e) = fst e"
  by (simp add: from_byte_arms_def)

lemma from_byte_Inr: "from_byte b = Inr c \<longleftrightarrow> b = to_byte c"
proof
  assume "from_byte b = Inr c"
  then have "(b, c) \<in> set from_byte_arms"
    by (simp add: from_byte_def res_simps map_of_SomeD)
  with to_byte_arms show "b = to_byte c" by fastforce
qed simp

lemma to_byte_inj: "to_byte c = to_byte d \<longleftrightarrow> c = d"
  by (metis from_byte_to_byte sum.inject(2))

section \<open>Instructions\<close>

record instruction =
  i_op :: opcode
  i_data :: bytes

lemma instruction_eta [simp]: "\<lparr>i_op = i_op i, i_data = i_data i\<rparr> = i"
  by (cases i) simp

definition instr_simple :: "opcode \<Rightarrow> instruction" where
  "instr_simple c = \<lparr>i_op = c, i_data = []\<rparr>"

definition push_bytes :: "bytes \<Rightarrow> instruction" where
  "push_bytes d =
     \<lparr>i_op = (if length d \<le> 255 then OpPush1 else if length d \<le> 65535 then OpPush2 else OpPush4),
      i_data = d\<rparr>"

definition push_int :: "i64 \<Rightarrow> instruction" where
  "push_int n = \<lparr>i_op = OpPushInt, i_data = le_bytes 8 (unat n)\<rparr>"

text \<open>\<open>Instruction::encode\<close>; the length prefixes are casts, so they wrap at their width.\<close>

definition instr_encode :: "instruction \<Rightarrow> bytes" where
  "instr_encode i =
     to_byte (i_op i) #
       (if i_op i = OpPush1 then le_bytes 1 (length (i_data i)) @ i_data i
        else if i_op i = OpPush2 then le_bytes 2 (length (i_data i)) @ i_data i
        else if i_op i = OpPush4 then le_bytes 4 (length (i_data i)) @ i_data i
        else if i_op i = OpPushInt then i_data i
        else [])"

definition encode_instructions :: "instruction list \<Rightarrow> bytes" where
  "encode_instructions is = concat (map instr_encode is)"

section \<open>Decoding\<close>

text \<open>A \<open>PUSH\<close> with a \<open>k\<close>-byte length: the pushed bytes and what follows them.\<close>

definition decode_pushed :: "nat \<Rightarrow> bytes \<Rightarrow> (opcode_error, bytes \<times> bytes) result" where
  "decode_pushed k rest =
     (if length rest < k then Inl (UnexpectedEnd k (length rest))
      else let len = le_val (take k rest); rest' = drop k rest in
        if len = 0 then Inl ZeroPush
        else if length rest' < len then Inl (UnexpectedEnd len (length rest'))
        else Inr (take len rest', drop len rest'))"

definition decode_data :: "opcode \<Rightarrow> bytes \<Rightarrow> (opcode_error, bytes \<times> bytes) result" where
  "decode_data c rest =
     (if c = OpPush1 then decode_pushed 1 rest
      else if c = OpPush2 then decode_pushed 2 rest
      else if c = OpPush4 then decode_pushed 4 rest
      else if c = OpPushInt then
        (if length rest < 8 then Inl (UnexpectedEnd 8 (length rest))
         else Inr (take 8 rest, drop 8 rest))
      else Inr ([], rest))"

lemma decode_data_length: "decode_data c rest = Inr (d, rest') \<Longrightarrow> length rest' \<le> length rest"
  by (auto simp: decode_data_def decode_pushed_def Let_def split: if_splits)

function (sequential) decode_loop :: "bytes \<Rightarrow> (opcode_error, instruction list) result" where
  "decode_loop [] = Inr []"
| "decode_loop (b # rest) =
     bind_res (from_byte b) (\<lambda>c.
     bind_res (decode_data c rest) (\<lambda>(d, rest').
     bind_res (decode_loop rest') (\<lambda>is. Inr (\<lparr>i_op = c, i_data = d\<rparr> # is))))"
  by pat_completeness auto
termination
  by (relation "measure length") (auto dest!: decode_data_length)

definition decode_script :: "bytes \<Rightarrow> (opcode_error, instruction list) result" where
  "decode_script scr =
     (if MAX_SCRIPT_SIZE < length scr then Inl (ScriptTooLarge (length scr) MAX_SCRIPT_SIZE)
      else decode_loop scr)"

section \<open>The byte format round-trips\<close>

text \<open>The instructions the byte format can carry: every push non-empty and within its prefix.\<close>

definition instr_wf :: "instruction \<Rightarrow> bool" where
  "instr_wf i \<longleftrightarrow>
     (if i_op i = OpPush1 then 1 \<le> length (i_data i) \<and> length (i_data i) < 256
      else if i_op i = OpPush2 then 1 \<le> length (i_data i) \<and> length (i_data i) < 65536
      else if i_op i = OpPush4 then 1 \<le> length (i_data i) \<and> length (i_data i) < 4294967296
      else if i_op i = OpPushInt then length (i_data i) = 8
      else i_data i = [])"

lemma decode_pushed_append:
  assumes "1 \<le> length d" and "length d < 256 ^ k"
  shows "decode_pushed k (le_bytes k (length d) @ d @ rest) = Inr (d, rest)"
  using assms by (auto simp: decode_pushed_def le_val_le_bytes Let_def)

lemma decode_pushed_Inr:
  assumes "decode_pushed k bs = Inr (d, rest)"
  shows "bs = le_bytes k (length d) @ d @ rest \<and> 1 \<le> length d \<and> length d < 256 ^ k"
proof -
  let ?n = "le_val (take k bs)"
  from assms have k: "k \<le> length bs" and "0 < ?n" and n: "?n \<le> length (drop k bs)"
    and d: "d = take ?n (drop k bs)" and r: "rest = drop ?n (drop k bs)"
    by (auto simp: decode_pushed_def Let_def split: if_splits)
  have len: "length d = ?n" using d n by simp
  have "le_bytes k ?n = take k bs"
    using le_bytes_le_val [of "take k bs"] k by (simp add: min_absorb2)
  moreover have "?n < 256 ^ k" using le_val_bound [of "take k bs"] k by (simp add: min_absorb2)
  moreover have "d @ rest = drop k bs" unfolding d r by (rule append_take_drop_id)
  ultimately show ?thesis using len \<open>0 < ?n\<close> by simp
qed

lemma decode_loop_encode:
  assumes "instr_wf i"
  shows "decode_loop (instr_encode i @ bs) = bind_res (decode_loop bs) (\<lambda>is. Inr (i # is))"
proof -
  have "decode_data (i_op i) (tl (instr_encode i) @ bs) = Inr (i_data i, bs)"
    using assms decode_pushed_append [of "i_data i" 1 bs] decode_pushed_append [of "i_data i" 2 bs]
      decode_pushed_append [of "i_data i" 4 bs]
    by (auto simp: decode_data_def instr_encode_def instr_wf_def split: if_splits)
  moreover have "instr_encode i = to_byte (i_op i) # tl (instr_encode i)"
    by (simp add: instr_encode_def)
  ultimately have "decode_loop (to_byte (i_op i) # tl (instr_encode i) @ bs) =
      bind_res (decode_loop bs) (\<lambda>is. Inr (i # is))"
    by simp
  then show ?thesis
    using \<open>instr_encode i = to_byte (i_op i) # tl (instr_encode i)\<close> by (metis append_Cons)
qed

lemma decode_loop_encode_all:
  assumes "\<forall>i \<in> set is. instr_wf i"
  shows "decode_loop (encode_instructions is @ bs) =
    bind_res (decode_loop bs) (\<lambda>js. Inr (is @ js))"
  using assms
proof (induction "is")
  case Nil
  then show ?case by (cases "decode_loop bs") (auto simp: encode_instructions_def)
next
  case (Cons i "is")
  then have IH: "decode_loop (encode_instructions is @ bs) =
      bind_res (decode_loop bs) (\<lambda>js. Inr (is @ js))" and "instr_wf i" by auto
  have "encode_instructions (i # is) @ bs = instr_encode i @ encode_instructions is @ bs"
    by (simp add: encode_instructions_def)
  then show ?case using IH by (simp add: decode_loop_encode [OF \<open>instr_wf i\<close>] bind_res_assoc)
qed

lemma decode_data_Inr:
  assumes "decode_data c rest = Inr (d, rest')"
  shows "to_byte c # rest = instr_encode \<lparr>i_op = c, i_data = d\<rparr> @ rest' \<and>
    instr_wf \<lparr>i_op = c, i_data = d\<rparr>"
  using assms by (auto simp: decode_data_def instr_encode_def instr_wf_def
      dest!: decode_pushed_Inr split: if_splits)

lemma decode_loop_Inr:
  "decode_loop bs = Inr is \<Longrightarrow> bs = encode_instructions is \<and> (\<forall>i \<in> set is. instr_wf i)"
proof (induction bs arbitrary: "is" rule: decode_loop.induct)
  case (2 b rest)
  then obtain c d rest' js where c: "from_byte b = Inr c" "decode_data c rest = Inr (d, rest')"
    and js: "decode_loop rest' = Inr js" "is = \<lparr>i_op = c, i_data = d\<rparr> # js"
    by (auto simp: res_simps)
  have "rest' = encode_instructions js \<and> (\<forall>i \<in> set js. instr_wf i)"
    using "2.IH" [OF c refl js(1)] .
  with decode_data_Inr [OF c(2)] c(1) js(2) show ?case
    by (auto simp: from_byte_Inr encode_instructions_def)
qed (simp add: encode_instructions_def)

text \<open>
  C37. The script byte format round-trips: decoding succeeds exactly on the encodings of
  well-formed instruction lists of at most \<open>MAX_SCRIPT_SIZE\<close> bytes, and returns the list that
  was encoded; so no two byte strings decode to the same program.
\<close>

theorem decode_script_iff:
  "decode_script bs = Inr is \<longleftrightarrow>
     bs = encode_instructions is \<and> (\<forall>i \<in> set is. instr_wf i) \<and> length bs \<le> MAX_SCRIPT_SIZE"
proof -
  have "decode_loop (encode_instructions is) = Inr is" if "\<forall>i \<in> set is. instr_wf i"
    using decode_loop_encode_all [OF that, of "[]"] by simp
  then show ?thesis
    by (auto simp: decode_script_def not_less dest: decode_loop_Inr)
qed

theorem decode_script_iff_witness:
  "decode_script [0x02, 0x01, 0xAA, 0x10] = Inr [push_bytes [0xAA], instr_simple OpDup]"
  unfolding decode_script_iff
  by (simp add: push_bytes_def instr_simple_def instr_wf_def encode_instructions_def
      instr_encode_def MAX_SCRIPT_SIZE_def)

text \<open>An empty push is encodable but not decodable.\<close>

lemma empty_push_undecodable: "decode_script (instr_encode (push_bytes [])) = Inl ZeroPush"
  by (simp add: push_bytes_def instr_encode_def decode_script_def MAX_SCRIPT_SIZE_def
      from_byte_def from_byte_arms_def decode_data_def decode_pushed_def)

lemma push_bytes_wf: "instr_wf (push_bytes d) \<longleftrightarrow> d \<noteq> [] \<and> length d < 4294967296"
  by (auto simp: push_bytes_def instr_wf_def Suc_le_eq)

lemma push_int_wf [simp]: "instr_wf (push_int n)"
  by (simp add: push_int_def instr_wf_def)

lemma simple_wf: "instr_wf (instr_simple c) \<longleftrightarrow> \<not> is_push c"
  by (auto simp: instr_simple_def instr_wf_def is_push_def)

end
