(* ===== verification/QV_Gas.thy ===== *)
theory QV_Gas
  imports QV_Opcode
begin

text \<open>\<open>qv-script/src/gas.rs\<close>: the cost table and the gas meter.\<close>

definition gas_cost :: "opcode \<Rightarrow> u64" where
  "gas_cost c =
     (if c \<in> {Op0, Op1, OpNop, OpDrop} then 1
      else if c \<in> {OpDup, OpSwap, OpOver, OpRot, OpDup2, OpPick, OpRoll, OpEq, OpNeq, OpLt, OpGt,
        OpLe, OpGe, OpNot, OpAnd, OpOr, OpIf, OpElse, OpEndIf, OpVerify, OpReturn} then 2
      else if c \<in> {OpAdd, OpSub, OpMul, OpDiv, OpMod, OpNeg, OpAbs, OpMin, OpMax} then 5
      else if c \<in> {OpMulU128, OpGeU128} then 15
      else if c \<in> {OpPush1, OpPush2, OpPush4, OpPushInt, OpCat, OpSlice, OpLen, OpBytesToInt,
        OpReadInputValue, OpReadOutputValue, OpReadOutputScript, OpReadOutputDatum,
        OpReadInputDatum, OpSelfScriptHash, OpTxHash, OpSlotNumber, OpInputCount,
        OpOutputCount, OpTxFee, OpSigHash} then 10
      else if c \<in> {OpAssertOutputScriptHash, OpAssertDatumHash, OpAssertValue} then 20
      else if c \<in> {OpHashSha3, OpHashBlake3} then 50
      else if c = OpCheckSigPqc then 500
      else 2000)"

definition DEFAULT_GAS_LIMIT :: u64 where
  "DEFAULT_GAS_LIMIT = 100000"

definition MULTISIG_PER_KEY_COST :: u64 where
  "MULTISIG_PER_KEY_COST = 500"

record gas_meter =
  gas_remaining :: u64
  gas_consumed :: u64

definition gas_new :: "u64 \<Rightarrow> gas_meter" where
  "gas_new limit = \<lparr>gas_remaining = limit, gas_consumed = 0\<rparr>"

text \<open>\<open>GasMeter::consume\<close>: \<open>None\<close> is the answer \<open>false\<close>, which leaves the meter as it was.\<close>

definition gas_consume :: "gas_meter \<Rightarrow> u64 \<Rightarrow> gas_meter option" where
  "gas_consume g a =
     (if a \<le> gas_remaining g
      then Some \<lparr>gas_remaining = gas_remaining g - a, gas_consumed = gas_consumed g + a\<rparr>
      else None)"

definition gas_charge :: "gas_meter \<Rightarrow> opcode \<Rightarrow> gas_meter option" where
  "gas_charge g c = gas_consume g (gas_cost c)"

text \<open>The two counters of a meter created with \<open>limit\<close> always add up to it.\<close>

definition gas_ok :: "u64 \<Rightarrow> gas_meter \<Rightarrow> bool" where
  "gas_ok limit g \<longleftrightarrow> unat (gas_remaining g) + unat (gas_consumed g) = unat limit"

lemma gas_ok_new [simp]: "gas_ok limit (gas_new limit)"
  by (simp add: gas_ok_def gas_new_def)

lemma gas_consume_Some:
  assumes "gas_ok limit g" and "gas_consume g a = Some g'"
  shows "gas_ok limit g' \<and> unat (gas_consumed g') = unat (gas_consumed g) + unat a"
proof -
  from assms(2) have a: "a \<le> gas_remaining g"
    and g': "g' = \<lparr>gas_remaining = gas_remaining g - a, gas_consumed = gas_consumed g + a\<rparr>"
    by (auto simp: gas_consume_def split: if_splits)
  from a have le: "unat a \<le> unat (gas_remaining g)" by (simp add: word_le_nat_alt)
  then have "unat (gas_consumed g) + unat a \<le> unat limit"
    using assms(1) by (simp add: gas_ok_def)
  then have "unat (gas_consumed g) + unat a < 2 ^ 64"
    using unat_bound [of limit] by simp
  then have "unat (gas_consumed g + a) = unat (gas_consumed g) + unat a"
    by (intro unat_add_small) simp
  moreover have "unat (gas_remaining g - a) = unat (gas_remaining g) - unat a"
    using a by (rule unat_sub)
  ultimately show ?thesis using assms(1) le g' by (simp add: gas_ok_def)
qed

lemma gas_consume_None: "gas_consume g a = None \<longleftrightarrow> gas_remaining g < a"
  by (auto simp: gas_consume_def)

lemma gas_cost_pos: "1 \<le> unat (gas_cost c)"
  by (simp add: gas_cost_def)

lemma gas_charge_Some:
  assumes "gas_ok limit g" and "gas_charge g c = Some g'"
  shows "gas_ok limit g' \<and> unat (gas_consumed g) < unat (gas_consumed g')"
  using gas_consume_Some [OF assms(1) assms(2) [unfolded gas_charge_def]] gas_cost_pos [of c]
  by linarith

end
