(* ===== verification/QV_Interp.thy ===== *)
theory QV_Interp
  imports QV_Gas "HOL-Library.Signed_Division"
begin

text \<open>
  \<open>qv-script/src/interpreter.rs\<close>: the stack machine. The stack and the conditional stack
  are lists with the top at the head (the code has the top at the end of the vector). A panic
  of the code is the value \<open>Panic\<close>, so that its absence can be proved: the sources of
  panics are the slice \<open>data[..8]\<close> of a short \<open>PUSH_INT\<close>, the capacity overflow of
  \<open>Vec::with_capacity\<close> and the \<open>unreachable!()\<close> arm. Running out of memory is not modelled.
\<close>

section \<open>Errors, context, state\<close>

datatype script_error =
    OutOfGas
  | StackUnderflow
  | StackOverflow nat
  | TypeError
  | DivisionByZero
  | IndexOutOfRange nat nat
  | VerifyFailed
  | Returned
  | CovenantFailed string
  | MalformedCrypto string
  | UnbalancedConditional string
  | SliceOutOfBounds
  | Opcode opcode_error

datatype vm_fault = Error script_error | Panic

type_synonym 'a vm_result = "(vm_fault, 'a) result"
type_synonym vm_stack = "vm_value list"

record script_context =
  ctx_tx :: transaction
  resolved_inputs :: "tx_output list"
  current_slot :: slot
  ctx_tx_hash :: bytes
  ctx_sighash :: bytes
  locking_script_hash :: bytes

definition context_new ::
  "'z tx_env_scheme \<Rightarrow> transaction \<Rightarrow> tx_output list \<Rightarrow> slot \<Rightarrow> script_context" where
  "context_new E tx ins s =
     \<lparr>ctx_tx = tx, resolved_inputs = ins, current_slot = s,
      ctx_tx_hash = (case tx_canonical_bytes E tx of Inr b \<Rightarrow> sha3_256 E b | Inl _ \<Rightarrow> replicate 32 0),
      ctx_sighash = (case sighash E tx of Inr h \<Rightarrow> h | Inl _ \<Rightarrow> replicate 32 0),
      locking_script_hash = replicate 32 0\<rparr>"

definition with_locking_script ::
  "'z crypto_env_scheme \<Rightarrow> script_context \<Rightarrow> bytes \<Rightarrow> script_context" where
  "with_locking_script E ctx scr = ctx\<lparr>locking_script_hash := sha3_256 E scr\<rparr>"

record exec_result =
  success :: bool
  gas_used :: u64
  final_stack :: "vm_value list"

record vm_state =
  vm_stk :: vm_stack
  vm_exec :: "bool list"
  vm_gas :: gas_meter

section \<open>Stack helpers\<close>

definition vm_push :: "vm_stack \<Rightarrow> vm_value \<Rightarrow> vm_stack vm_result" where
  "vm_push s v =
     (if MAX_STACK_DEPTH \<le> length s then Inl (Error (StackOverflow MAX_STACK_DEPTH)) else Inr (v # s))"

fun vm_pop :: "vm_stack \<Rightarrow> (vm_value \<times> vm_stack) vm_result" where
  "vm_pop [] = Inl (Error StackUnderflow)"
| "vm_pop (v # s) = Inr (v, s)"

fun vm_peek :: "vm_stack \<Rightarrow> vm_value vm_result" where
  "vm_peek [] = Inl (Error StackUnderflow)"
| "vm_peek (v # s) = Inr v"

definition pop_int :: "vm_stack \<Rightarrow> (i64 \<times> vm_stack) vm_result" where
  "pop_int s = bind_res (vm_pop s) (\<lambda>(v, s').
     case v of VInt n \<Rightarrow> Inr (n, s') | VBytes _ \<Rightarrow> Inl (Error TypeError))"

definition pop_bytes :: "vm_stack \<Rightarrow> (bytes \<times> vm_stack) vm_result" where
  "pop_bytes s = bind_res (vm_pop s) (\<lambda>(v, s').
     case v of VBytes b \<Rightarrow> Inr (b, s') | VInt n \<Rightarrow> Inr (le_bytes 8 (unat n), s'))"

definition bin_int_op :: "vm_stack \<Rightarrow> (i64 \<Rightarrow> i64 \<Rightarrow> i64) \<Rightarrow> vm_stack vm_result" where
  "bin_int_op s f =
     bind_res (pop_int s) (\<lambda>(b, s). bind_res (pop_int s) (\<lambda>(a, s). vm_push s (VInt (f a b))))"

definition cmp_int_op :: "vm_stack \<Rightarrow> (i64 \<Rightarrow> i64 \<Rightarrow> bool) \<Rightarrow> vm_stack vm_result" where
  "cmp_int_op s f =
     bind_res (pop_int s) (\<lambda>(b, s). bind_res (pop_int s) (\<lambda>(a, s). vm_push s (value_of_bool (f a b))))"

section \<open>Signature checks\<close>

definition checksig_level ::
  "'z crypto_env_scheme \<Rightarrow> bytes \<Rightarrow> bytes \<Rightarrow> bytes \<Rightarrow> dilithium_level \<Rightarrow> bool" where
  "checksig_level E pk sg msg level =
     (case pqc_public_key_from_bytes E level pk of
        Inl _ \<Rightarrow> False
      | Inr k \<Rightarrow> (case pqc_signature_from_bytes E level sg of
          Inl _ \<Rightarrow> False
        | Inr s \<Rightarrow> verify_pqc E k msg s = Inr True))"

definition checksig_pqc :: "'z crypto_env_scheme \<Rightarrow> bytes \<Rightarrow> bytes \<Rightarrow> bytes \<Rightarrow> bool" where
  "checksig_pqc E pk sg msg = list_ex (checksig_level E pk sg msg) [Level3, Level2, Level5]"

text \<open>The inner loop: mark the first unused key that \<open>p\<close> accepts, if there is one.\<close>

fun mark_first :: "('k \<Rightarrow> bool) \<Rightarrow> 'k list \<Rightarrow> bool list \<Rightarrow> bool list option" where
  "mark_first p (pk # pks) (u # us) =
     (if \<not> u \<and> p pk then Some (True # us)
      else map_option ((#) u) (mark_first p pks us))"
| "mark_first p _ _ = None"

fun multisig_loop ::
  "('k \<Rightarrow> 's \<Rightarrow> bool) \<Rightarrow> 'k list \<Rightarrow> 's list \<Rightarrow> bool list \<Rightarrow> nat \<Rightarrow> nat" where
  "multisig_loop chk pks [] used cnt = cnt"
| "multisig_loop chk pks (sg # sgs) used cnt =
     (case mark_first (\<lambda>pk. chk pk sg) pks used of
        Some used' \<Rightarrow> multisig_loop chk pks sgs used' (Suc cnt)
      | None \<Rightarrow> multisig_loop chk pks sgs used cnt)"

definition checkmultisig_pqc ::
  "'z crypto_env_scheme \<Rightarrow> bytes list \<Rightarrow> bytes list \<Rightarrow> bytes \<Rightarrow> nat \<Rightarrow> bool" where
  "checkmultisig_pqc E pks sigs msg threshold =
     (if length pks < threshold \<or> length sigs < threshold then False
      else threshold \<le>
        multisig_loop (\<lambda>pk sg. checksig_pqc E pk sg msg) pks sigs (replicate (length pks) False) 0)"

section \<open>The opcodes\<close>

definition exec_const :: "instruction \<Rightarrow> vm_stack \<Rightarrow> vm_stack vm_result" where
  "exec_const i s = (case i_op i of
     Op0 \<Rightarrow> vm_push s (VInt 0)
   | Op1 \<Rightarrow> vm_push s (VInt 1)
   | OpPush1 \<Rightarrow> vm_push s (VBytes (i_data i))
   | OpPush2 \<Rightarrow> vm_push s (VBytes (i_data i))
   | OpPush4 \<Rightarrow> vm_push s (VBytes (i_data i))
   | OpPushInt \<Rightarrow>
       (if length (i_data i) < 8 then Inl Panic
        else vm_push s (VInt (of_nat (le_val (take 8 (i_data i))))))
   | _ \<Rightarrow> Inl Panic)"

text \<open>\<open>Vec::remove\<close> of the element \<open>n\<close> below the top.\<close>

definition remove_nth :: "nat \<Rightarrow> 'a list \<Rightarrow> 'a list" where
  "remove_nth n xs = take n xs @ drop (Suc n) xs"

definition exec_stack_op :: "opcode \<Rightarrow> vm_stack \<Rightarrow> vm_stack vm_result" where
  "exec_stack_op c s = (case c of
     OpDup \<Rightarrow> bind_res (vm_peek s) (\<lambda>a. vm_push s a)
   | OpSwap \<Rightarrow>
       bind_res (vm_pop s) (\<lambda>(b, s). bind_res (vm_pop s) (\<lambda>(a, s).
       bind_res (vm_push s b) (\<lambda>s. vm_push s a)))
   | OpDrop \<Rightarrow> bind_res (vm_pop s) (\<lambda>(_, s). Inr s)
   | OpPick \<Rightarrow>
       bind_res (pop_int s) (\<lambda>(n, s).
         if length s \<le> unat n then Inl (Error StackUnderflow) else vm_push s (s ! unat n))
   | OpRoll \<Rightarrow>
       bind_res (pop_int s) (\<lambda>(n, s).
         if length s \<le> unat n then Inl (Error StackUnderflow)
         else vm_push (remove_nth (unat n) s) (s ! unat n))
   | OpOver \<Rightarrow> if length s < 2 then Inl (Error StackUnderflow) else vm_push s (s ! 1)
   | OpRot \<Rightarrow>
       if length s < 3 then Inl (Error StackUnderflow) else vm_push (remove_nth 2 s) (s ! 2)
   | OpDup2 \<Rightarrow>
       if length s < 2 then Inl (Error StackUnderflow)
       else bind_res (vm_push s (s ! 1)) (\<lambda>s'. vm_push s' (s ! 0))
   | _ \<Rightarrow> Inl Panic)"

definition wrapping_div :: "i64 \<Rightarrow> i64 \<Rightarrow> i64" where
  "wrapping_div a b = word_of_int (sint a sdiv sint b)"

definition wrapping_rem :: "i64 \<Rightarrow> i64 \<Rightarrow> i64" where
  "wrapping_rem a b = word_of_int (sint a smod sint b)"

definition wrapping_abs :: "i64 \<Rightarrow> i64" where
  "wrapping_abs a = (if sint a < 0 then - a else a)"

definition exec_arith :: "opcode \<Rightarrow> vm_stack \<Rightarrow> vm_stack vm_result" where
  "exec_arith c s = (case c of
     OpAdd \<Rightarrow> bin_int_op s (+)
   | OpSub \<Rightarrow> bin_int_op s (-)
   | OpMul \<Rightarrow> bin_int_op s (*)
   | OpDiv \<Rightarrow>
       bind_res (pop_int s) (\<lambda>(b, s). bind_res (pop_int s) (\<lambda>(a, s).
         if b = 0 then Inl (Error DivisionByZero) else vm_push s (VInt (wrapping_div a b))))
   | OpMod \<Rightarrow>
       bind_res (pop_int s) (\<lambda>(b, s). bind_res (pop_int s) (\<lambda>(a, s).
         if b = 0 then Inl (Error DivisionByZero) else vm_push s (VInt (wrapping_rem a b))))
   | OpNeg \<Rightarrow> bind_res (pop_int s) (\<lambda>(a, s). vm_push s (VInt (- a)))
   | OpAbs \<Rightarrow> bind_res (pop_int s) (\<lambda>(a, s). vm_push s (VInt (wrapping_abs a)))
   | OpMin \<Rightarrow> bin_int_op s (\<lambda>a b. if sint b < sint a then b else a)
   | OpMax \<Rightarrow> bin_int_op s (\<lambda>a b. if sint b < sint a then a else b)
   | OpMulU128 \<Rightarrow>
       bind_res (pop_int s) (\<lambda>(b, s). bind_res (pop_int s) (\<lambda>(a, s).
         let product = (ucast a :: u128) * ucast b
         in vm_push s (VBytes (le_bytes 16 (unat product)))))
   | _ \<Rightarrow> Inl Panic)"

definition exec_compare :: "opcode \<Rightarrow> vm_stack \<Rightarrow> vm_stack vm_result" where
  "exec_compare c s = (case c of
     OpEq \<Rightarrow>
       bind_res (vm_pop s) (\<lambda>(b, s). bind_res (vm_pop s) (\<lambda>(a, s). vm_push s (value_of_bool (a = b))))
   | OpNeq \<Rightarrow>
       bind_res (vm_pop s) (\<lambda>(b, s). bind_res (vm_pop s) (\<lambda>(a, s). vm_push s (value_of_bool (a \<noteq> b))))
   | OpLt \<Rightarrow> cmp_int_op s (\<lambda>a b. sint a < sint b)
   | OpGt \<Rightarrow> cmp_int_op s (\<lambda>a b. sint b < sint a)
   | OpLe \<Rightarrow> cmp_int_op s (\<lambda>a b. sint a \<le> sint b)
   | OpGe \<Rightarrow> cmp_int_op s (\<lambda>a b. sint b \<le> sint a)
   | OpGeU128 \<Rightarrow>
       bind_res (pop_bytes s) (\<lambda>(b, s). bind_res (pop_bytes s) (\<lambda>(a, s).
         if length a \<noteq> 16 \<or> length b \<noteq> 16 then Inl (Error TypeError)
         else vm_push s (value_of_bool (le_val b \<le> le_val a))))
   | OpNot \<Rightarrow> bind_res (vm_pop s) (\<lambda>(a, s). vm_push s (value_of_bool (\<not> is_truthy a)))
   | OpAnd \<Rightarrow>
       bind_res (vm_pop s) (\<lambda>(b, s). bind_res (vm_pop s) (\<lambda>(a, s).
         vm_push s (value_of_bool (is_truthy a \<and> is_truthy b))))
   | OpOr \<Rightarrow>
       bind_res (vm_pop s) (\<lambda>(b, s). bind_res (vm_pop s) (\<lambda>(a, s).
         vm_push s (value_of_bool (is_truthy a \<or> is_truthy b))))
   | _ \<Rightarrow> Inl Panic)"

definition exec_control :: "opcode \<Rightarrow> vm_stack \<Rightarrow> vm_stack vm_result" where
  "exec_control c s = (case c of
     OpVerify \<Rightarrow>
       bind_res (vm_pop s) (\<lambda>(a, s). if is_truthy a then Inr s else Inl (Error VerifyFailed))
   | OpReturn \<Rightarrow> Inl (Error Returned)
   | _ \<Rightarrow> Inl Panic)"

text \<open>\<open>Vec::<Vec<u8>>::with_capacity(n)\<close>: 24 bytes per element, at most \<open>isize::MAX\<close>.\<close>

definition with_capacity :: "nat \<Rightarrow> unit vm_result" where
  "with_capacity n = fail_if (2 ^ 63 - 1 < n * 24) Panic"

fun pop_bytes_n :: "nat \<Rightarrow> vm_stack \<Rightarrow> (bytes list \<times> vm_stack) vm_result" where
  "pop_bytes_n 0 s = Inr ([], s)"
| "pop_bytes_n (Suc n) s =
     bind_res (pop_bytes s) (\<lambda>(b, s). bind_res (pop_bytes_n n s) (\<lambda>(bs, s). Inr (b # bs, s)))"

definition exec_crypto ::
  "'z crypto_env_scheme \<Rightarrow> opcode \<Rightarrow> vm_stack \<Rightarrow> gas_meter \<Rightarrow> (vm_stack \<times> gas_meter) vm_result" where
  "exec_crypto E c s g = (case c of
     OpCheckSigPqc \<Rightarrow>
       bind_res (pop_bytes s) (\<lambda>(pk, s). bind_res (pop_bytes s) (\<lambda>(sg, s).
       bind_res (pop_bytes s) (\<lambda>(msg, s).
       bind_res (vm_push s (value_of_bool (checksig_pqc E pk sg msg))) (\<lambda>s. Inr (s, g)))))
   | OpCheckMultiSigPqc \<Rightarrow>
       bind_res (pop_int s) (\<lambda>(n_keys, s).
       bind_res (ok_or (gas_consume g (sat_mul MULTISIG_PER_KEY_COST n_keys)) (Error OutOfGas)) (\<lambda>g.
       bind_res (with_capacity (unat n_keys)) (\<lambda>_.
       bind_res (pop_bytes_n (unat n_keys) s) (\<lambda>(pks, s).
       bind_res (pop_int s) (\<lambda>(m_sigs, s).
       bind_res (with_capacity (unat m_sigs)) (\<lambda>_.
       bind_res (pop_bytes_n (unat m_sigs) s) (\<lambda>(sigs, s).
       bind_res (pop_bytes s) (\<lambda>(msg, s).
       bind_res (vm_push s (value_of_bool (checkmultisig_pqc E pks sigs msg (unat m_sigs)))) (\<lambda>s.
         Inr (s, g))))))))))
   | OpHashSha3 \<Rightarrow>
       bind_res (pop_bytes s) (\<lambda>(d, s). bind_res (vm_push s (VBytes (sha3_256 E d))) (\<lambda>s. Inr (s, g)))
   | OpHashBlake3 \<Rightarrow>
       bind_res (pop_bytes s) (\<lambda>(d, s). bind_res (vm_push s (VBytes (blake3_256 E d))) (\<lambda>s. Inr (s, g)))
   | _ \<Rightarrow> Inl Panic)"

text \<open>Pop an index and fetch the element, or fail with the index and the count.\<close>

definition pop_indexed :: "'a list \<Rightarrow> vm_stack \<Rightarrow> ('a \<times> vm_stack) vm_result" where
  "pop_indexed xs s =
     bind_res (pop_int s) (\<lambda>(i, s).
       if length xs \<le> unat i then Inl (Error (IndexOutOfRange (unat i) (length xs)))
       else Inr (xs ! unat i, s))"

definition datum_bytes :: "tx_output \<Rightarrow> bytes" where
  "datum_bytes out = (case out_datum out of None \<Rightarrow> [] | Some d \<Rightarrow> d)"

definition exec_introspect :: "script_context \<Rightarrow> opcode \<Rightarrow> vm_stack \<Rightarrow> vm_stack vm_result" where
  "exec_introspect ctx c s = (case c of
     OpReadInputValue \<Rightarrow>
       bind_res (pop_indexed (resolved_inputs ctx) s) (\<lambda>(out, s). vm_push s (VInt (out_value out)))
   | OpReadOutputValue \<Rightarrow>
       bind_res (pop_indexed (tx_outputs (ctx_tx ctx)) s) (\<lambda>(out, s). vm_push s (VInt (out_value out)))
   | OpReadOutputScript \<Rightarrow>
       bind_res (pop_indexed (tx_outputs (ctx_tx ctx)) s) (\<lambda>(out, s).
         vm_push s (VBytes (locking_script out)))
   | OpReadOutputDatum \<Rightarrow>
       bind_res (pop_indexed (tx_outputs (ctx_tx ctx)) s) (\<lambda>(out, s).
         vm_push s (VBytes (datum_bytes out)))
   | OpReadInputDatum \<Rightarrow>
       bind_res (pop_indexed (resolved_inputs ctx) s) (\<lambda>(out, s). vm_push s (VBytes (datum_bytes out)))
   | OpSelfScriptHash \<Rightarrow> vm_push s (VBytes (locking_script_hash ctx))
   | OpTxHash \<Rightarrow> vm_push s (VBytes (ctx_tx_hash ctx))
   | OpSigHash \<Rightarrow> vm_push s (VBytes (ctx_sighash ctx))
   | OpSlotNumber \<Rightarrow> vm_push s (VInt (current_slot ctx))
   | OpInputCount \<Rightarrow> vm_push s (VInt (of_nat (length (tx_inputs (ctx_tx ctx)))))
   | OpOutputCount \<Rightarrow> vm_push s (VInt (of_nat (length (tx_outputs (ctx_tx ctx)))))
   | OpTxFee \<Rightarrow> vm_push s (VInt (tx_fee (ctx_tx ctx)))
   | _ \<Rightarrow> Inl Panic)"

definition exec_covenant ::
  "'z crypto_env_scheme \<Rightarrow> script_context \<Rightarrow> opcode \<Rightarrow> vm_stack \<Rightarrow> vm_stack vm_result" where
  "exec_covenant E ctx c s = (case c of
     OpAssertOutputScriptHash \<Rightarrow>
       bind_res (pop_bytes s) (\<lambda>(h, s). bind_res (pop_indexed (tx_outputs (ctx_tx ctx)) s) (\<lambda>(out, s).
         if hbytes (script_hash_of E (locking_script out)) \<noteq> h
         then Inl (Error (CovenantFailed ''output script hash mismatch'')) else Inr s))
   | OpAssertDatumHash \<Rightarrow>
       bind_res (pop_bytes s) (\<lambda>(h, s). bind_res (pop_indexed (tx_outputs (ctx_tx ctx)) s) (\<lambda>(out, s).
         case out_datum out of
           Some d \<Rightarrow>
             (if hbytes (datum_hash_of E d) = h then Inr s
              else Inl (Error (CovenantFailed ''datum hash mismatch'')))
         | None \<Rightarrow> Inl (Error (CovenantFailed ''datum hash mismatch''))))
   | OpAssertValue \<Rightarrow>
       bind_res (pop_int s) (\<lambda>(expected, s).
       bind_res (pop_indexed (tx_outputs (ctx_tx ctx)) s) (\<lambda>(out, s).
         if out_value out \<noteq> expected then Inl (Error (CovenantFailed ''output value mismatch''))
         else Inr s))
   | _ \<Rightarrow> Inl Panic)"

definition exec_data :: "opcode \<Rightarrow> vm_stack \<Rightarrow> vm_stack vm_result" where
  "exec_data c s = (case c of
     OpCat \<Rightarrow>
       bind_res (pop_bytes s) (\<lambda>(b, s). bind_res (pop_bytes s) (\<lambda>(a, s). vm_push s (VBytes (a @ b))))
   | OpSlice \<Rightarrow>
       bind_res (pop_int s) (\<lambda>(len, s). bind_res (pop_int s) (\<lambda>(start, s).
       bind_res (pop_bytes s) (\<lambda>(data, s).
         let fin = unat (sat_add start len) in
         if length data < fin then Inl (Error SliceOutOfBounds)
         else vm_push s (VBytes (take (fin - unat start) (drop (unat start) data))))))
   | OpLen \<Rightarrow>
       bind_res (vm_pop s) (\<lambda>(a, s).
         vm_push s (VInt (case a of VInt _ \<Rightarrow> 8 | VBytes b \<Rightarrow> of_nat (length b))))
   | OpBytesToInt \<Rightarrow>
       bind_res (pop_int s) (\<lambda>(n, s). bind_res (pop_bytes s) (\<lambda>(data, s).
         if \<not> (1 \<le> sint n \<and> sint n \<le> 8) then Inl (Error TypeError)
         else if length data \<noteq> unat n then Inl (Error TypeError)
         else vm_push s (VInt (of_nat (le_val data)))))
   | _ \<Rightarrow> Inl Panic)"

section \<open>The interpreter loop\<close>

definition const_ops :: "opcode set" where
  "const_ops = {Op0, Op1, OpPush1, OpPush2, OpPush4, OpPushInt}"

definition stack_ops :: "opcode set" where
  "stack_ops = {OpDup, OpSwap, OpDrop, OpPick, OpRoll, OpOver, OpRot, OpDup2}"

definition arith_ops :: "opcode set" where
  "arith_ops = {OpAdd, OpSub, OpMul, OpDiv, OpMod, OpNeg, OpAbs, OpMin, OpMax, OpMulU128}"

definition compare_ops :: "opcode set" where
  "compare_ops = {OpEq, OpNeq, OpLt, OpGt, OpLe, OpGe, OpGeU128, OpNot, OpAnd, OpOr}"

definition crypto_ops :: "opcode set" where
  "crypto_ops = {OpCheckSigPqc, OpCheckMultiSigPqc, OpHashSha3, OpHashBlake3}"

definition introspect_ops :: "opcode set" where
  "introspect_ops = {OpReadInputValue, OpReadOutputValue, OpReadOutputScript, OpReadOutputDatum,
     OpReadInputDatum, OpSelfScriptHash, OpTxHash, OpSigHash, OpSlotNumber, OpInputCount,
     OpOutputCount, OpTxFee}"

definition covenant_ops :: "opcode set" where
  "covenant_ops = {OpAssertOutputScriptHash, OpAssertDatumHash, OpAssertValue}"

definition data_ops :: "opcode set" where
  "data_ops = {OpCat, OpSlice, OpLen, OpBytesToInt}"

lemmas op_groups = const_ops_def stack_ops_def arith_ops_def compare_ops_def crypto_ops_def
  introspect_ops_def covenant_ops_def data_ops_def

text \<open>
  The second \<open>match\<close> of the loop body: one arm per opcode. \<open>IF\<close>, \<open>ELSE\<close> and \<open>ENDIF\<close> never
  reach it; their arm is \<open>unreachable!()\<close>.
\<close>

definition exec_op ::
  "'z crypto_env_scheme \<Rightarrow> script_context \<Rightarrow> instruction \<Rightarrow> vm_stack \<Rightarrow> gas_meter \<Rightarrow>
     (vm_stack \<times> gas_meter) vm_result" where
  "exec_op E ctx i s g =
     (if i_op i \<in> crypto_ops then exec_crypto E (i_op i) s g
      else bind_res
        (if i_op i \<in> const_ops then exec_const i s
         else if i_op i \<in> stack_ops then exec_stack_op (i_op i) s
         else if i_op i \<in> arith_ops then exec_arith (i_op i) s
         else if i_op i \<in> compare_ops then exec_compare (i_op i) s
         else if i_op i \<in> {OpVerify, OpReturn} then exec_control (i_op i) s
         else if i_op i \<in> introspect_ops then exec_introspect ctx (i_op i) s
         else if i_op i \<in> covenant_ops then exec_covenant E ctx (i_op i) s
         else if i_op i \<in> data_ops then exec_data (i_op i) s
         else if i_op i = OpNop then Inr s
         else Inl Panic)
        (\<lambda>s'. Inr (s', g)))"

definition executing :: "bool list \<Rightarrow> bool" where
  "executing es \<longleftrightarrow> list_all (\<lambda>b. b) es"

text \<open>The first \<open>match\<close>: \<open>None\<close> when the opcode is not a conditional.\<close>

definition exec_conditional :: "opcode \<Rightarrow> vm_state \<Rightarrow> vm_state vm_result option" where
  "exec_conditional c st =
     (let es = vm_exec st in
      if c = OpIf then Some
        (if executing es
         then bind_res (vm_pop (vm_stk st)) (\<lambda>(v, s). Inr (st\<lparr>vm_stk := s, vm_exec := is_truthy v # es\<rparr>))
         else Inr (st\<lparr>vm_exec := False # es\<rparr>))
      else if c = OpElse then Some
        (let parent_exec = (length es < 2 \<or> executing (drop 2 es) \<and> executing (drop 1 es)) in
         case es of
           [] \<Rightarrow> Inl (Error (UnbalancedConditional ''ELSE without IF''))
         | b # es' \<Rightarrow> Inr (st\<lparr>vm_exec := (if parent_exec then \<not> b else b) # es'\<rparr>))
      else if c = OpEndIf then Some
        (case es of
           [] \<Rightarrow> Inl (Error (UnbalancedConditional ''ENDIF without IF''))
         | _ # es' \<Rightarrow> Inr (st\<lparr>vm_exec := es'\<rparr>))
      else None)"

definition exec_instr ::
  "'z crypto_env_scheme \<Rightarrow> script_context \<Rightarrow> instruction \<Rightarrow> vm_state \<Rightarrow> vm_state vm_result" where
  "exec_instr E ctx i st =
     bind_res (ok_or (gas_charge (vm_gas st) (i_op i)) (Error OutOfGas)) (\<lambda>g.
       let st = st\<lparr>vm_gas := g\<rparr> in
       case exec_conditional (i_op i) st of
         Some r \<Rightarrow> r
       | None \<Rightarrow>
           (if \<not> executing (vm_exec st) then Inr st
            else bind_res (exec_op E ctx i (vm_stk st) g) (\<lambda>(s, g').
              Inr (st\<lparr>vm_stk := s, vm_gas := g'\<rparr>))))"

fun run_instrs ::
  "'z crypto_env_scheme \<Rightarrow> script_context \<Rightarrow> instruction list \<Rightarrow> vm_state \<Rightarrow> vm_state vm_result" where
  "run_instrs E ctx [] st = Inr st"
| "run_instrs E ctx (i # is) st = bind_res (exec_instr E ctx i st) (\<lambda>st'. run_instrs E ctx is st')"

definition vm_init :: "gas_meter \<Rightarrow> vm_state" where
  "vm_init g = \<lparr>vm_stk = [], vm_exec = [], vm_gas = g\<rparr>"

definition vm_finish :: "vm_state \<Rightarrow> exec_result vm_result" where
  "vm_finish st =
     (if vm_exec st \<noteq> [] then Inl (Error (UnbalancedConditional ''unterminated IF block''))
      else Inr
        \<lparr>success = (case vm_stk st of [] \<Rightarrow> False | v # _ \<Rightarrow> is_truthy v),
         gas_used = gas_consumed (vm_gas st), final_stack = rev (vm_stk st)\<rparr>)"

definition execute_instructions ::
  "'z crypto_env_scheme \<Rightarrow> instruction list \<Rightarrow> script_context \<Rightarrow> gas_meter \<Rightarrow> exec_result vm_result" where
  "execute_instructions E is ctx g = bind_res (run_instrs E ctx is (vm_init g)) vm_finish"

definition execute ::
  "'z crypto_env_scheme \<Rightarrow> bytes \<Rightarrow> script_context \<Rightarrow> gas_meter \<Rightarrow> exec_result vm_result" where
  "execute E scr ctx g =
     bind_res (map_err (\<lambda>e. Error (Opcode e)) (decode_script scr)) (\<lambda>is.
       execute_instructions E is ctx g)"

section \<open>Results of the helpers\<close>

lemma vm_push_Inr [res_simps]: "vm_push s v = Inr s' \<longleftrightarrow> length s < MAX_STACK_DEPTH \<and> s' = v # s"
  by (auto simp: vm_push_def)

lemma vm_pop_Inr [res_simps]: "vm_pop s = Inr p \<longleftrightarrow> s = fst p # snd p"
  by (cases s) auto

lemma vm_peek_Inr [res_simps]: "vm_peek s = Inr v \<longleftrightarrow> (\<exists>s'. s = v # s')"
  by (cases s) auto

lemma pop_int_simps [simp]:
  "pop_int [] = Inl (Error StackUnderflow)"
  "pop_int (VInt n # s) = Inr (n, s)"
  "pop_int (VBytes b # s) = Inl (Error TypeError)"
  by (simp_all add: pop_int_def)

lemma pop_bytes_simps [simp]:
  "pop_bytes [] = Inl (Error StackUnderflow)"
  "pop_bytes (v # s) = Inr (to_canonical_bytes v, s)"
  by (simp_all add: pop_bytes_def split: vm_value.splits)

lemma pop_int_Inr [res_simps]: "pop_int s = Inr p \<longleftrightarrow> s = VInt (fst p) # snd p"
  by (cases s; cases "hd s"; cases p) auto

lemma pop_bytes_Inr [res_simps]:
  "pop_bytes s = Inr p \<longleftrightarrow> (\<exists>v. s = v # snd p \<and> to_canonical_bytes v = fst p)"
  by (cases s; cases p) auto

lemma pop_indexed_Inr [res_simps]:
  "pop_indexed xs s = Inr p \<longleftrightarrow>
     (\<exists>i. s = VInt i # snd p \<and> unat i < length xs \<and> fst p = xs ! unat i)"
  by (cases s; cases "hd s"; cases p) (auto simp: pop_indexed_def)

lemma helper_no_panic [simp]:
  "vm_push s v \<noteq> Inl Panic" "vm_pop s \<noteq> Inl Panic" "vm_peek s \<noteq> Inl Panic"
  by (simp_all add: vm_push_def, (cases s; simp)+)

lemma pop_int_no_panic [simp]: "pop_int s \<noteq> Inl Panic"
  by (auto simp: pop_int_def res_simps split: vm_value.splits)

lemma pop_bytes_no_panic [simp]: "pop_bytes s \<noteq> Inl Panic"
  by (auto simp: pop_bytes_def res_simps split: vm_value.splits)

lemma pop_indexed_no_panic [simp]: "pop_indexed xs s \<noteq> Inl Panic"
  by (auto simp: pop_indexed_def res_simps split: if_splits)

lemma int_op_no_panic [simp]: "bin_int_op s f \<noteq> Inl Panic" "cmp_int_op s q \<noteq> Inl Panic"
  by (auto simp: bin_int_op_def cmp_int_op_def res_simps)

lemma pop_bytes_n_Inr:
  "pop_bytes_n n s = Inr (bs, s') \<longleftrightarrow>
     (\<exists>vs. length vs = n \<and> s = vs @ s' \<and> bs = map to_canonical_bytes vs)"
proof (induction n arbitrary: s bs)
  case (Suc n)
  show ?case
    by (auto simp: res_simps Suc length_Suc_conv)
qed auto

lemma pop_bytes_n_no_panic [simp]: "pop_bytes_n n s \<noteq> Inl Panic"
  by (induction n arbitrary: s) (auto simp: res_simps)

section \<open>Stack depth\<close>

definition depth_ok :: "vm_stack \<Rightarrow> bool" where
  "depth_ok s \<longleftrightarrow> length s \<le> MAX_STACK_DEPTH"

lemma depth_const: "exec_const i s = Inr s' \<Longrightarrow> depth_ok s \<Longrightarrow> depth_ok s'"
  by (cases "i_op i") (auto simp: exec_const_def depth_ok_def res_simps split: if_splits)

lemma depth_stack_op: "exec_stack_op c s = Inr s' \<Longrightarrow> depth_ok s \<Longrightarrow> depth_ok s'"
  by (cases c) (auto simp: exec_stack_op_def depth_ok_def res_simps split: if_splits)

lemma depth_arith: "exec_arith c s = Inr s' \<Longrightarrow> depth_ok s \<Longrightarrow> depth_ok s'"
  by (cases c)
    (auto simp: exec_arith_def bin_int_op_def depth_ok_def res_simps Let_def split: if_splits)

lemma depth_compare: "exec_compare c s = Inr s' \<Longrightarrow> depth_ok s \<Longrightarrow> depth_ok s'"
  by (cases c)
    (auto simp: exec_compare_def cmp_int_op_def depth_ok_def res_simps split: if_splits)

lemma depth_control: "exec_control c s = Inr s' \<Longrightarrow> depth_ok s \<Longrightarrow> depth_ok s'"
  by (cases c) (auto simp: exec_control_def depth_ok_def res_simps split: if_splits)

lemma depth_crypto: "exec_crypto E c s g = Inr (s', g') \<Longrightarrow> depth_ok s \<Longrightarrow> depth_ok s'"
  by (cases c) (auto simp: exec_crypto_def depth_ok_def res_simps)

lemma depth_introspect: "exec_introspect ctx c s = Inr s' \<Longrightarrow> depth_ok s \<Longrightarrow> depth_ok s'"
  by (cases c) (auto simp: exec_introspect_def depth_ok_def res_simps)

lemma depth_covenant: "exec_covenant E ctx c s = Inr s' \<Longrightarrow> depth_ok s \<Longrightarrow> depth_ok s'"
  by (cases c)
    (auto simp: exec_covenant_def depth_ok_def res_simps split: if_splits option.splits)

lemma depth_data: "exec_data c s = Inr s' \<Longrightarrow> depth_ok s \<Longrightarrow> depth_ok s'"
  by (cases c) (auto simp: exec_data_def depth_ok_def res_simps Let_def split: if_splits)

lemma depth_op:
  assumes "exec_op E ctx i s g = Inr (s', g')" and "depth_ok s"
  shows "depth_ok s'"
  using assms by (auto simp: exec_op_def res_simps split: if_splits
      intro: depth_const depth_stack_op depth_arith depth_compare depth_control depth_crypto
        depth_introspect depth_covenant depth_data)

lemma gas_crypto:
  assumes "exec_crypto E c s g = Inr (s', g')" and "gas_ok limit g"
  shows "gas_ok limit g' \<and> unat (gas_consumed g) \<le> unat (gas_consumed g')"
  using assms by (cases c) (auto simp: exec_crypto_def res_simps dest: gas_consume_Some)

lemma gas_op:
  assumes "exec_op E ctx i s g = Inr (s', g')" and "gas_ok limit g"
  shows "gas_ok limit g' \<and> unat (gas_consumed g) \<le> unat (gas_consumed g')"
proof (cases "i_op i \<in> crypto_ops")
  case True
  with assms gas_crypto show ?thesis by (simp add: exec_op_def)
next
  case False
  then have "g' = g" using assms(1) by (auto simp: exec_op_def res_simps)
  with assms(2) show ?thesis by simp
qed

text \<open>The machine invariant: a stack within bounds and a balanced meter.\<close>

definition vm_ok :: "u64 \<Rightarrow> vm_state \<Rightarrow> bool" where
  "vm_ok limit st \<longleftrightarrow> depth_ok (vm_stk st) \<and> gas_ok limit (vm_gas st)"

lemma exec_conditional_keeps:
  assumes "exec_conditional c st = Some (Inr st')" and "depth_ok (vm_stk st)"
  shows "depth_ok (vm_stk st') \<and> vm_gas st' = vm_gas st"
  using assms by (auto simp: exec_conditional_def depth_ok_def res_simps Let_def
      split: if_splits list.splits)

lemma exec_instr_ok:
  assumes "vm_ok limit st" and "exec_instr E ctx i st = Inr st'"
  shows "vm_ok limit st' \<and> unat (gas_consumed (vm_gas st)) < unat (gas_consumed (vm_gas st'))"
proof -
  obtain g where g: "gas_charge (vm_gas st) (i_op i) = Some g"
    using assms(2) by (auto simp: exec_instr_def res_simps)
  have ok: "depth_ok (vm_stk st)" "gas_ok limit g"
    "unat (gas_consumed (vm_gas st)) < unat (gas_consumed g)"
    using assms(1) gas_charge_Some [OF _ g] by (auto simp: vm_ok_def)
  show ?thesis
  proof (cases "exec_conditional (i_op i) (st\<lparr>vm_gas := g\<rparr>)")
    case None
    with assms(2) g consider "st' = st\<lparr>vm_gas := g\<rparr>"
      | s g' where "exec_op E ctx i (vm_stk st) g = Inr (s, g')"
          "st' = st\<lparr>vm_stk := s, vm_gas := g'\<rparr>"
      by (auto simp: exec_instr_def res_simps Let_def split: if_splits)
    then show ?thesis
    proof cases
      case 1
      with ok show ?thesis by (simp add: vm_ok_def)
    next
      case 2
      with gas_op [OF 2(1) ok(2)] depth_op [OF 2(1) ok(1)] ok(3) show ?thesis
        by (simp add: vm_ok_def)
    qed
  next
    case (Some r)
    with assms(2) g have "exec_conditional (i_op i) (st\<lparr>vm_gas := g\<rparr>) = Some (Inr st')"
      by (simp add: exec_instr_def Let_def)
    from exec_conditional_keeps [OF this] ok show ?thesis by (simp add: vm_ok_def)
  qed
qed

lemma run_instrs_ok:
  assumes "vm_ok limit st" and "run_instrs E ctx is st = Inr st'"
  shows "vm_ok limit st' \<and>
    unat (gas_consumed (vm_gas st)) + length is \<le> unat (gas_consumed (vm_gas st'))"
  using assms
proof (induction "is" arbitrary: st)
  case (Cons i "is")
  then obtain st1 where st1: "exec_instr E ctx i st = Inr st1" "run_instrs E ctx is st1 = Inr st'"
    by (auto simp: res_simps)
  from exec_instr_ok [OF Cons.prems(1) st1(1)] Cons.IH [OF _ st1(2)] show ?case by force
qed simp

text \<open>
  C38. Bounded execution. A script that terminates normally consumed at most its gas limit
  and at least one unit per instruction (so it had at most \<open>limit\<close> instructions), reports
  exactly the gas consumed, and leaves at most \<open>MAX_STACK_DEPTH\<close> values on the stack.
\<close>

theorem execute_bounded:
  assumes "execute E scr ctx (gas_new limit) = Inr r"
  shows "unat (gas_used r) \<le> unat limit \<and> length (final_stack r) \<le> MAX_STACK_DEPTH \<and>
    (\<exists>is. decode_script scr = Inr is \<and> length is \<le> unat (gas_used r))"
proof -
  obtain "is" st where dec: "decode_script scr = Inr is"
    and run: "run_instrs E ctx is (vm_init (gas_new limit)) = Inr st" and fin: "vm_finish st = Inr r"
    using assms by (auto simp: execute_def execute_instructions_def res_simps)
  have "vm_ok limit (vm_init (gas_new limit))"
    by (simp add: vm_ok_def vm_init_def depth_ok_def)
  from run_instrs_ok [OF this run] fin dec show ?thesis
    by (auto simp: vm_ok_def depth_ok_def gas_ok_def vm_finish_def vm_init_def gas_new_def
        split: if_splits)
qed

theorem execute_bounded_witness:
  "execute demo_env [0x01, 0x10] (context_new demo_env demo_tx [] 5) (gas_new 10) =
     Inr \<lparr>success = True, gas_used = 3, final_stack = [VInt 1, VInt 1]\<rparr> \<and>
   unat (3 :: u64) \<le> unat (10 :: u64)"
proof -
  have "execute demo_env [0x01, 0x10] (context_new demo_env demo_tx [] 5) (gas_new 10) =
     Inr \<lparr>success = True, gas_used = 3, final_stack = [VInt 1, VInt 1]\<rparr>"
    by (simp add: execute_def decode_script_def MAX_SCRIPT_SIZE_def from_byte_def from_byte_arms_def
        decode_data_def execute_instructions_def exec_instr_def gas_new_def gas_charge_def
        gas_consume_def gas_cost_def vm_init_def exec_conditional_def executing_def exec_op_def
        op_groups exec_const_def exec_stack_op_def vm_push_def MAX_STACK_DEPTH_def vm_finish_def)
  from this execute_bounded [OF this] show ?thesis by simp
qed

end
