(* ===== verification/QV_ScriptProps.thy ===== *)
theory QV_ScriptProps
  imports QV_Interp
begin

text \<open>
  Properties of the interpreter beyond its resource bounds: absence of panics, the meaning of
  nested conditionals against a structured reference semantics, and what a multi-signature
  check that answers yes guarantees.
\<close>

section \<open>Panics\<close>

lemma no_panic_const: "instr_wf i \<Longrightarrow> i_op i \<in> const_ops \<Longrightarrow> exec_const i s \<noteq> Inl Panic"
  by (auto simp: exec_const_def const_ops_def instr_wf_def)

lemma no_panic_stack: "c \<in> stack_ops \<Longrightarrow> exec_stack_op c s \<noteq> Inl Panic"
  by (auto simp: exec_stack_op_def stack_ops_def res_simps split: if_splits)

lemma no_panic_arith: "c \<in> arith_ops \<Longrightarrow> exec_arith c s \<noteq> Inl Panic"
  by (auto simp: exec_arith_def arith_ops_def res_simps Let_def split: if_splits)

lemma no_panic_compare: "c \<in> compare_ops \<Longrightarrow> exec_compare c s \<noteq> Inl Panic"
  by (auto simp: exec_compare_def compare_ops_def res_simps split: if_splits)

lemma no_panic_control: "c \<in> {OpVerify, OpReturn} \<Longrightarrow> exec_control c s \<noteq> Inl Panic"
  by (auto simp: exec_control_def res_simps split: if_splits)

lemma no_panic_introspect: "c \<in> introspect_ops \<Longrightarrow> exec_introspect ctx c s \<noteq> Inl Panic"
  by (auto simp: exec_introspect_def introspect_ops_def res_simps)

lemma no_panic_covenant: "c \<in> covenant_ops \<Longrightarrow> exec_covenant E ctx c s \<noteq> Inl Panic"
  by (auto simp: exec_covenant_def covenant_ops_def res_simps split: if_splits option.splits)

lemma no_panic_data: "c \<in> data_ops \<Longrightarrow> exec_data c s \<noteq> Inl Panic"
  by (auto simp: exec_data_def data_ops_def res_simps Let_def split: if_splits)

lemma no_panic_crypto:
  "c \<in> crypto_ops \<Longrightarrow> c \<noteq> OpCheckMultiSigPqc \<Longrightarrow> exec_crypto E c s g \<noteq> Inl Panic"
  by (auto simp: exec_crypto_def crypto_ops_def res_simps)

lemma op_cases_total:
  "c \<in> crypto_ops \<or> c \<in> const_ops \<or> c \<in> stack_ops \<or> c \<in> arith_ops \<or> c \<in> compare_ops \<or>
   c \<in> {OpVerify, OpReturn} \<or> c \<in> introspect_ops \<or> c \<in> covenant_ops \<or> c \<in> data_ops \<or>
   c \<in> {OpNop, OpIf, OpElse, OpEndIf}"
  by (cases c) (simp_all add: op_groups)

lemma no_panic_op:
  assumes "instr_wf i" and "i_op i \<notin> {OpCheckMultiSigPqc, OpIf, OpElse, OpEndIf}"
  shows "exec_op E ctx i s g \<noteq> Inl Panic"
  using assms op_cases_total [of "i_op i"]
  by (auto simp: exec_op_def res_simps no_panic_const no_panic_stack no_panic_arith
      no_panic_compare no_panic_control no_panic_introspect no_panic_covenant no_panic_data
      no_panic_crypto split: if_splits)

lemma no_panic_instr:
  assumes "instr_wf i" and "i_op i \<noteq> OpCheckMultiSigPqc"
  shows "exec_instr E ctx i st \<noteq> Inl Panic"
proof (cases "i_op i \<in> {OpIf, OpElse, OpEndIf}")
  case True
  then show ?thesis
    by (auto simp: exec_instr_def exec_conditional_def res_simps Let_def
        split: if_splits list.splits option.splits)
next
  case False
  then have "exec_conditional (i_op i) st' = None" for st'
    by (simp add: exec_conditional_def)
  with False assms no_panic_op [of i E ctx] show ?thesis
    by (auto simp: exec_instr_def res_simps Let_def)
qed


section \<open>Conditionals\<close>

text \<open>
  Structured programs, their flattening to instructions, and a reference semantics that runs
  only the chosen branch and charges for the other.
\<close>

datatype prog = Done | Basic instruction prog | Cond prog prog prog

fun flat :: "prog \<Rightarrow> instruction list" where
  "flat Done = []"
| "flat (Basic i p) = i # flat p"
| "flat (Cond t e p) =
     instr_simple OpIf # flat t @ instr_simple OpElse # flat e @ instr_simple OpEndIf # flat p"

fun prog_wf :: "prog \<Rightarrow> bool" where
  "prog_wf Done \<longleftrightarrow> True"
| "prog_wf (Basic i p) \<longleftrightarrow> i_op i \<notin> {OpIf, OpElse, OpEndIf} \<and> prog_wf p"
| "prog_wf (Cond t e p) \<longleftrightarrow> prog_wf t \<and> prog_wf e \<and> prog_wf p"

definition charge_op :: "gas_meter \<Rightarrow> opcode \<Rightarrow> gas_meter vm_result" where
  "charge_op g c = ok_or (gas_charge g c) (Error OutOfGas)"

fun charge_all :: "gas_meter \<Rightarrow> instruction list \<Rightarrow> gas_meter vm_result" where
  "charge_all g [] = Inr g"
| "charge_all g (i # is) = bind_res (charge_op g (i_op i)) (\<lambda>g. charge_all g is)"

fun denote ::
  "'z crypto_env_scheme \<Rightarrow> script_context \<Rightarrow> prog \<Rightarrow> vm_stack \<Rightarrow> gas_meter \<Rightarrow>
     (vm_stack \<times> gas_meter) vm_result" where
  "denote E ctx Done s g = Inr (s, g)"
| "denote E ctx (Basic i p) s g =
     bind_res (charge_op g (i_op i)) (\<lambda>g.
     bind_res (exec_op E ctx i s g) (\<lambda>(s, g). denote E ctx p s g))"
| "denote E ctx (Cond t e p) s g =
     bind_res (charge_op g OpIf) (\<lambda>g.
     bind_res (vm_pop s) (\<lambda>(v, s).
     bind_res
       (if is_truthy v
        then bind_res (denote E ctx t s g) (\<lambda>(s, g).
             bind_res (charge_all g (instr_simple OpElse # flat e)) (\<lambda>g. Inr (s, g)))
        else bind_res (charge_all g (flat t @ [instr_simple OpElse])) (\<lambda>g. denote E ctx e s g))
       (\<lambda>(s, g). bind_res (charge_op g OpEndIf) (\<lambda>g. denote E ctx p s g))))"

abbreviation mk_vm :: "vm_stack \<Rightarrow> bool list \<Rightarrow> gas_meter \<Rightarrow> vm_state" where
  "mk_vm s es g \<equiv> \<lparr>vm_stk = s, vm_exec = es, vm_gas = g\<rparr>"

lemma run_instrs_append:
  "run_instrs E ctx (is @ js) st = bind_res (run_instrs E ctx is st) (run_instrs E ctx js)"
proof (induction "is" arbitrary: st)
  case (Cons i "is")
  show ?case by (cases "exec_instr E ctx i st") (simp_all add: Cons)
qed simp

lemma charge_all_append: "charge_all g (is @ js) = bind_res (charge_all g is) (\<lambda>g. charge_all g js)"
  by (induction "is" arbitrary: g) (auto simp: bind_res_assoc)

lemma executing_simps [simp]:
  "executing []" "executing (b # es) \<longleftrightarrow> b \<and> executing es"
  by (auto simp: executing_def)

lemma simple_op [simp]: "i_op (instr_simple c) = c"
  by (simp add: instr_simple_def)

lemma instr_If:
  "exec_instr E ctx (instr_simple OpIf) (mk_vm s es g) = bind_res (charge_op g OpIf) (\<lambda>g.
     if executing es then bind_res (vm_pop s) (\<lambda>(v, s). Inr (mk_vm s (is_truthy v # es) g))
     else Inr (mk_vm s (False # es) g))"
  by (cases "gas_charge g OpIf") (simp_all add: exec_instr_def exec_conditional_def charge_op_def Let_def)

lemma instr_Else:
  "exec_instr E ctx (instr_simple OpElse) (mk_vm s (b # es) g) = bind_res (charge_op g OpElse) (\<lambda>g.
     Inr (mk_vm s ((if executing es then \<not> b else b) # es) g))"
proof -
  have "length (b # es) < 2 \<or> executing (drop 2 (b # es)) \<and> executing (drop 1 (b # es)) \<longleftrightarrow>
      executing es"
    by (cases es) auto
  then show ?thesis
    by (cases "gas_charge g OpElse")
      (simp_all add: exec_instr_def exec_conditional_def charge_op_def Let_def)
qed

lemma instr_EndIf:
  "exec_instr E ctx (instr_simple OpEndIf) (mk_vm s (b # es) g) =
     bind_res (charge_op g OpEndIf) (\<lambda>g. Inr (mk_vm s es g))"
  by (cases "gas_charge g OpEndIf") (simp_all add: exec_instr_def exec_conditional_def charge_op_def Let_def)

lemma instr_Basic:
  assumes "i_op i \<notin> {OpIf, OpElse, OpEndIf}"
  shows "exec_instr E ctx i (mk_vm s es g) = bind_res (charge_op g (i_op i)) (\<lambda>g.
    if executing es then bind_res (exec_op E ctx i s g) (\<lambda>(s, g). Inr (mk_vm s es g))
    else Inr (mk_vm s es g))"
  using assms by (cases "gas_charge g (i_op i)")
    (simp_all add: exec_instr_def exec_conditional_def charge_op_def Let_def)

lemmas instr_steps = instr_If instr_Else instr_EndIf instr_Basic

lemma case_prod_bind_res:
  "bind_res (case p of (a, b) \<Rightarrow> f a b) h = (case p of (a, b) \<Rightarrow> bind_res (f a b) h)"
  by (cases p) simp

lemma run_skipped:
  assumes "prog_wf p" and "\<not> executing es"
  shows "run_instrs E ctx (flat p) (mk_vm s es g) =
    bind_res (charge_all g (flat p)) (\<lambda>g. Inr (mk_vm s es g))"
  using assms
proof (induction p arbitrary: es g)
  case (Basic i p)
  then show ?case by (simp add: instr_Basic bind_res_assoc)
next
  case (Cond t e p)
  then show ?case
    by (simp add: instr_If instr_Else instr_EndIf run_instrs_append charge_all_append bind_res_assoc)
qed simp

lemma run_taken:
  assumes "prog_wf p" and "executing es"
  shows "run_instrs E ctx (flat p) (mk_vm s es g) =
    bind_res (denote E ctx p s g) (\<lambda>(s, g). Inr (mk_vm s es g))"
  using assms
proof (induction p arbitrary: s es g)
  case (Basic i p)
  then show ?case
    by (auto simp: instr_Basic bind_res_assoc case_prod_bind_res intro!: bind_res_cong)
next
  case (Cond t e p)
  then show ?case
    by (auto simp: instr_If instr_Else instr_EndIf run_instrs_append charge_all_append
        bind_res_assoc case_prod_bind_res run_skipped intro!: bind_res_cong split: prod.splits)
qed simp

text \<open>
  C34. Conditionals mean what their nesting says. For every structured program of arbitrary
  nesting depth, the flat interpreter with its stack of booleans computes exactly the
  structured semantics: the condition is popped once, exactly one branch takes effect, the
  other costs its gas and nothing else, and every error surfaces at the same point.
\<close>

theorem conditionals_structured:
  assumes "prog_wf p"
  shows "execute_instructions E (flat p) ctx g =
    bind_res (denote E ctx p [] g) (\<lambda>(s, g'). vm_finish (mk_vm s [] g'))"
  using run_taken [OF assms, of "[]" E ctx "[]" g]
  by (simp add: execute_instructions_def vm_init_def bind_res_assoc case_prod_bind_res)

section \<open>Multi-signatures\<close>

lemma mark_first_Some:
  assumes "mark_first q pks us = Some us'"
  shows "\<exists>i. i < length pks \<and> i < length us \<and> \<not> us ! i \<and> q (pks ! i) \<and> us' = us[i := True]"
  using assms
proof (induction q pks us arbitrary: us' rule: mark_first.induct)
  case (1 q pk pks u us)
  show ?case
  proof (cases "\<not> u \<and> q pk")
    case True
    with "1.prems" show ?thesis by (intro exI [of _ 0]) auto
  next
    case False
    with "1.prems" obtain us1 where us1: "mark_first q pks us = Some us1" "us' = u # us1" by auto
    from "1.IH" [OF False us1(1)] obtain i where "i < length pks \<and> i < length us \<and> \<not> us ! i \<and>
        q (pks ! i) \<and> us1 = us[i := True]" by blast
    with us1(2) show ?thesis by (intro exI [of _ "Suc i"]) auto
  qed
qed auto

text \<open>
  The loop's count is the size of a matching: pairs of a key position and a signature
  position, no position used twice, in which every signature verifies under its key.
\<close>

definition matching ::
  "('k \<Rightarrow> 's \<Rightarrow> bool) \<Rightarrow> 'k list \<Rightarrow> 's list \<Rightarrow> (nat \<times> nat) list \<Rightarrow> bool" where
  "matching chk pks sgs ps \<longleftrightarrow> distinct (map fst ps) \<and> distinct (map snd ps) \<and>
     (\<forall>e \<in> set ps. fst e < length pks \<and> snd e < length sgs \<and> chk (pks ! fst e) (sgs ! snd e))"

lemma multisig_loop_matching:
  "\<exists>ps. matching chk pks sgs ps \<and> (\<forall>e \<in> set ps. fst e < length used \<and> \<not> used ! fst e) \<and>
     multisig_loop chk pks sgs used cnt = cnt + length ps"
proof (induction sgs arbitrary: used cnt)
  case Nil
  show ?case by (intro exI [of _ "[]"]) (simp add: matching_def)
next
  case (Cons sg sgs)
  define sh where "sh ps = map (\<lambda>e. (fst e, Suc (snd e))) ps" for ps :: "(nat \<times> nat) list"
  have sh: "matching chk pks (sg # sgs) (sh ps)" "fst ` set (sh ps) = fst ` set ps"
    if "matching chk pks sgs ps" for ps
    using that by (auto simp: matching_def sh_def distinct_map inj_on_def image_image comp_def)
  show ?case
  proof (cases "mark_first (\<lambda>pk. chk pk sg) pks used")
    case None
    from Cons.IH [of used cnt] obtain ps where "matching chk pks sgs ps"
      "\<forall>e \<in> set ps. fst e < length used \<and> \<not> used ! fst e"
      "multisig_loop chk pks sgs used cnt = cnt + length ps" by blast
    with None show ?thesis
      by (intro exI [of _ "sh ps"]) (auto simp: sh, auto simp: sh_def)
  next
    case (Some used')
    from mark_first_Some [OF this] obtain i where i: "i < length pks" "i < length used"
      "\<not> used ! i" "chk (pks ! i) sg" "used' = used[i := True]" by blast
    from Cons.IH [of used' "Suc cnt"] obtain ps where ps: "matching chk pks sgs ps"
      "\<forall>e \<in> set ps. fst e < length used' \<and> \<not> used' ! fst e"
      "multisig_loop chk pks sgs used' (Suc cnt) = Suc cnt + length ps" by blast
    have fresh: "i \<notin> fst ` set ps" using ps(2) i by (auto simp: nth_list_update)
    have "matching chk pks (sg # sgs) ((i, 0) # sh ps)"
      using sh [OF ps(1)] fresh i unfolding matching_def by (auto simp: sh_def)
    moreover have "\<forall>e \<in> set ((i, 0) # sh ps). fst e < length used \<and> \<not> used ! fst e"
      using ps(2) i by (auto simp: sh_def nth_list_update split: if_splits)
    ultimately show ?thesis
      using Some ps(3) by (intro exI [of _ "(i, 0) # sh ps"]) (simp add: sh_def)
  qed
qed

text \<open>
  C35. \<open>CHECKMULTISIG_PQC\<close> is sound: when the check answers yes for a threshold \<open>m\<close> there are
  at least \<open>m\<close> pairs of a key position and a signature position, with no key and no signature
  position used twice, and each of those signatures verifies under its key for the message.
\<close>

theorem checkmultisig_sound:
  assumes "checkmultisig_pqc E pks sigs msg m"
  shows "\<exists>ps. m \<le> length ps \<and> matching (\<lambda>pk sg. checksig_pqc E pk sg msg) pks sigs ps"
  using assms multisig_loop_matching [of "\<lambda>pk sg. checksig_pqc E pk sg msg" pks sigs
      "replicate (length pks) False" 0]
  by (auto simp: checkmultisig_pqc_def split: if_splits)

section \<open>Instances\<close>

definition demo_ctx :: script_context where
  "demo_ctx = context_new demo_env demo_tx [tx_output_new 7 [1]] 5"


definition demo_prog :: prog where
  "demo_prog = Basic (instr_simple Op1)
     (Cond (Basic (instr_simple Op1) Done) (Basic (instr_simple OpReturn) Done) Done)"

theorem conditionals_structured_witness:
  "prog_wf demo_prog \<and>
   execute_instructions demo_env (flat demo_prog) demo_ctx (gas_new 100) =
     bind_res (denote demo_env demo_ctx demo_prog [] (gas_new 100)) (\<lambda>(s, g'). vm_finish (mk_vm s [] g'))"
proof -
  have "prog_wf demo_prog" by (simp add: demo_prog_def)
  then show ?thesis using conditionals_structured by blast
qed

theorem checkmultisig_sound_witness:
  "checkmultisig_pqc demo_env [[1, 1], [2, 2]] [[2, 2]] [] 1 \<and>
   (\<exists>ps. 1 \<le> length ps \<and>
      matching (\<lambda>pk sg. checksig_pqc demo_env pk sg []) [[1, 1], [2, 2]] [[2, 2]] ps)"
proof -
  have "checkmultisig_pqc demo_env [[1, 1], [2, 2]] [[2, 2]] [] 1"
    by (simp add: checkmultisig_pqc_def checksig_pqc_def checksig_level_def
        pqc_public_key_from_bytes_def pqc_signature_from_bytes_def verify_pqc_True)
      (simp add: demo_env_def)
  then show ?thesis using checkmultisig_sound by blast
qed

end
