(* ===== verification/QV_Script.thy ===== *)
theory QV_Script
  imports QV_ScriptProps
begin

text \<open>
  \<open>qv-script/src/script.rs\<close> and the payment templates of \<open>templates.rs\<close>: the entry point
  the ledger calls, the script builder, and what spending each template takes.
\<close>

section \<open>The entry point\<close>

definition validate_script_with_gas ::
  "'z tx_env_scheme \<Rightarrow> script \<Rightarrow> bytes \<Rightarrow> transaction \<Rightarrow> tx_output list \<Rightarrow> slot \<Rightarrow> u64 \<Rightarrow>
     exec_result vm_result" where
  "validate_script_with_gas E lock w tx ins sl gas_limit =
     (let full_script = w @ lock;
          ctx = with_locking_script E (context_new E tx ins sl) lock
      in execute E full_script ctx (gas_new gas_limit))"

definition validate_script ::
  "'z tx_env_scheme \<Rightarrow> script \<Rightarrow> bytes \<Rightarrow> transaction \<Rightarrow> tx_output list \<Rightarrow> slot \<Rightarrow>
     exec_result vm_result" where
  "validate_script E lock w tx ins sl = validate_script_with_gas E lock w tx ins sl DEFAULT_GAS_LIMIT"

definition compile_script :: "instruction list \<Rightarrow> bytes" where
  "compile_script is = encode_instructions is"

section \<open>The builder and the templates\<close>

type_synonym script_builder = "instruction list"

definition sb_new :: script_builder where
  "sb_new = []"

definition sb_op :: "opcode \<Rightarrow> script_builder \<Rightarrow> script_builder" where
  "sb_op c b = b @ [instr_simple c]"

definition sb_push_int :: "i64 \<Rightarrow> script_builder \<Rightarrow> script_builder" where
  "sb_push_int n b =
     b @ [if n = 0 then instr_simple Op0 else if n = 1 then instr_simple Op1 else push_int n]"

definition sb_push_bytes :: "bytes \<Rightarrow> script_builder \<Rightarrow> script_builder" where
  "sb_push_bytes d b = b @ [push_bytes d]"

definition sb_instruction :: "instruction \<Rightarrow> script_builder \<Rightarrow> script_builder" where
  "sb_instruction i b = b @ [i]"

definition sb_build :: "script_builder \<Rightarrow> bytes" where
  "sb_build b = encode_instructions b"

text \<open>A chain of builder calls.\<close>

definition sb_chain :: "(script_builder \<Rightarrow> script_builder) list \<Rightarrow> script_builder" where
  "sb_chain fs = fold (\<lambda>f b. f b) fs sb_new"

definition p2pkh_pqc :: "bytes \<Rightarrow> bytes" where
  "p2pkh_pqc pkh = sb_build (sb_chain
     [sb_op OpDup, sb_op OpHashSha3, sb_push_bytes pkh, sb_op OpEq, sb_op OpVerify,
      sb_op OpSigHash, sb_op OpRot, sb_op OpRot, sb_op OpCheckSigPqc])"

definition pubkey_hash :: "'z crypto_env_scheme \<Rightarrow> bytes \<Rightarrow> bytes" where
  "pubkey_hash E pk = sha3_256 E pk"

definition STEALTH_KDF_TAG :: bytes where
  "STEALTH_KDF_TAG = map (\<lambda>c. of_char c) ''QuantumVault-Stealth-v1''"

definition stealth_p2pkh :: "bytes \<Rightarrow> bytes" where
  "stealth_p2pkh h = sb_build (sb_chain
     [sb_op OpOver, sb_op OpCat, sb_push_bytes STEALTH_KDF_TAG, sb_op OpSwap, sb_op OpCat,
      sb_op OpHashSha3, sb_push_bytes h, sb_op OpEq, sb_op OpVerify, sb_op OpSigHash,
      sb_op OpRot, sb_op OpRot, sb_op OpCheckSigPqc])"

definition multisig_pqc :: "u32 \<Rightarrow> bytes list \<Rightarrow> bytes" where
  "multisig_pqc threshold pubkey_hashes = sb_build (sb_chain
     [sb_push_int (ucast threshold), sb_push_int (of_nat (length pubkey_hashes)),
      sb_op OpCheckMultiSigPqc])"

section \<open>Running a witness before a locking script\<close>

lemmas sb_defs = sb_build_def sb_chain_def sb_new_def sb_op_def sb_push_int_def sb_push_bytes_def

text \<open>When both halves are encodings, the concatenation decodes to both instruction lists.\<close>

lemma validate_script_compiled:
  assumes "\<forall>i \<in> set (ws @ ls). instr_wf i"
    and "length (encode_instructions ws) + length (encode_instructions ls) \<le> MAX_SCRIPT_SIZE"
  shows "validate_script_with_gas E (encode_instructions ls) (encode_instructions ws) tx ins sl lim =
    execute_instructions E (ws @ ls)
      (with_locking_script E (context_new E tx ins sl) (encode_instructions ls)) (gas_new lim)"
proof -
  have "encode_instructions ws @ encode_instructions ls = encode_instructions (ws @ ls)"
    by (simp add: encode_instructions_def)
  moreover have "decode_loop (encode_instructions (ws @ ls)) = Inr (ws @ ls)"
    using decode_loop_encode_all [OF assms(1), of "[]"] by simp
  ultimately show ?thesis
    using assms(2)
    by (simp add: validate_script_with_gas_def execute_def decode_script_def)
      (simp add: encode_instructions_def)
qed

lemma ctx_fields [simp]:
  "ctx_sighash (with_locking_script E ctx l) = ctx_sighash ctx"
  "locking_script_hash (with_locking_script E ctx l) = sha3_256 E l"
  "ctx_tx (with_locking_script E ctx l) = ctx_tx ctx"
  by (simp_all add: with_locking_script_def)

lemma push_bytes_op: "i_op (push_bytes d) \<in> {OpPush1, OpPush2, OpPush4}" "i_data (push_bytes d) = d"
  by (auto simp: push_bytes_def)

lemma exec_push_bytes:
  "exec_op E ctx (push_bytes d) s g = bind_res (vm_push s (VBytes d)) (\<lambda>s. Inr (s, g))"
  by (auto simp: push_bytes_def exec_op_def exec_const_def op_groups)

lemma gas_push_bytes: "gas_cost (i_op (push_bytes d)) = 10"
  by (simp add: push_bytes_def gas_cost_def)

lemma instr_exec_now:
  assumes "i_op i \<notin> {OpIf, OpElse, OpEndIf}" and "gas_cost (i_op i) \<le> r"
  shows "run_instrs E ctx (i # is) (mk_vm s [] \<lparr>gas_remaining = r, gas_consumed = c\<rparr>) =
    bind_res (exec_op E ctx i s \<lparr>gas_remaining = r - gas_cost (i_op i), gas_consumed = c + gas_cost (i_op i)\<rparr>)
      (\<lambda>(s, g). run_instrs E ctx is (mk_vm s [] g))"
proof -
  have "charge_op \<lparr>gas_remaining = r, gas_consumed = c\<rparr> (i_op i) =
      Inr \<lparr>gas_remaining = r - gas_cost (i_op i), gas_consumed = c + gas_cost (i_op i)\<rparr>"
    using assms(2) by (simp add: charge_op_def gas_charge_def gas_consume_def)
  then show ?thesis
    using assms(1) by (simp add: instr_Basic bind_res_assoc case_prod_bind_res)
qed

lemma exec_simple_ops:
  "exec_op E ctx (instr_simple OpDup) (a # s) g = bind_res (vm_push (a # s) a) (\<lambda>s. Inr (s, g))"
  "exec_op E ctx (instr_simple OpHashSha3) (a # s) g =
     bind_res (vm_push s (VBytes (sha3_256 E (to_canonical_bytes a)))) (\<lambda>s. Inr (s, g))"
  "exec_op E ctx (instr_simple OpEq) (b # a # s) g =
     bind_res (vm_push s (value_of_bool (a = b))) (\<lambda>s. Inr (s, g))"
  "exec_op E ctx (instr_simple OpVerify) (a # s) g =
     (if is_truthy a then Inr (s, g) else Inl (Error VerifyFailed))"
  "exec_op E ctx (instr_simple OpSigHash) s g =
     bind_res (vm_push s (VBytes (ctx_sighash ctx))) (\<lambda>s. Inr (s, g))"
  "exec_op E ctx (instr_simple OpRot) (c # b # a # s) g =
     bind_res (vm_push (c # b # s) a) (\<lambda>s. Inr (s, g))"
  "exec_op E ctx (instr_simple OpOver) (b # a # s) g =
     bind_res (vm_push (b # a # s) a) (\<lambda>s. Inr (s, g))"
  "exec_op E ctx (instr_simple OpCat) (b # a # s) g =
     bind_res (vm_push s (VBytes (to_canonical_bytes a @ to_canonical_bytes b))) (\<lambda>s. Inr (s, g))"
  "exec_op E ctx (instr_simple OpCheckSigPqc) (c # b # a # s) g =
     bind_res (vm_push s (value_of_bool
       (checksig_pqc E (to_canonical_bytes c) (to_canonical_bytes b) (to_canonical_bytes a))))
       (\<lambda>s. Inr (s, g))"
  by (simp_all add: exec_op_def op_groups exec_stack_op_def exec_compare_def exec_control_def
      exec_crypto_def exec_introspect_def exec_data_def remove_nth_def numeral_2_eq_2)

lemma exec_Swap:
  "exec_op E ctx (instr_simple OpSwap) (b # a # s) g =
     bind_res (vm_push s b) (\<lambda>s. bind_res (vm_push s a) (\<lambda>s. Inr (s, g)))"
  by (simp add: exec_op_def op_groups exec_stack_op_def bind_res_assoc)

lemma gas_cost_simple [simp]:
  "gas_cost OpDup = 2" "gas_cost OpHashSha3 = 50" "gas_cost OpEq = 2" "gas_cost OpVerify = 2"
  "gas_cost OpSigHash = 10" "gas_cost OpRot = 2" "gas_cost OpOver = 2" "gas_cost OpCat = 10"
  "gas_cost OpSwap = 2" "gas_cost OpCheckSigPqc = 500" "gas_cost Op0 = 1" "gas_cost Op1 = 1"
  "gas_cost OpPushInt = 10" "gas_cost OpCheckMultiSigPqc = 2000"
  by (simp_all add: gas_cost_def)

lemma push_bytes_not_cond [simp]:
  "i_op (push_bytes d) \<noteq> OpIf" "i_op (push_bytes d) \<noteq> OpElse" "i_op (push_bytes d) \<noteq> OpEndIf"
  using push_bytes_op(1) [of d] by auto

lemmas run_simps = instr_exec_now exec_push_bytes gas_push_bytes exec_simple_ops exec_Swap
  vm_push_def MAX_STACK_DEPTH_def

lemma length_encode_push_bytes: "length (instr_encode (push_bytes d)) \<le> length d + 5"
  by (simp add: instr_encode_def push_bytes_def)

lemma length_encode_simple: "\<not> is_push c \<Longrightarrow> length (instr_encode (instr_simple c)) = 1"
  by (simp add: instr_encode_def instr_simple_def is_push_def)

text \<open>
  C32. Spending a pay-to-public-key-hash output. A witness that pushes a signature and a public
  key is accepted exactly when the key hashes to the committed digest and the signature
  verifies under that key for this transaction's signature hash; a wrong key is a failed
  \<open>VERIFY\<close>, a wrong signature a clean refusal, and either way the script costs 600 gas units.
\<close>

theorem p2pkh_spend:
  assumes "sg \<noteq> []" and "pk \<noteq> []" and "length pkh = 32" and "length sg + length pk \<le> 16000"
    and lock: "lock = p2pkh_pqc pkh" and w: "w = sb_build (sb_chain [sb_push_bytes sg, sb_push_bytes pk])"
  shows "validate_script E lock w tx ins sl =
    (if sha3_256 E pk \<noteq> pkh then Inl (Error VerifyFailed)
     else let ok = checksig_pqc E pk sg (ctx_sighash (context_new E tx ins sl))
       in Inr \<lparr>success = ok, gas_used = 600, final_stack = [value_of_bool ok]\<rparr>)"
proof -
  define ws where "ws = [push_bytes sg, push_bytes pk]"
  define ls where "ls = [instr_simple OpDup, instr_simple OpHashSha3, push_bytes pkh,
    instr_simple OpEq, instr_simple OpVerify, instr_simple OpSigHash, instr_simple OpRot,
    instr_simple OpRot, instr_simple OpCheckSigPqc]"
  have wl: "w = encode_instructions ws" "lock = encode_instructions ls"
    by (simp_all add: w lock ws_def ls_def p2pkh_pqc_def sb_defs)
  have "\<forall>i \<in> set (ws @ ls). instr_wf i"
    using assms(1-4) by (auto simp: ws_def ls_def push_bytes_wf simple_wf is_push_def)
  moreover have "length (encode_instructions ws) + length (encode_instructions ls) \<le> MAX_SCRIPT_SIZE"
    using assms(3,4) length_encode_push_bytes [of sg] length_encode_push_bytes [of pk]
      length_encode_push_bytes [of pkh]
    by (simp add: ws_def ls_def encode_instructions_def length_encode_simple is_push_def
        MAX_SCRIPT_SIZE_def)
  ultimately show ?thesis
    by (simp add: wl validate_script_def validate_script_compiled execute_instructions_def)
      (auto simp: ws_def ls_def vm_init_def gas_new_def DEFAULT_GAS_LIMIT_def run_simps
        vm_finish_def Let_def simp del: run_instrs.simps(2))
qed

text \<open>
  C25. Spending a stealth output. A witness that pushes a signature, the spend key and the shared
  secret is accepted exactly when \<open>SHA3(tag || secret || key)\<close> is the committed one-time digest
  and the signature verifies under the spend key for this transaction's signature hash.
\<close>

theorem stealth_spend:
  assumes "sg \<noteq> []" and "pk \<noteq> []" and "ss \<noteq> []" and "length h = 32"
    and "length sg + length pk + length ss \<le> 16000"
    and lock: "lock = stealth_p2pkh h"
    and w: "w = sb_build (sb_chain [sb_push_bytes sg, sb_push_bytes pk, sb_push_bytes ss])"
  shows "validate_script E lock w tx ins sl =
    (if sha3_256 E (STEALTH_KDF_TAG @ ss @ pk) \<noteq> h then Inl (Error VerifyFailed)
     else let ok = checksig_pqc E pk sg (ctx_sighash (context_new E tx ins sl))
       in Inr \<lparr>success = ok, gas_used = 642, final_stack = [value_of_bool ok]\<rparr>)"
proof -
  define ws where "ws = [push_bytes sg, push_bytes pk, push_bytes ss]"
  define ls where "ls = [instr_simple OpOver, instr_simple OpCat, push_bytes STEALTH_KDF_TAG,
    instr_simple OpSwap, instr_simple OpCat, instr_simple OpHashSha3, push_bytes h,
    instr_simple OpEq, instr_simple OpVerify, instr_simple OpSigHash, instr_simple OpRot,
    instr_simple OpRot, instr_simple OpCheckSigPqc]"
  have wl: "w = encode_instructions ws" "lock = encode_instructions ls"
    by (simp_all add: w lock ws_def ls_def stealth_p2pkh_def sb_defs)
  have tag: "length STEALTH_KDF_TAG = 23" by (simp add: STEALTH_KDF_TAG_def)
  then have "STEALTH_KDF_TAG \<noteq> []" by auto
  then have "\<forall>i \<in> set (ws @ ls). instr_wf i"
    using assms(1-5) tag by (auto simp: ws_def ls_def push_bytes_wf simple_wf is_push_def)
  moreover have "length (encode_instructions ws) + length (encode_instructions ls) \<le> MAX_SCRIPT_SIZE"
    using assms(4,5) tag length_encode_push_bytes [of sg] length_encode_push_bytes [of pk]
      length_encode_push_bytes [of ss] length_encode_push_bytes [of h]
      length_encode_push_bytes [of STEALTH_KDF_TAG]
    by (simp add: ws_def ls_def encode_instructions_def length_encode_simple is_push_def
        MAX_SCRIPT_SIZE_def)
  ultimately show ?thesis
    by (simp add: wl validate_script_def validate_script_compiled execute_instructions_def)
      (auto simp: ws_def ls_def vm_init_def gas_new_def DEFAULT_GAS_LIMIT_def run_simps
        vm_finish_def Let_def simp del: run_instrs.simps(2))
qed

section \<open>Weaknesses of the entry point and the templates\<close>

text \<open>
  C40. The witness is not confined to its own bytes. Witness and locking script are joined before
  they are decoded, so a witness that ends in an unfinished push takes the locking script as its
  operand: for every non-empty locking script that leaves room for three more bytes, whatever
  it demands, the three-byte witness \<open>PUSH2 len\<close> makes the whole script one push, and the
  validation succeeds.
\<close>

theorem witness_swallows_locking_script:
  assumes "lock \<noteq> []" and "length lock + 3 \<le> MAX_SCRIPT_SIZE"
  shows "validate_script E lock (0x03 # le_bytes 2 (length lock)) tx ins sl =
    Inr \<lparr>success = True, gas_used = 10, final_stack = [VBytes lock]\<rparr>"
proof -
  let ?i = "\<lparr>i_op = OpPush2, i_data = lock\<rparr>"
  have enc: "(0x03 # le_bytes 2 (length lock)) @ lock = instr_encode ?i"
    by (simp add: instr_encode_def)
  have "instr_wf ?i"
    using assms by (auto simp: instr_wf_def MAX_SCRIPT_SIZE_def Suc_le_eq)
  then have "decode_loop ((0x03 # le_bytes 2 (length lock)) @ lock) = Inr [?i]"
    using decode_loop_encode [of ?i "[]"] enc by simp
  then have dec: "decode_script ((0x03 # le_bytes 2 (length lock)) @ lock) = Inr [?i]"
    using assms(2) by (simp add: decode_script_def)
  show ?thesis
    using assms(1) unfolding validate_script_def validate_script_with_gas_def Let_def execute_def dec
    by (simp add: execute_instructions_def vm_init_def gas_new_def DEFAULT_GAS_LIMIT_def
        instr_Basic charge_op_def gas_charge_def gas_consume_def gas_cost_def exec_op_def op_groups
        exec_const_def vm_push_def MAX_STACK_DEPTH_def vm_finish_def)
qed

lemma le_val_unat [simp]: "of_nat (le_val (le_bytes 8 (unat n))) = (n :: i64)"
  using unat_bound [of n] by (simp add: le_val_le_bytes)

lemma push_int_simps [simp]: "i_op (push_int n) = OpPushInt" "length (i_data (push_int n)) = 8"
  by (simp_all add: push_int_def)

lemma exec_push_int:
  "exec_op E ctx (push_int n) s g = bind_res (vm_push s (VInt n)) (\<lambda>s. Inr (s, g))"
  by (simp add: exec_op_def op_groups exec_const_def) (simp add: push_int_def)

lemma exec_Op0: "exec_op E ctx (instr_simple Op0) s g = bind_res (vm_push s (VInt 0)) (\<lambda>s. Inr (s, g))"
  by (simp add: exec_op_def op_groups exec_const_def)

lemma exec_Op1: "exec_op E ctx (instr_simple Op1) s g = bind_res (vm_push s (VInt 1)) (\<lambda>s. Inr (s, g))"
  by (simp add: exec_op_def op_groups exec_const_def)

lemma exec_bare_multisig:
  assumes "1500 \<le> r"
  shows "exec_op E ctx (instr_simple OpCheckMultiSigPqc) [VInt 3, a, b, c, VInt 0, d]
      \<lparr>gas_remaining = r, gas_consumed = u\<rparr> =
    Inr ([VInt 1], \<lparr>gas_remaining = r - 1500, gas_consumed = u + 1500\<rparr>)"
proof -
  have "pop_bytes_n 3 (a # b # c # s) =
      Inr ([to_canonical_bytes a, to_canonical_bytes b, to_canonical_bytes c], s)" for s
    by (simp add: numeral_3_eq_3)
  with assms show ?thesis
    by (simp add: exec_op_def op_groups exec_crypto_def gas_consume_def sat_mul_def
      MULTISIG_PER_KEY_COST_def with_capacity_def checkmultisig_pqc_def vm_push_def
      MAX_STACK_DEPTH_def value_of_bool_def)
qed

lemma length_encode_push_int: "length (instr_encode (push_int n)) = 9"
  by (simp add: instr_encode_def)

definition bare_witness :: bytes where
  "bare_witness = sb_build (sb_chain
     [sb_push_bytes [0], sb_push_int 0, sb_push_int 0, sb_push_int 0])"

text \<open>
  The three-key multi-signature template of any threshold is spendable without a signature.
  The locking script commits to no key and pushes the threshold where the opcode expects a key,
  so the opcode reads its signature count from the witness, which may say zero.
\<close>

theorem multisig_template_unprotected:
  "\<exists>r. validate_script E (multisig_pqc threshold [h1, h2, h3]) bare_witness tx ins sl = Inr r \<and>
     success r"
proof -
  define m where "m = (if ucast threshold = (0::i64) then instr_simple Op0
    else if ucast threshold = (1::i64) then instr_simple Op1 else push_int (ucast threshold))"
  define ls where "ls = [m, push_int 3, instr_simple OpCheckMultiSigPqc]"
  define ws where "ws = [push_bytes [0], instr_simple Op0, instr_simple Op0, instr_simple Op0]"
  have wl: "bare_witness = encode_instructions ws"
    "multisig_pqc threshold [h1, h2, h3] = encode_instructions ls"
    by (simp_all add: ws_def ls_def m_def bare_witness_def multisig_pqc_def sb_defs)
  have m: "instr_wf m" "length (instr_encode m) \<le> 9"
    by (auto simp: m_def simple_wf is_push_def instr_encode_def)
  then have "\<forall>i \<in> set (ws @ ls). instr_wf i"
    by (auto simp: ws_def ls_def push_bytes_wf simple_wf is_push_def)
  moreover have "length (encode_instructions ws) + length (encode_instructions ls) \<le> MAX_SCRIPT_SIZE"
    using m(2) length_encode_push_bytes [of "[0]"] length_encode_push_int [of 3]
    by (simp add: ws_def ls_def encode_instructions_def length_encode_simple is_push_def
        MAX_SCRIPT_SIZE_def)
  moreover have m_cost: "gas_cost (i_op m) \<in> {1, 10}"
    and m_op: "i_op m \<notin> {OpIf, OpElse, OpEndIf}"
    and m_exec: "exec_op E ctx m s g = bind_res (vm_push s (VInt (ucast threshold))) (\<lambda>s. Inr (s, g))"
    for ctx s g
    by (auto simp: m_def exec_push_int exec_Op0 exec_Op1)
  ultimately show ?thesis
    by (simp add: wl validate_script_def validate_script_compiled execute_instructions_def)
      (auto simp: ws_def ls_def vm_init_def gas_new_def DEFAULT_GAS_LIMIT_def run_simps
        exec_push_int exec_Op0 m_exec exec_bare_multisig vm_finish_def simp del: run_instrs.simps(2))
qed

definition panic_script :: bytes where
  "panic_script = sb_build (sb_chain [sb_push_int (- 1), sb_push_int 0, sb_op OpCheckMultiSigPqc])"

text \<open>
  C40. \<open>CHECKMULTISIG_PQC\<close> can panic. The signature count is taken from the stack, cast to an
  unsigned size and used as a vector capacity before any check: with the count \<open>-1\<close> under zero
  keys, within the default gas limit, the allocation request overflows and the interpreter
  panics instead of reporting a script error.
\<close>

theorem multisig_count_panics:
  "execute E panic_script ctx (gas_new DEFAULT_GAS_LIMIT) = Inl Panic"
proof -
  define ls where "ls = [push_int (- 1), instr_simple Op0, instr_simple OpCheckMultiSigPqc]"
  have enc: "panic_script = encode_instructions ls"
    by (simp add: panic_script_def ls_def sb_defs)
  have "\<forall>i \<in> set ls. instr_wf i" by (simp add: ls_def simple_wf is_push_def)
  then have "decode_loop panic_script = Inr ls"
    using decode_loop_encode_all [of ls "[]"] enc by simp
  moreover have "length panic_script \<le> MAX_SCRIPT_SIZE"
    by (simp add: enc ls_def encode_instructions_def length_encode_push_int length_encode_simple
        is_push_def MAX_SCRIPT_SIZE_def)
  ultimately have "decode_script panic_script = Inr ls" by (simp add: decode_script_def)
  moreover have "exec_op E ctx (instr_simple OpCheckMultiSigPqc) [VInt 0, VInt (- 1)] g = Inl Panic" for g
    by (cases g) (simp add: exec_op_def op_groups exec_crypto_def gas_consume_def sat_mul_def
        with_capacity_def unat_minus_one)
  ultimately show ?thesis
    by (simp add: execute_def execute_instructions_def)
      (simp add: ls_def vm_init_def gas_new_def DEFAULT_GAS_LIMIT_def run_simps exec_push_int
        exec_Op0 del: run_instrs.simps(2))
qed

section \<open>Instances\<close>

lemma demo_env_sel [simp]:
  "sha3_256 demo_env bs = take 32 (bs @ replicate 32 0)"
  "mldsa_pk_len demo_env l = 2" "mldsa_sig_len demo_env l = 2"
  "mldsa_verify demo_env l pk msg sg = (pk = sg)"
  by (simp_all add: demo_env_def)

lemma demo_checksig: "checksig_pqc demo_env [7, 7] [7, 7] msg"
  by (simp add: checksig_pqc_def checksig_level_def pqc_public_key_from_bytes_def
      pqc_signature_from_bytes_def verify_pqc_True)

theorem p2pkh_spend_witness:
  "\<exists>r. validate_script demo_env (p2pkh_pqc ([7, 7] @ replicate 30 0))
     (sb_build (sb_chain [sb_push_bytes [7, 7], sb_push_bytes [7, 7]])) demo_tx [] 5 = Inr r \<and>
     success r \<and> gas_used r = 600"
  using p2pkh_spend [of "[7, 7]" "[7, 7]" "[7, 7] @ replicate 30 0" _ _ demo_env demo_tx "[]" 5,
      OF _ _ _ _ refl refl]
  by (simp add: demo_checksig)

theorem stealth_spend_witness:
  "\<exists>r. validate_script demo_env (stealth_p2pkh (STEALTH_KDF_TAG @ [1, 7, 7] @ replicate 6 0))
     (sb_build (sb_chain [sb_push_bytes [7, 7], sb_push_bytes [7, 7], sb_push_bytes [1]])) demo_tx [] 5 =
     Inr r \<and> success r"
proof -
  have "length STEALTH_KDF_TAG = 23" by (simp add: STEALTH_KDF_TAG_def)
  then show ?thesis
    using stealth_spend [of "[7, 7]" "[7, 7]" "[1]" "STEALTH_KDF_TAG @ [1, 7, 7] @ replicate 6 0" _ _
        demo_env demo_tx "[]" 5, OF _ _ _ _ _ refl refl]
    by (simp add: demo_checksig)
qed

theorem witness_swallows_locking_script_witness:
  "validate_script demo_env [0x44] (0x03 # le_bytes 2 1) demo_tx [] 5 =
     Inr \<lparr>success = True, gas_used = 10, final_stack = [VBytes [0x44]]\<rparr>"
  using witness_swallows_locking_script [of "[0x44]" demo_env demo_tx "[]" 5]
  by (simp add: MAX_SCRIPT_SIZE_def)

end
