(* ===== verification/QV_Block.thy ===== *)
theory QV_Block
  imports QV_Transaction
begin

text \<open>
  \<open>qv-core/src/block.rs\<close>: headers, blocks, the Merkle tree over transaction identifiers
  and the structural block check with its positional coinbase rule.
\<close>

section \<open>Data\<close>

datatype block_error =
    HeaderEncode string
  | InvalidTransaction nat transaction_error
  | DuplicateTx
  | MerkleRootMismatch

definition BLOCK_VERSION :: u32 where
  "BLOCK_VERSION = 1"

record block_header =
  bh_version :: u32
  bh_prev_hash :: block_hash
  bh_height :: height
  bh_slot :: slot
  bh_timestamp :: timestamp
  bh_merkle_root :: merkle_root
  bh_utxo_commitment :: utxo_commitment
  bh_vrf_proof :: bytes
  bh_kes_sig :: bytes
  bh_producer_key_hash :: hash256

record block_env = tx_env +
  ser_header :: "block_header \<Rightarrow> (string, bytes) result"

definition genesis_template :: block_header where
  "genesis_template =
     \<lparr>bh_version = BLOCK_VERSION, bh_prev_hash = hash_zero, bh_height = 0, bh_slot = 0,
      bh_timestamp = 0, bh_merkle_root = hash_zero, bh_utxo_commitment = hash_zero,
      bh_vrf_proof = [], bh_kes_sig = [], bh_producer_key_hash = hash_zero\<rparr>"

definition header_canonical_bytes :: "'z block_env_scheme \<Rightarrow> block_header \<Rightarrow> (block_error, bytes) result" where
  "header_canonical_bytes E h = map_err HeaderEncode (ser_header E h)"

definition header_hash :: "'z block_env_scheme \<Rightarrow> block_header \<Rightarrow> (block_error, block_hash) result" where
  "header_hash E h = bind_res (header_canonical_bytes E h) (\<lambda>bs. Inr (Hash256 (sha3_256 E bs)))"

record block =
  blk_header :: block_header
  blk_txs :: "transaction list"

definition block_hash_of :: "'z block_env_scheme \<Rightarrow> block \<Rightarrow> (block_error, block_hash) result" where
  "block_hash_of E b = header_hash E (blk_header b)"

section \<open>Merkle tree\<close>

text \<open>\<open>chunks_exact(2)\<close>, each chunk as the 64-byte buffer that is hashed.\<close>

fun chunk_pairs :: "bytes list \<Rightarrow> bytes list" where
  "chunk_pairs (l # r # xs) = (l @ r) # chunk_pairs xs"
| "chunk_pairs _ = []"

text \<open>An odd level duplicates its last node.\<close>

definition pad_level :: "bytes list \<Rightarrow> bytes list" where
  "pad_level level = (if odd (length level) then level @ [last level] else level)"

definition next_level :: "(bytes \<Rightarrow> bytes) \<Rightarrow> bytes list \<Rightarrow> bytes list" where
  "next_level h level = map h (chunk_pairs (pad_level level))"

lemma length_chunk_pairs: "length (chunk_pairs xs) = length xs div 2"
  by (induction xs rule: chunk_pairs.induct) auto

lemma length_next_level: "length (next_level h level) = (length level + 1) div 2"
  by (auto simp: next_level_def length_chunk_pairs pad_level_def elim!: oddE evenE)

function merkle_loop :: "(bytes \<Rightarrow> bytes) \<Rightarrow> bytes list \<Rightarrow> bytes list" where
  "merkle_loop h level =
     (if 1 < length level then merkle_loop h (next_level h level) else level)"
  by pat_completeness auto
termination
  by (relation "measure (\<lambda>(h, level). length level)") (auto simp: length_next_level)

declare merkle_loop.simps [simp del]

definition merkle_root_of :: "(bytes \<Rightarrow> bytes) \<Rightarrow> txid list \<Rightarrow> merkle_root" where
  "merkle_root_of h ids =
     (if ids = [] then hash_zero
      else case merkle_loop h (map hbytes ids) of r # _ \<Rightarrow> Hash256 r | [] \<Rightarrow> Hash256 (replicate 32 0))"

section \<open>Structural validation\<close>

fun tx_ids_from :: "'z block_env_scheme \<Rightarrow> nat \<Rightarrow> transaction list \<Rightarrow> (block_error, txid list) result" where
  "tx_ids_from E index [] = Inr []"
| "tx_ids_from E index (tx # txs) =
     bind_res (map_err (InvalidTransaction index) (tx_id E tx)) (\<lambda>i.
     bind_res (tx_ids_from E (Suc index) txs) (\<lambda>ids. Inr (i # ids)))"

definition compute_merkle_root :: "'z block_env_scheme \<Rightarrow> block \<Rightarrow> (block_error, merkle_root) result" where
  "compute_merkle_root E b =
     bind_res (tx_ids_from E 0 (blk_txs b)) (\<lambda>ids. Inr (merkle_root_of (sha3_256 E) ids))"

text \<open>The rules for one transaction at position \<open>index\<close> of a block.\<close>

definition check_tx_position ::
  "bool \<Rightarrow> height \<Rightarrow> nat \<Rightarrow> transaction \<Rightarrow> (block_error, unit) result" where
  "check_tx_position is_genesis_block h index tx =
     (if tx_inputs tx = [] then
        (if is_genesis_block then
           (if tx_outputs tx = [] then Inl (InvalidTransaction index NoOutputs) else Inr ())
         else if index = 0 then map_err (InvalidTransaction index) (validate_coinbase_structure tx h)
         else Inl (InvalidTransaction index NoInputs))
      else map_err (InvalidTransaction index) (tx_validate_structure tx))"

text \<open>The loop over the transactions: check, then collect the identifier.\<close>

fun check_txs ::
  "'z block_env_scheme \<Rightarrow> bool \<Rightarrow> height \<Rightarrow> nat \<Rightarrow> transaction list \<Rightarrow> (block_error, txid list) result" where
  "check_txs E gen h index [] = Inr []"
| "check_txs E gen h index (tx # txs) =
     bind_res (check_tx_position gen h index tx) (\<lambda>_.
     bind_res (map_err (InvalidTransaction index) (tx_id E tx)) (\<lambda>i.
     bind_res (check_txs E gen h (Suc index) txs) (\<lambda>ids. Inr (i # ids))))"

definition block_validate_structure :: "'z block_env_scheme \<Rightarrow> block \<Rightarrow> (block_error, unit) result" where
  "block_validate_structure E b =
     (let h = bh_height (blk_header b) in
      bind_res (check_txs E (h = 0) h 0 (blk_txs b)) (\<lambda>ids.
        if adjacent_equal (sort ids) then Inl DuplicateTx
        else if merkle_root_of (sha3_256 E) ids \<noteq> bh_merkle_root (blk_header b)
        then Inl MerkleRootMismatch
        else Inr ()))"

section \<open>Merkle lemmas\<close>

lemma merkle_loop_single:
  "level \<noteq> [] \<Longrightarrow> length (merkle_loop h level) = 1"
proof (induction h level rule: merkle_loop.induct)
  case (1 h level)
  show ?case
  proof (cases "1 < length level")
    case True
    then have "next_level h level \<noteq> []"
      using length_next_level [of h level] by (cases "next_level h level") auto
    with 1 True show ?thesis by (simp add: merkle_loop.simps [of h level])
  next
    case False
    with 1 show ?thesis by (simp add: merkle_loop.simps [of h level] Suc_leI le_antisym)
  qed
qed

lemma merkle_root_of_eq:
  "ids \<noteq> [] \<Longrightarrow> merkle_loop h (map hbytes ids) = [hbytes (merkle_root_of h ids)]"
  using merkle_loop_single [of "map hbytes ids" h]
  by (auto simp: merkle_root_of_def length_Suc_conv)

lemma pad_level_inj:
  "length xs = length ys \<Longrightarrow> pad_level xs = pad_level ys \<Longrightarrow> xs = ys"
  by (auto simp: pad_level_def split: if_splits)

lemma chunk_pairs_inj:
  assumes "length xs = length ys" and "even (length xs)"
    and "\<forall>x \<in> set xs \<union> set ys. length x = n" and "chunk_pairs xs = chunk_pairs ys"
  shows "xs = ys"
  using assms
proof (induction xs arbitrary: ys rule: chunk_pairs.induct)
  case (1 l r xs)
  then obtain l' r' ys' where "ys = l' # r' # ys'"
    by (metis length_0_conv length_Suc_conv)
  with 1 show ?case by auto
qed (auto simp: length_Suc_conv)

lemma even_length_pad_level: "even (length (pad_level xs))"
  by (simp add: pad_level_def)

lemma set_pad_level: "xs \<noteq> [] \<Longrightarrow> set (pad_level xs) = set xs"
  by (auto simp: pad_level_def)

text \<open>Every byte string the tree construction hashes.\<close>

function merkle_preimages :: "(bytes \<Rightarrow> bytes) \<Rightarrow> bytes list \<Rightarrow> bytes list" where
  "merkle_preimages h level =
     (if 1 < length level
      then chunk_pairs (pad_level level) @ merkle_preimages h (next_level h level) else [])"
  by pat_completeness auto
termination
  by (relation "measure (\<lambda>(h, level). length level)") (auto simp: length_next_level)

declare merkle_preimages.simps [simp del]

text \<open>Two equal images of different lists of preimages contain a collision.\<close>

lemma map_eq_collision:
  assumes "map h ps = map h qs" and "ps \<noteq> qs"
  shows "\<exists>a \<in> set ps. \<exists>b \<in> set qs. a \<noteq> b \<and> h a = h b"
proof -
  have len: "length ps = length qs" using assms(1) map_eq_imp_length_eq by blast
  then obtain i where "i < length ps" and "ps ! i \<noteq> qs ! i"
    using assms(2) nth_equalityI by blast
  moreover from this have "h (ps ! i) = h (qs ! i)"
    using assms(1) len by (metis nth_map)
  ultimately show ?thesis using len by (metis nth_mem)
qed

lemma merkle_loop_binding:
  assumes "\<And>x. length (h x) = 32" and "length xs = length ys"
    and "\<forall>x \<in> set xs \<union> set ys. length x = 32" and "merkle_loop h xs = merkle_loop h ys"
  shows "xs = ys \<or>
    (\<exists>a \<in> set (merkle_preimages h xs). \<exists>b \<in> set (merkle_preimages h ys). a \<noteq> b \<and> h a = h b)"
  using assms
proof (induction h xs arbitrary: ys rule: merkle_loop.induct)
  case (1 h xs)
  show ?case
  proof (cases "1 < length xs")
    case False
    with 1 show ?thesis by (simp add: merkle_loop.simps [of h])
  next
    case True
    let ?xs = "chunk_pairs (pad_level xs)" and ?ys = "chunk_pairs (pad_level ys)"
    have len: "length (next_level h xs) = length (next_level h ys)"
      using 1 by (simp add: length_next_level)
    have wid: "\<forall>x \<in> set (next_level h xs) \<union> set (next_level h ys). length x = 32"
      using "1.prems"(1) by (auto simp: next_level_def)
    have "merkle_loop h (next_level h xs) = merkle_loop h (next_level h ys)"
      using 1 True by (simp add: merkle_loop.simps [of h xs] merkle_loop.simps [of h ys])
    from "1.IH" [OF True "1.prems"(1) len wid this]
    consider "map h ?xs = map h ?ys"
      | "\<exists>a \<in> set (merkle_preimages h (next_level h xs)).
          \<exists>b \<in> set (merkle_preimages h (next_level h ys)). a \<noteq> b \<and> h a = h b"
      by (auto simp: next_level_def)
    then show ?thesis
    proof cases
      case 1
      show ?thesis
      proof (cases "?xs = ?ys")
        case True
        have "xs \<noteq> []" "ys \<noteq> []" using \<open>1 < length xs\<close> "1.prems"(2) by auto
        moreover have "length (pad_level xs) = length (pad_level ys)"
          using "1.prems"(2) by (simp add: pad_level_def)
        ultimately have "pad_level xs = pad_level ys"
          using True "1.prems"(3) even_length_pad_level [of xs]
          by (intro chunk_pairs_inj [of _ _ 32, OF _ _ _ True]) (simp_all add: set_pad_level)
        then show ?thesis using pad_level_inj "1.prems"(2) by blast
      next
        case False
        with 1 map_eq_collision have "\<exists>a \<in> set ?xs. \<exists>b \<in> set ?ys. a \<noteq> b \<and> h a = h b"
          by blast
        with \<open>1 < length xs\<close> "1.prems"(2) show ?thesis
          by (auto simp: merkle_preimages.simps [of h xs] merkle_preimages.simps [of h ys])
      qed
    next
      case 2
      with \<open>1 < length xs\<close> "1.prems"(2) show ?thesis
        by (auto simp: merkle_preimages.simps [of h xs] merkle_preimages.simps [of h ys])
    qed
  qed
qed

text \<open>Appending the last node to an odd level changes nothing: the tree is malleable.\<close>

lemma merkle_loop_dup_last:
  assumes "odd (length xs)" and "1 < length xs"
  shows "merkle_loop h (xs @ [last xs]) = merkle_loop h xs"
proof -
  have "next_level h (xs @ [last xs]) = next_level h xs"
    using assms by (simp add: next_level_def pad_level_def)
  moreover have "0 < length xs" using assms by linarith
  ultimately show ?thesis
    using assms by (simp add: merkle_loop.simps [of h xs] merkle_loop.simps [of h "xs @ [last xs]"])
qed

section \<open>Block structure lemmas\<close>

text \<open>What the positional rules say, over the transaction itself.\<close>

definition tx_admissible :: "height \<Rightarrow> nat \<Rightarrow> transaction \<Rightarrow> bool" where
  "tx_admissible h index tx \<longleftrightarrow>
     tx_outputs tx \<noteq> [] \<and>
     (if tx_inputs tx = [] then
        h = 0 \<or> (index = 0 \<and> tx_lock_time tx = h \<and> total_of (map out_value (tx_outputs tx)) < 2 ^ 64)
      else distinct (map prev_output (tx_inputs tx)) \<and>
        total_of (map out_value (tx_outputs tx)) < 2 ^ 64)"

lemma check_tx_position_Inr [res_simps]:
  "check_tx_position (h = 0) h index tx = Inr u \<longleftrightarrow> tx_admissible h index tx"
  by (auto simp: check_tx_position_def tx_admissible_def res_simps)

lemma check_txs_Inr:
  "check_txs E (h = 0) h index txs = Inr ids \<longleftrightarrow>
     list_all2 (\<lambda>tx i. tx_id E tx = Inr i) txs ids \<and>
     (\<forall>j < length txs. tx_admissible h (index + j) (txs ! j))"
proof (induction txs arbitrary: index ids)
  case (Cons tx txs)
  have split: "(\<forall>j < length (tx # txs). P (index + j) ((tx # txs) ! j)) \<longleftrightarrow>
      P index tx \<and> (\<forall>j < length txs. P (Suc index + j) (txs ! j))" for P :: "nat \<Rightarrow> transaction \<Rightarrow> bool"
    by (auto simp: less_Suc_eq_0_disj nth_Cons split: nat.splits)
  show ?case
    unfolding split by (cases ids) (auto simp: res_simps Cons.IH)
qed (auto simp: res_simps)

lemma tx_ids_from_Inr:
  "tx_ids_from E index txs = Inr ids \<longleftrightarrow> list_all2 (\<lambda>tx i. tx_id E tx = Inr i) txs ids"
  by (induction txs arbitrary: index ids; case_tac ids) (auto simp: res_simps)

lemma block_validate_structure_Inr [res_simps]:
  "block_validate_structure E b = Inr u \<longleftrightarrow>
     (\<exists>ids. list_all2 (\<lambda>tx i. tx_id E tx = Inr i) (blk_txs b) ids \<and>
        (\<forall>j < length (blk_txs b). tx_admissible (bh_height (blk_header b)) j (blk_txs b ! j)) \<and>
        distinct ids \<and> merkle_root_of (sha3_256 E) ids = bh_merkle_root (blk_header b))"
  by (auto simp: block_validate_structure_def Let_def res_simps check_txs_Inr adjacent_equal_sort
      split: if_splits)

text \<open>
  C18. \<open>Block::validate_structure\<close> accepts a block exactly when every transaction has an
  identifier, the identifiers are pairwise distinct, the header's Merkle root is the root over
  them in order, and every transaction satisfies the positional rules; in particular an
  accepted block above height 0 has no input-free transaction except possibly a coinbase at
  position 0 that commits to the block's height.
\<close>

theorem block_validate_structure_spec:
  "(block_validate_structure E b = Inr () \<longleftrightarrow>
      (\<exists>ids. list_all2 (\<lambda>tx i. tx_id E tx = Inr i) (blk_txs b) ids \<and>
         (\<forall>j < length (blk_txs b). tx_admissible (bh_height (blk_header b)) j (blk_txs b ! j)) \<and>
         distinct ids \<and> merkle_root_of (sha3_256 E) ids = bh_merkle_root (blk_header b))) \<and>
   (block_validate_structure E b = Inr () \<longrightarrow> bh_height (blk_header b) \<noteq> 0 \<longrightarrow>
      (\<forall>j < length (blk_txs b). is_coinbase (blk_txs b ! j) \<longrightarrow>
         j = 0 \<and> coinbase_height (blk_txs b ! j) = Some (bh_height (blk_header b))))"
proof (intro conjI impI allI)
  fix j
  assume "block_validate_structure E b = Inr ()" "bh_height (blk_header b) \<noteq> 0"
    "j < length (blk_txs b)" "is_coinbase (blk_txs b ! j)"
  then have "tx_admissible (bh_height (blk_header b)) j (blk_txs b ! j)"
    by (auto simp: res_simps)
  then show "j = 0"
    and "coinbase_height (blk_txs b ! j) = Some (bh_height (blk_header b))"
    using \<open>bh_height (blk_header b) \<noteq> 0\<close> \<open>is_coinbase (blk_txs b ! j)\<close>
    by (auto simp: tx_admissible_def is_coinbase_def coinbase_height_def)
qed (rule block_validate_structure_Inr)

definition demo_block_env :: block_env where
  "demo_block_env =
     \<lparr>sha3_256 = sha3_256 demo_env, blake3_256 = blake3_256 demo_env,
      mldsa_pk_len = mldsa_pk_len demo_env, mldsa_sig_len = mldsa_sig_len demo_env,
      mldsa_verify = mldsa_verify demo_env, ser_tx = ser_tx demo_env, de_tx = de_tx demo_env,
      ser_output = ser_output demo_env, de_output = de_output demo_env,
      ser_header = (\<lambda>h. Inr (le_bytes 8 (unat (bh_height h))))\<rparr>"

definition demo_id :: txid where
  "demo_id = Hash256 (1 # replicate 31 0)"

definition demo_block :: block where
  "demo_block = \<lparr>blk_header = genesis_template\<lparr>bh_height := 5, bh_slot := 1, bh_merkle_root := demo_id\<rparr>,
     blk_txs = [demo_tx]\<rparr>"

lemma demo_tx_id: "tx_id demo_block_env demo_tx = Inr demo_id"
  by (simp add: res_simps demo_block_env_def demo_env_def demo_id_def)

theorem block_validate_structure_spec_witness:
  "block_validate_structure demo_block_env demo_block = Inr () \<and>
   bh_height (blk_header demo_block) \<noteq> 0"
proof -
  have "list_all2 (\<lambda>tx i. tx_id demo_block_env tx = Inr i) (blk_txs demo_block) [demo_id]"
    by (simp add: demo_block_def demo_tx_id)
  moreover have "\<forall>j < length (blk_txs demo_block).
      tx_admissible (bh_height (blk_header demo_block)) j (blk_txs demo_block ! j)"
    by (simp add: demo_block_def tx_admissible_def demo_tx_def tx_new_def tx_output_new_def)
  moreover have "merkle_root_of (sha3_256 demo_block_env) [demo_id] =
      bh_merkle_root (blk_header demo_block)"
    by (simp add: merkle_root_of_def merkle_loop.simps demo_block_def demo_id_def)
  ultimately have "block_validate_structure demo_block_env demo_block = Inr ()"
    using block_validate_structure_spec [of demo_block_env demo_block]
    by (metis distinct_singleton)
  then show ?thesis by (simp add: demo_block_def)
qed

text \<open>
  The Merkle root commits to the identifiers: two lists of the same length with the same
  root are equal, or two different 64-byte strings hashed while building the two trees collide
  (digests are 32 bytes).
\<close>

theorem merkle_root_binding:
  assumes "\<And>x. length (h x) = 32" and "length xs = length ys"
    and "\<forall>i \<in> set xs \<union> set ys. hash_wf i" and "merkle_root_of h xs = merkle_root_of h ys"
  shows "xs = ys \<or>
    (\<exists>a \<in> set (merkle_preimages h (map hbytes xs)).
     \<exists>b \<in> set (merkle_preimages h (map hbytes ys)). a \<noteq> b \<and> h a = h b)"
proof (cases "xs = []")
  case False
  then have "ys \<noteq> []" using assms(2) by auto
  with False assms(4) have "merkle_loop h (map hbytes xs) = merkle_loop h (map hbytes ys)"
    by (simp add: merkle_root_of_eq)
  moreover have "map hbytes xs = map hbytes ys \<longleftrightarrow> xs = ys"
    by (metis hbytes_inject inj_map_eq_map injI)
  ultimately show ?thesis
    using merkle_loop_binding [of h "map hbytes xs" "map hbytes ys"] assms(1-3)
    by (auto simp: hash_wf_def)
qed (use assms in simp)

theorem merkle_root_binding_witness:
  "\<exists>a b. a \<noteq> b \<and> (\<lambda>_ :: bytes. replicate 32 (0 :: u8)) a = (\<lambda>_. replicate 32 0) b \<and>
     merkle_root_of (\<lambda>_. replicate 32 0) [hash_zero, demo_id] =
     merkle_root_of (\<lambda>_. replicate 32 0) [demo_id, hash_zero]"
proof -
  let ?h = "\<lambda>_ :: bytes. replicate 32 (0 :: u8)"
  have root: "merkle_root_of ?h [hash_zero, demo_id] = merkle_root_of ?h [demo_id, hash_zero]"
    by (simp add: merkle_root_of_def merkle_loop.simps next_level_def pad_level_def)
  have "hash_zero \<noteq> demo_id" by (simp add: hash_zero_def demo_id_def numeral_eq_Suc)
  then have "[hash_zero, demo_id] \<noteq> [demo_id, hash_zero]" by simp
  moreover have "\<forall>i \<in> set [hash_zero, demo_id] \<union> set [demo_id, hash_zero]. hash_wf i"
    by (simp add: hash_wf_def hash_zero_def demo_id_def)
  ultimately show ?thesis
    using merkle_root_binding [of ?h "[hash_zero, demo_id]" "[demo_id, hash_zero]"] root by auto
qed

text \<open>
  The duplicate-last padding is malleable (CVE-2012-2459): repeating the last identifier
  of an odd list leaves the root unchanged. The structural check is what rejects the longer
  block: no block whose transactions repeat an identifier is accepted.
\<close>

theorem duplicate_tail_rejected:
  "(odd (length ids) \<and> 1 < length ids \<longrightarrow>
      merkle_root_of h (ids @ [last ids]) = merkle_root_of h ids) \<and>
   (blk_txs b = txs @ [tx, tx] \<longrightarrow> block_validate_structure E b \<noteq> Inr ())"
proof (intro conjI impI)
  assume *: "odd (length ids) \<and> 1 < length ids"
  then have ne: "ids \<noteq> []" by auto
  have "merkle_loop h (map hbytes (ids @ [last ids])) = merkle_loop h (map hbytes ids)"
    using * ne merkle_loop_dup_last [of "map hbytes ids" h] by (simp add: last_map)
  then show "merkle_root_of h (ids @ [last ids]) = merkle_root_of h ids"
    using ne by (simp add: merkle_root_of_def)
next
  assume b: "blk_txs b = txs @ [tx, tx]"
  show "block_validate_structure E b \<noteq> Inr ()"
  proof
    assume "block_validate_structure E b = Inr ()"
    then obtain ids where ids: "list_all2 (\<lambda>tx i. tx_id E tx = Inr i) (txs @ [tx, tx]) ids"
      and "distinct ids"
      using b by (auto simp: res_simps)
    from ids obtain us vs where "ids = us @ vs" and "list_all2 (\<lambda>tx i. tx_id E tx = Inr i) [tx, tx] vs"
      by (auto simp: list_all2_append1)
    then obtain i j where "vs = [i, j]" "i = j"
      by (auto simp: list_all2_Cons1)
    with \<open>ids = us @ vs\<close> \<open>distinct ids\<close> show False by simp
  qed
qed

theorem duplicate_tail_rejected_witness:
  "merkle_root_of (\<lambda>_. []) [hash_zero, demo_id, demo_id, demo_id] = merkle_root_of (\<lambda>_. []) [hash_zero, demo_id, demo_id] \<and>
   block_validate_structure demo_block_env (demo_block\<lparr>blk_txs := [demo_tx, demo_tx]\<rparr>) \<noteq> Inr ()"
  using duplicate_tail_rejected [of "[hash_zero, demo_id, demo_id]" "\<lambda>_. []"
      "demo_block\<lparr>blk_txs := [demo_tx, demo_tx]\<rparr>" "[]" demo_tx demo_block_env]
  by simp

end
