(* ===== verification/QV_Slot.thy ===== *)
theory QV_Slot
  imports QV_Params QV_Crypto
begin

text \<open>
  \<open>qv-consensus/src/slot.rs\<close> and \<open>epoch.rs\<close>: the clock between slots, epochs and wall-clock
  time, the epoch nonce, and the epoch-boundary tracker. \<open>saturating_div\<close> panics on a zero
  divisor; a definition that divides returns \<open>None\<close> in that case.
\<close>

section \<open>The slot clock\<close>

record slot_clock =
  sc_slot_duration_ms :: u64
  sc_epoch_slots :: u64
  sc_genesis_time_ms :: u64

definition clock_from_params :: "protocol_params \<Rightarrow> slot_clock" where
  "clock_from_params p =
     \<lparr>sc_slot_duration_ms = slot_duration_ms (pp_consensus p),
      sc_epoch_slots = epoch_slots (pp_consensus p),
      sc_genesis_time_ms = sat_mul (genesis_time p) 1000\<rparr>"

definition clock_new :: "consensus_params \<Rightarrow> u64 \<Rightarrow> slot_clock" where
  "clock_new c genesis_time_secs =
     \<lparr>sc_slot_duration_ms = slot_duration_ms c, sc_epoch_slots = epoch_slots c,
      sc_genesis_time_ms = sat_mul genesis_time_secs 1000\<rparr>"

definition slot_to_epoch :: "slot_clock \<Rightarrow> slot \<Rightarrow> epoch option" where
  "slot_to_epoch c s = checked_div_w s (sc_epoch_slots c)"

definition epoch_first_slot :: "slot_clock \<Rightarrow> epoch \<Rightarrow> slot" where
  "epoch_first_slot c e = sat_mul e (sc_epoch_slots c)"

definition epoch_last_slot :: "slot_clock \<Rightarrow> epoch \<Rightarrow> slot" where
  "epoch_last_slot c e = sat_sub (sat_mul (sat_add e 1) (sc_epoch_slots c)) 1"

definition slot_in_epoch :: "slot_clock \<Rightarrow> slot \<Rightarrow> u64" where
  "slot_in_epoch c s = (if sc_epoch_slots c = 0 then 0 else s mod sc_epoch_slots c)"

definition slot_start_time_ms :: "slot_clock \<Rightarrow> slot \<Rightarrow> u64" where
  "slot_start_time_ms c s = sat_add (sc_genesis_time_ms c) (sat_mul s (sc_slot_duration_ms c))"

definition slot_start_timestamp :: "slot_clock \<Rightarrow> slot \<Rightarrow> timestamp" where
  "slot_start_timestamp c s = slot_start_time_ms c s div 1000"

text \<open>The outer option is the panic of a zero slot duration, the inner one the code's own.\<close>

definition time_to_slot :: "slot_clock \<Rightarrow> u64 \<Rightarrow> slot option option" where
  "time_to_slot c time_ms =
     (if time_ms < sc_genesis_time_ms c then Some None
      else map_option Some
        (checked_div_w (sat_sub time_ms (sc_genesis_time_ms c)) (sc_slot_duration_ms c)))"

record slot_info =
  si_slot :: slot
  si_epoch :: epoch
  si_slot_in_epoch :: u64
  si_epoch_first_slot :: slot
  si_start_time_ms :: u64

definition clock_info :: "slot_clock \<Rightarrow> slot \<Rightarrow> slot_info option" where
  "clock_info c s = map_option (\<lambda>e.
     \<lparr>si_slot = s, si_epoch = e, si_slot_in_epoch = slot_in_epoch c s,
      si_epoch_first_slot = epoch_first_slot c e, si_start_time_ms = slot_start_time_ms c s\<rparr>)
     (slot_to_epoch c s)"

definition current_info :: "slot_clock \<Rightarrow> u64 \<Rightarrow> slot_info option option" where
  "current_info c now_ms =
     (case time_to_slot c now_ms of
        None \<Rightarrow> None
      | Some None \<Rightarrow> Some None
      | Some (Some s) \<Rightarrow> map_option Some (clock_info c s))"

section \<open>Epochs\<close>

definition nonce_genesis :: hash256 where
  "nonce_genesis = Hash256 ([0x51, 0x56] @ replicate 29 0 @ [0x01])"

definition nonce_evolve :: "'z crypto_env_scheme \<Rightarrow> hash256 \<Rightarrow> bytes \<Rightarrow> hash256 \<Rightarrow> hash256" where
  "nonce_evolve E nonce extra_entropy boundary =
     Hash256 (sha3_256 E (hbytes nonce @ extra_entropy @ hbytes boundary))"

record epoch_info =
  ei_epoch :: epoch
  ei_first_slot :: slot
  ei_last_slot :: slot
  ei_nonce :: hash256

definition epoch_info_new :: "slot_clock \<Rightarrow> epoch \<Rightarrow> hash256 \<Rightarrow> epoch_info" where
  "epoch_info_new c e nonce =
     \<lparr>ei_epoch = e, ei_first_slot = epoch_first_slot c e, ei_last_slot = epoch_last_slot c e,
      ei_nonce = nonce\<rparr>"

definition epoch_length :: "epoch_info \<Rightarrow> u64" where
  "epoch_length i = sat_add (sat_sub (ei_last_slot i) (ei_first_slot i)) 1"

definition contains_slot :: "epoch_info \<Rightarrow> slot \<Rightarrow> bool" where
  "contains_slot i s \<longleftrightarrow> ei_first_slot i \<le> s \<and> s \<le> ei_last_slot i"

definition nonce_contribution_last_slot :: "epoch_info \<Rightarrow> slot" where
  "nonce_contribution_last_slot i =
     (let two_thirds = sat_mul (epoch_length i) 2 div 3
      in sat_add (ei_first_slot i) (sat_sub two_thirds 1))"

record epoch_boundary =
  eb_clock :: slot_clock
  eb_current :: epoch

definition boundary_new :: "slot_clock \<Rightarrow> epoch_boundary" where
  "boundary_new c = \<lparr>eb_clock = c, eb_current = 0\<rparr>"

definition boundary_at_slot :: "slot_clock \<Rightarrow> slot \<Rightarrow> epoch_boundary option" where
  "boundary_at_slot c s = map_option (\<lambda>e. \<lparr>eb_clock = c, eb_current = e\<rparr>) (slot_to_epoch c s)"

definition boundary_advance :: "epoch_boundary \<Rightarrow> slot \<Rightarrow> (epoch option \<times> epoch_boundary) option" where
  "boundary_advance b s = map_option (\<lambda>e.
     if eb_current b < e then (Some e, b\<lparr>eb_current := e\<rparr>) else (None, b))
     (slot_to_epoch (eb_clock b) s)"

section \<open>Properties\<close>

lemma unat_div_w: "unat ((a :: u64) div b) = unat a div unat b"
  by (simp add: unat_div)

lemma div_eq_interval:
  assumes "0 < n"
  shows "q * n \<le> s \<and> s < Suc q * n \<longleftrightarrow> s div n = (q :: nat)"
proof
  assume "q * n \<le> s \<and> s < Suc q * n"
  then show "s div n = q" by (intro div_nat_eqI) (auto simp: mult.commute)
next
  assume "s div n = q"
  then show "q * n \<le> s \<and> s < Suc q * n"
    using dividend_less_div_times [OF assms, of s] by (auto simp: add.commute)
qed

lemma slot_to_epoch_Some:
  "slot_to_epoch c s = Some e \<longleftrightarrow>
     sc_epoch_slots c \<noteq> 0 \<and> unat e = unat s div unat (sc_epoch_slots c)"
  by (auto simp: slot_to_epoch_def checked_div_w_def word_unat_eq_iff unat_div_w)

text \<open>Without saturation an epoch is the interval \<open>[e * n, (e + 1) * n - 1]\<close>.\<close>

lemma epoch_bounds:
  assumes "(unat e + 1) * unat (sc_epoch_slots c) < 2 ^ 64"
  shows "unat (epoch_first_slot c e) = unat e * unat (sc_epoch_slots c)"
    and "unat (epoch_last_slot c e) = (unat e + 1) * unat (sc_epoch_slots c) - 1"
proof -
  have "unat e * unat (sc_epoch_slots c) < 2 ^ 64" using assms by simp
  then show "unat (epoch_first_slot c e) = unat e * unat (sc_epoch_slots c)"
    by (simp add: epoch_first_slot_def int_simps min_def)
  show "unat (epoch_last_slot c e) = (unat e + 1) * unat (sc_epoch_slots c) - 1"
  proof (cases "sc_epoch_slots c = 0")
    case False
    then have "1 \<le> unat (sc_epoch_slots c)" by (simp add: unat_gt_0 Suc_leI)
    then have "(unat e + 1) * 1 \<le> (unat e + 1) * unat (sc_epoch_slots c)" by (rule mult_le_mono2)
    with assms have "unat e + 1 < 2 ^ 64" by (metis le_less_trans mult.right_neutral)
    then have "unat (sat_add e 1) = unat e + 1" by (simp add: int_simps min_def)
    with assms show ?thesis by (simp add: epoch_last_slot_def int_simps min_def)
  qed (simp add: epoch_last_slot_def int_simps)
qed

text \<open>
  The clock's coordinate systems agree. For a clock with a positive epoch length and slot
  duration, and a slot whose epoch end and start time fit in 64 bits: the slot lies in exactly
  the epoch the clock assigns to it, at the offset it reports, and every instant from the
  slot's start up to the next slot's start maps back to the slot.
\<close>

theorem slot_clock_round_trips:
  assumes "sc_epoch_slots c \<noteq> 0" and "sc_slot_duration_ms c \<noteq> 0"
    and epoch_fits: "unat s + unat (sc_epoch_slots c) < 2 ^ 64"
    and time_fits: "unat (sc_genesis_time_ms c) + (unat s + 1) * unat (sc_slot_duration_ms c) < 2 ^ 64"
  shows "(\<exists>e. slot_to_epoch c s = Some e \<and> contains_slot (epoch_info_new c e nonce) s \<and>
            unat s = unat (epoch_first_slot c e) + unat (slot_in_epoch c s) \<and>
            (\<forall>e'. (unat e' + 1) * unat (sc_epoch_slots c) < 2 ^ 64 \<longrightarrow>
               contains_slot (epoch_info_new c e' nonce) s \<longrightarrow> e' = e)) \<and>
         (\<forall>d < unat (sc_slot_duration_ms c).
            time_to_slot c (slot_start_time_ms c s + of_nat d) = Some (Some s))"
proof
  let ?n = "unat (sc_epoch_slots c)"
  have n: "0 < ?n" using assms(1) by (simp add: unat_gt_0)
  define e :: epoch where "e = s div sc_epoch_slots c"
  have e: "unat e = unat s div ?n" by (simp add: e_def unat_div_w)
  have "unat s div ?n * ?n \<le> unat s" by (rule div_times_less_eq_dividend)
  with epoch_fits have "unat s div ?n * ?n + ?n < 2 ^ 64" by linarith
  then have fits: "(unat e + 1) * ?n < 2 ^ 64" by (simp add: e add.commute)
  have in_ep: "contains_slot (epoch_info_new c e' nonce) s \<longleftrightarrow> unat s div ?n = unat e'"
    if "(unat e' + 1) * ?n < 2 ^ 64" for e'
  proof -
    have "contains_slot (epoch_info_new c e' nonce) s \<longleftrightarrow>
        unat e' * ?n \<le> unat s \<and> unat s \<le> (unat e' + 1) * ?n - 1"
      by (simp add: contains_slot_def epoch_info_new_def word_le_nat_alt epoch_bounds [OF that])
    also have "\<dots> \<longleftrightarrow> unat e' * ?n \<le> unat s \<and> unat s < Suc (unat e') * ?n"
      using n by (auto simp: less_eq_Suc_le [symmetric] Suc_le_eq)
    also have "\<dots> \<longleftrightarrow> unat s div ?n = unat e'"
      using div_eq_interval [OF n] by simp
    finally show ?thesis .
  qed
  show "\<exists>e. slot_to_epoch c s = Some e \<and> contains_slot (epoch_info_new c e nonce) s \<and>
      unat s = unat (epoch_first_slot c e) + unat (slot_in_epoch c s) \<and>
      (\<forall>e'. (unat e' + 1) * ?n < 2 ^ 64 \<longrightarrow>
         contains_slot (epoch_info_new c e' nonce) s \<longrightarrow> e' = e)"
    using assms(1) e in_ep [OF fits] epoch_bounds(1) [OF fits] in_ep
    by (intro exI [of _ e])
      (auto simp: slot_to_epoch_Some slot_in_epoch_def unat_mod word_unat_eq_iff)
next
  let ?d = "unat (sc_slot_duration_ms c)" and ?g = "unat (sc_genesis_time_ms c)"
  have d: "0 < ?d" using assms(2) by (simp add: unat_gt_0)
  have start: "unat (slot_start_time_ms c s) = ?g + unat s * ?d"
    using time_fits by (simp add: slot_start_time_ms_def int_simps min_def)
  show "\<forall>d < ?d. time_to_slot c (slot_start_time_ms c s + of_nat d) = Some (Some s)"
  proof (intro allI impI)
    fix x assume x: "x < ?d"
    have lt: "?g + unat s * ?d + x < 2 ^ 64" using x time_fits by simp
    then have "unat (of_nat x :: u64) = x" by (simp add: unat_of_nat_small)
    then have t: "unat (slot_start_time_ms c s + of_nat x) = ?g + unat s * ?d + x"
      using lt start by (simp add: unat_add_small)
    then have "sc_genesis_time_ms c \<le> slot_start_time_ms c s + of_nat x"
      by (simp add: word_le_nat_alt)
    moreover have "unat (sat_sub (slot_start_time_ms c s + of_nat x) (sc_genesis_time_ms c)) =
        unat s * ?d + x" using t by (simp add: int_simps)
    moreover have "(unat s * ?d + x) div ?d = unat s" using d x by simp
    ultimately show "time_to_slot c (slot_start_time_ms c s + of_nat x) = Some (Some s)"
      using assms(2) by (simp add: time_to_slot_def checked_div_w_def word_unat_eq_iff unat_div_w)
  qed
qed

theorem slot_clock_round_trips_witness:
  "\<exists>e. slot_to_epoch (clock_from_params protocol_mainnet) 21605 = Some e \<and>
     contains_slot (epoch_info_new (clock_from_params protocol_mainnet) e hash_zero) 21605 \<and>
     unat (21605 :: u64) = unat (epoch_first_slot (clock_from_params protocol_mainnet) e) +
       unat (slot_in_epoch (clock_from_params protocol_mainnet) 21605)"
proof -
  let ?c = "clock_from_params protocol_mainnet"
  have "sc_epoch_slots ?c = 21600" "sc_slot_duration_ms ?c = 2000" "sc_genesis_time_ms ?c = 0"
    by (simp_all add: clock_from_params_def protocol_mainnet_def consensus_mainnet_def sat_mul_def)
  then show ?thesis using slot_clock_round_trips [of ?c 21605 hash_zero] by auto
qed

text \<open>Advancing the boundary tracker never moves it backwards, and reports exactly the changes.\<close>

lemma boundary_advance_monotone:
  assumes "boundary_advance b s = Some (r, b')"
  shows "eb_current b \<le> eb_current b' \<and> (r = None \<longleftrightarrow> b' = b) \<and> (\<forall>e. r = Some e \<longrightarrow> eb_current b' = e)"
  using assms by (auto simp: boundary_advance_def split: if_splits dest: arg_cong [of _ _ eb_current])

end
