(* ===== verification/QV_Stake.thy ===== *)
theory QV_Stake
  imports QV_Slot
begin

text \<open>
  \<open>qv-consensus/src/stake.rs\<close>: pools, delegations and the per-epoch stake distribution.
  \<open>margin_ratio\<close> is a floating-point display helper and is not modelled.
\<close>

type_synonym pool_id = hash256

definition pool_id_from_vrf_key :: "'z crypto_env_scheme \<Rightarrow> bytes \<Rightarrow> pool_id" where
  "pool_id_from_vrf_key E vrf_pk = Hash256 (sha3_256 E vrf_pk)"

record stake_pool =
  sp_id :: pool_id
  sp_vrf_key :: bytes
  sp_kes_key :: bytes
  sp_pledge :: amount
  sp_margin_num :: u32
  sp_margin_den :: u32
  sp_fixed_cost :: amount
  sp_active :: bool

datatype stake_error =
    PoolAlreadyRegistered pool_id
  | StakePoolNotFound pool_id
  | ZeroDelegation
  | InvalidMargin u32 u32
  | StakeOverflow

definition pool_validate :: "stake_pool \<Rightarrow> (stake_error, unit) result" where
  "pool_validate p =
     (if sp_margin_den p = 0 \<or> sp_margin_den p < sp_margin_num p
      then Inl (InvalidMargin (sp_margin_num p) (sp_margin_den p)) else Inr ())"

record delegation =
  dg_delegator_id :: hash256
  dg_pool_id :: pool_id
  dg_amount :: amount

record stake_distribution =
  sd_epoch :: epoch
  sd_pool_stakes :: "(pool_id, u64) btree"
  sd_total_stake :: u64

text \<open>The loop of \<open>StakeDistribution::new\<close>.\<close>

fun stake_fold ::
  "(pool_id \<times> amount) list \<Rightarrow> (pool_id, u64) btree \<Rightarrow> u64 \<Rightarrow> (stake_error, (pool_id, u64) btree \<times> u64) result" where
  "stake_fold [] stakes tot = Inr (stakes, tot)"
| "stake_fold (e # es) stakes tot =
     (let val = snd e in
      if val = 0 then stake_fold es stakes tot
      else
        let stakes' = bt_upsert (fst e) (\<lambda>s. sat_add s val) val stakes in
        bind_res (ok_or (checked_add_w tot val) StakeOverflow) (\<lambda>tot'.
          stake_fold es stakes' tot'))"

definition stake_new :: "epoch \<Rightarrow> (pool_id \<times> amount) list \<Rightarrow> (stake_error, stake_distribution) result" where
  "stake_new e entries =
     bind_res (stake_fold entries [] 0) (\<lambda>(stakes, tot).
       Inr \<lparr>sd_epoch = e, sd_pool_stakes = stakes, sd_total_stake = tot\<rparr>)"

definition add_stake :: "pool_id \<Rightarrow> u64 \<Rightarrow> (pool_id, u64) btree \<Rightarrow> (pool_id, u64) btree" where
  "add_stake p v m = bt_upsert p (\<lambda>s. sat_add s v) v m"

definition stake_snapshot ::
  "epoch \<Rightarrow> stake_pool list \<Rightarrow> delegation list \<Rightarrow> (stake_error, stake_distribution) result" where
  "stake_snapshot e pools delegations =
     (let pledged = fold (\<lambda>p m. if sp_active p then add_stake (sp_id p) (sp_pledge p) m else m) pools [];
          active_pools = set (map sp_id (filter sp_active pools));
          stakes = fold (\<lambda>d m. if dg_pool_id d \<in> active_pools
                               then add_stake (dg_pool_id d) (dg_amount d) m else m) delegations pledged
      in stake_new e stakes)"

definition pool_stake :: "stake_distribution \<Rightarrow> pool_id \<Rightarrow> u64" where
  "pool_stake d p = (case bt_get (sd_pool_stakes d) p of Some s \<Rightarrow> s | None \<Rightarrow> 0)"

definition relative_stake :: "stake_distribution \<Rightarrow> pool_id \<Rightarrow> u64 \<times> u64" where
  "relative_stake d p =
     (let s = pool_stake d p in
      if sd_total_stake d = 0 \<or> s = 0 then (0, 1) else (s, sd_total_stake d))"

definition pool_count :: "stake_distribution \<Rightarrow> nat" where
  "pool_count d = length (sd_pool_stakes d)"

definition stake_is_empty :: "stake_distribution \<Rightarrow> bool" where
  "stake_is_empty d \<longleftrightarrow> sd_total_stake d = 0"

definition pool_for_vrf_key :: "'z crypto_env_scheme \<Rightarrow> stake_pool list \<Rightarrow> bytes \<Rightarrow> pool_id option" where
  "pool_for_vrf_key E pools vrf_key =
     (let candidate = pool_id_from_vrf_key E vrf_key
      in map_option sp_id (find (\<lambda>p. sp_id p = candidate \<and> sp_active p) pools))"

section \<open>Properties\<close>

lemma pool_validate_Inr [res_simps]:
  "pool_validate p = Inr u \<longleftrightarrow> sp_margin_den p \<noteq> 0 \<and> sp_margin_num p \<le> sp_margin_den p"
  by (auto simp: pool_validate_def not_less)

text \<open>What entries say about one pool.\<close>

definition entries_for :: "pool_id \<Rightarrow> (pool_id \<times> amount) list \<Rightarrow> nat" where
  "entries_for p es = sum_list (map (\<lambda>e. if fst e = p then unat (snd e) else 0) es)"

abbreviation stake_at :: "(pool_id, u64) btree \<Rightarrow> pool_id \<Rightarrow> nat" where
  "stake_at m p \<equiv> (case bt_get m p of Some s \<Rightarrow> unat s | None \<Rightarrow> 0)"

lemma add_stake_exact:
  assumes "bt_ok m" and "bt_total unat m + unat v < 2 ^ 64"
  shows "bt_ok (add_stake p v m) \<and> bt_total unat (add_stake p v m) = bt_total unat m + unat v \<and>
    (\<forall>q. stake_at (add_stake p v m) q = stake_at m q + (if q = p then unat v else 0))"
proof -
  have le: "stake_at m p \<le> bt_total unat m"
    by (auto split: option.splits dest: bt_get_le_total [of _ _ _ unat])
  define w where "w = (case bt_get m p of Some s \<Rightarrow> sat_add s v | None \<Rightarrow> v)"
  have w: "unat w = stake_at m p + unat v"
    using le assms(2) by (auto simp: w_def int_simps min_def split: option.splits)
  have eq: "add_stake p v m = bt_insert p w m" by (simp add: add_stake_def bt_upsert_def w_def)
  have "bt_total unat (bt_insert p w m) + stake_at m p = bt_total unat m + unat w"
    using bt_total_insert [OF assms(1), of unat p w] by (simp split: option.splits)
  with w eq assms(1) show ?thesis by (simp add: bt_simps)
qed

lemma stake_fold_exact:
  assumes "stake_fold es m t = Inr (m', t')" and "bt_ok m" and "bt_total unat m = unat t"
  shows "bt_ok m' \<and> bt_total unat m' = unat t' \<and>
    unat t' = unat t + sum_list (map (\<lambda>e. unat (snd e)) es) \<and>
    (\<forall>p. stake_at m' p = stake_at m p + entries_for p es)"
  using assms
proof (induction es arbitrary: m t)
  case (Cons e es)
  show ?case
  proof (cases "snd e = 0")
    case True
    with Cons.prems Cons.IH [of m t] show ?thesis by (simp add: entries_for_def)
  next
    case False
    with Cons.prems(1) obtain t1 where t1: "checked_add_w t (snd e) = Some t1"
      and rest: "stake_fold es (add_stake (fst e) (snd e) m) t1 = Inr (m', t')"
      by (auto simp: Let_def res_simps add_stake_def)
    have u: "unat t1 = unat t + unat (snd e)" using t1 by (simp add: int_simps)
    then have "bt_total unat m + unat (snd e) < 2 ^ 64"
      using Cons.prems(3) unat_bound [of t1] by simp
    note step = add_stake_exact [OF Cons.prems(2) this, of "fst e"]
    from Cons.IH [OF rest] step u Cons.prems(3) show ?thesis by (auto simp: entries_for_def)
  qed
qed (simp add: entries_for_def)

text \<open>
  The stake snapshot is exact. When building a distribution succeeds, no counter has
  saturated: every pool's stake is the sum of its entries, the cached total is the sum of all
  pool stakes and of all entries, and the relative stake of any pool is a fraction of at most
  one with a positive denominator.
\<close>

theorem stake_distribution_exact:
  assumes "stake_new e entries = Inr d"
  shows "unat (sd_total_stake d) = sum_list (map (\<lambda>x. unat (snd x)) entries) \<and>
    unat (sd_total_stake d) = bt_total unat (sd_pool_stakes d) \<and> bt_ok (sd_pool_stakes d) \<and>
    (\<forall>p. unat (pool_stake d p) = entries_for p entries \<and>
       fst (relative_stake d p) \<le> snd (relative_stake d p) \<and> snd (relative_stake d p) \<noteq> 0)"
proof -
  obtain m t where f: "stake_fold entries [] 0 = Inr (m, t)"
    and d: "d = \<lparr>sd_epoch = e, sd_pool_stakes = m, sd_total_stake = t\<rparr>"
    using assms by (auto simp: stake_new_def res_simps)
  have ok: "bt_ok m" "bt_total unat m = unat t" "unat t = sum_list (map (\<lambda>x. unat (snd x)) entries)"
    "\<And>p. stake_at m p = entries_for p entries"
    using stake_fold_exact [OF f] by (auto simp: bt_ok_def bt_total_def bt_sum_def)
  have st: "unat (pool_stake d p) = stake_at m p" for p
    by (simp add: pool_stake_def d split: option.splits)
  have "stake_at m p \<le> unat t" for p
    using ok(2) by (auto split: option.splits dest: bt_get_le_total [of _ _ _ unat])
  then have "pool_stake d p \<le> t" for p by (simp add: word_le_nat_alt st)
  then show ?thesis
    using ok st by (auto simp: d relative_stake_def Let_def)
qed

theorem stake_distribution_exact_witness:
  "\<exists>d. stake_new 3 [(hash_zero, 5), (hash_zero, 7)] = Inr d \<and> unat (sd_total_stake d) = 12 \<and>
     unat (pool_stake d hash_zero) = 12"
proof -
  have "\<exists>d. stake_new 3 [(hash_zero, 5), (hash_zero, 7)] = Inr d"
    by (simp add: stake_new_def checked_add_w_def bt_upsert_def)
  then obtain d where d: "stake_new 3 [(hash_zero, 5), (hash_zero, 7)] = Inr d" ..
  with stake_distribution_exact [OF d] show ?thesis by (simp add: entries_for_def)
qed

end
