(* ===== verification/QV_Leader.thy ===== *)
theory QV_Leader
  imports QV_Stake
begin

text \<open>
  \<open>qv-consensus/src/leader_schedule.rs\<close>: the fixed-point leader threshold and the leadership
  check of a block producer and of a validator. The VRF is a trait in the code and a pair of
  functions here; \<open>TestVrf\<close> is the implementation in this file of the code, the Ristretto VRF
  wraps a third-party crate. The \<open>f64\<close> helpers are for display only and are not modelled.
\<close>

datatype leader_error =
    VrfEvaluation string
  | VrfVerification string
  | NoStake pool_id
  | EmptyDistribution

text \<open>A VRF output (\<open>[u8; 32]\<close>) and a proof are byte lists.\<close>

type_synonym vrf_output = bytes
type_synonym vrf_proof = bytes
type_synonym vrf_evaluate = "bytes \<Rightarrow> (leader_error, vrf_output \<times> vrf_proof) result"
type_synonym vrf_verify = "bytes \<Rightarrow> bytes \<Rightarrow> vrf_proof \<Rightarrow> (leader_error, vrf_output) result"

definition test_vrf_evaluate :: "'z crypto_env_scheme \<Rightarrow> bytes \<Rightarrow> vrf_evaluate" where
  "test_vrf_evaluate E seed input = Inr (sha3_256 E (seed @ input), seed)"

definition test_vrf_verify :: "'z crypto_env_scheme \<Rightarrow> vrf_verify" where
  "test_vrf_verify E vrf_pk input proof =
     (if length proof \<noteq> 32 then Inl (VrfVerification ''invalid proof length'')
      else Inr (sha3_256 E (proof @ input)))"

section \<open>The fixed-point threshold\<close>

definition LEADER_FIXED_SCALE :: u128 where
  "LEADER_FIXED_SCALE = push_bit 64 1"

definition LN_ONE_MINUS_F_MAG :: u128 where
  "LN_ONE_MINUS_F_MAG = 946194274264587207"

definition LEADER_EXP_TERMS :: nat where
  "LEADER_EXP_TERMS = 9"

text \<open>The loop of \<open>exp_neg_fixed\<close> from term \<open>k\<close> on.\<close>

function exp_loop :: "u128 \<Rightarrow> nat \<Rightarrow> u128 \<Rightarrow> u128 \<Rightarrow> bool \<Rightarrow> u128" where
  "exp_loop m k trm acc subtract =
     (if k \<le> LEADER_EXP_TERMS then
        let trm' = (case checked_div_w (drop_bit 64 (sat_mul trm m)) (of_nat k) of Some t \<Rightarrow> t | None \<Rightarrow> 0);
            acc' = (if subtract then sat_sub acc trm' else sat_add acc trm')
        in exp_loop m (Suc k) trm' acc' (\<not> subtract)
      else acc)"
  by pat_completeness auto
termination
  by (relation "measure (\<lambda>(_, k, _). Suc LEADER_EXP_TERMS - k)") auto

declare exp_loop.simps [simp del]

definition exp_neg_fixed :: "u128 \<Rightarrow> u128" where
  "exp_neg_fixed m = exp_loop m 1 LEADER_FIXED_SCALE LEADER_FIXED_SCALE True"

definition leader_threshold_fixed :: "u64 \<Rightarrow> u64 \<Rightarrow> u128" where
  "leader_threshold_fixed stake_num stake_den =
     (let m = (case checked_div_w (sat_mul (ucast stake_num) LN_ONE_MINUS_F_MAG) (ucast stake_den) of
                 Some v \<Rightarrow> v | None \<Rightarrow> 0)
      in sat_sub LEADER_FIXED_SCALE (exp_neg_fixed m))"

definition leader_vrf_value :: "vrf_output \<Rightarrow> u128" where
  "leader_vrf_value out = of_nat (le_val (rev (take 8 out)))"

definition is_slot_leader :: "u64 \<Rightarrow> u64 \<Rightarrow> vrf_output \<Rightarrow> bool" where
  "is_slot_leader stake_num stake_den out =
     (if stake_num = 0 \<or> stake_den = 0 then False
      else leader_vrf_value out < leader_threshold_fixed stake_num stake_den)"

section \<open>Leadership\<close>

definition vrf_input :: "'z crypto_env_scheme \<Rightarrow> hash256 \<Rightarrow> slot \<Rightarrow> bytes" where
  "vrf_input E nonce s =
     sha3_256 E (map (\<lambda>c. of_char c) ''QV-VRF'' @ hbytes nonce @ rev (le_bytes 8 (unat s)))"

definition check_leadership ::
  "'z crypto_env_scheme \<Rightarrow> vrf_evaluate \<Rightarrow> pool_id \<Rightarrow> hash256 \<Rightarrow> slot \<Rightarrow> stake_distribution \<Rightarrow>
     (leader_error, (vrf_output \<times> vrf_proof) option) result" where
  "check_leadership E ev pool nonce s dist =
     (if stake_is_empty dist then Inl EmptyDistribution
      else let (stake_num, stake_den) = relative_stake dist pool in
        if stake_num = 0 then Inl (NoStake pool)
        else bind_res (ev (vrf_input E nonce s)) (\<lambda>(out, proof).
          if is_slot_leader stake_num stake_den out then Inr (Some (out, proof)) else Inr None))"

definition verify_leadership ::
  "'z crypto_env_scheme \<Rightarrow> vrf_verify \<Rightarrow> bytes \<Rightarrow> pool_id \<Rightarrow> hash256 \<Rightarrow> slot \<Rightarrow> vrf_proof \<Rightarrow>
     stake_distribution \<Rightarrow> (leader_error, bool) result" where
  "verify_leadership E vf vrf_pk pool nonce s proof dist =
     (if stake_is_empty dist then Inl EmptyDistribution
      else let (stake_num, stake_den) = relative_stake dist pool in
        if stake_num = 0 then Inl (NoStake pool)
        else bind_res (vf vrf_pk (vrf_input E nonce s) proof) (\<lambda>out.
          Inr (is_slot_leader stake_num stake_den out)))"

section \<open>Producer and validator agree\<close>

text \<open>What leader election needs of a VRF: a proof made with a good key verifies to its output.\<close>

locale vrf_scheme =
  fixes ev :: "'k \<Rightarrow> vrf_evaluate"
    and vf :: vrf_verify
    and pk_of :: "'k \<Rightarrow> bytes"
    and good :: "'k \<Rightarrow> bool"
  assumes verify_evaluate:
    "good k \<Longrightarrow> ev k input = Inr (out, proof) \<Longrightarrow> vf (pk_of k) input proof = Inr out"
begin

lemma elected_verifies:
  assumes "good k" and "check_leadership E (ev k) pool nonce s dist = Inr (Some (out, proof))"
  shows "verify_leadership E vf (pk_of k) pool nonce s proof dist = Inr True"
  using assms by (auto simp: check_leadership_def verify_leadership_def res_simps
      split: if_splits prod.splits dest!: verify_evaluate)

lemma not_elected_rejected:
  assumes "good k" and "check_leadership E (ev k) pool nonce s dist = Inr None"
    and "ev k (vrf_input E nonce s) = Inr (out, proof)"
  shows "verify_leadership E vf (pk_of k) pool nonce s proof dist = Inr False"
  using assms by (auto simp: check_leadership_def verify_leadership_def res_simps
      split: if_splits prod.splits dest!: verify_evaluate)

end

interpretation test_vrf: vrf_scheme "test_vrf_evaluate E" "test_vrf_verify E" "\<lambda>_. []"
  "\<lambda>seed. length seed = 32" for E :: "'z crypto_env_scheme"
  by unfold_locales (auto simp: test_vrf_evaluate_def test_vrf_verify_def)

text \<open>
  Producer and validator agree on leadership. A producer whose check with the deterministic
  VRF elects it obtains a proof that every validator with the same nonce and distribution
  accepts; and when its check does not elect it, the proof it holds is refused.
\<close>

theorem leadership_agreement:
  assumes "length seed = 32"
  shows "(check_leadership E (test_vrf_evaluate E seed) pool nonce s dist = Inr (Some (out, proof)) \<longrightarrow>
      verify_leadership E (test_vrf_verify E) [] pool nonce s proof dist = Inr True) \<and>
    (check_leadership E (test_vrf_evaluate E seed) pool nonce s dist = Inr None \<longrightarrow>
      verify_leadership E (test_vrf_verify E) [] pool nonce s seed dist = Inr False)"
proof (intro conjI impI)
  assume *: "check_leadership E (test_vrf_evaluate E seed) pool nonce s dist = Inr None"
  show "verify_leadership E (test_vrf_verify E) [] pool nonce s seed dist = Inr False"
    by (rule test_vrf.not_elected_rejected [OF assms *]) (simp add: test_vrf_evaluate_def)
qed (rule test_vrf.elected_verifies [OF assms])

section \<open>The threshold is exact fixed-point arithmetic\<close>

text \<open>The terms of the series as unbounded numbers.\<close>

fun exp_term :: "nat \<Rightarrow> nat \<Rightarrow> nat" where
  "exp_term m 0 = 2 ^ 64"
| "exp_term m (Suc k) = exp_term m k * m div 2 ^ 64 div Suc k"

definition alt_sum :: "nat \<Rightarrow> nat \<Rightarrow> int" where
  "alt_sum m n = (\<Sum>k<n. (- 1) ^ k * int (exp_term m k))"

lemma exp_term_1: "exp_term m 1 = m"
  by simp

lemma exp_term_decreasing:
  assumes "m \<le> 2 ^ 64"
  shows "exp_term m (Suc k) \<le> exp_term m k"
proof -
  have "exp_term m k * m div 2 ^ 64 \<le> exp_term m k * 2 ^ 64 div 2 ^ 64"
    using assms by (intro div_le_mono mult_le_mono2)
  then have "exp_term m k * m div 2 ^ 64 \<le> exp_term m k" by simp
  then show ?thesis by (metis div_le_dividend exp_term.simps(2) le_trans)
qed

lemma exp_term_le:
  assumes "m \<le> 2 ^ 64"
  shows "exp_term m (Suc k) \<le> m"
proof (induction k)
  case (Suc k)
  with exp_term_decreasing [OF assms, of "Suc k"] show ?case by linarith
qed simp

lemma alt_sum_near:
  assumes "m \<le> 2 ^ 60"
  shows "\<bar>alt_sum m (Suc n) - 2 ^ 64\<bar> \<le> int n * 2 ^ 60"
proof (induction n)
  case (Suc n)
  have "exp_term m (Suc n) \<le> 2 ^ 60" using exp_term_le [of m n] assms by simp
  then have "int (exp_term m (Suc n)) \<le> 2 ^ 60" by (simp del: exp_term.simps)
  moreover have "alt_sum m (Suc (Suc n)) =
      alt_sum m (Suc n) + (- 1) ^ Suc n * int (exp_term m (Suc n))"
    by (simp add: alt_sum_def)
  moreover have "(- 1 :: int) ^ Suc n = 1 \<or> (- 1 :: int) ^ Suc n = - 1"
    by (cases "even n") auto
  ultimately show ?case using Suc by (auto simp: algebra_simps simp del: power_Suc)
qed (simp add: alt_sum_def)

lemma exp_loop_exact:
  assumes "unat m \<le> 2 ^ 60" and "1 \<le> k" and "k \<le> 10"
    and "unat trm = exp_term (unat m) (k - 1)" and "int (unat acc) = alt_sum (unat m) k"
    and "subtract \<longleftrightarrow> odd k"
  shows "int (unat (exp_loop m k trm acc subtract)) = alt_sum (unat m) 10"
  using assms
proof (induction "10 - k" arbitrary: k trm acc subtract)
  case 0
  then have "k = 10" by simp
  with "0.prems" show ?case by (subst exp_loop.simps) (simp add: LEADER_EXP_TERMS_def)
next
  case (Suc n)
  then have k9: "k \<le> 9" by simp
  let ?M = "unat m"
  obtain j where j: "k = Suc j" using Suc.prems(2) by (cases k) auto
  have trm: "unat trm = exp_term ?M j" using Suc.prems(4) j by simp
  have "exp_term ?M j \<le> 2 ^ 64"
    using exp_term_le [of ?M "j - 1"] Suc.prems(1) by (cases j) auto
  then have "unat trm * unat m \<le> 2 ^ 64 * 2 ^ 60" unfolding trm using Suc.prems(1) by (rule mult_le_mono)
  then have prod: "unat (sat_mul trm m) = unat trm * ?M" by (simp add: int_simps)
  define trm' where "trm' = drop_bit 64 (sat_mul trm m) div of_nat k"
  have "unat (of_nat k :: u128) = k" using k9 by (intro unat_of_nat_small) simp
  then have "unat trm' = exp_term ?M k"
    by (simp add: trm'_def unat_div unat_drop_bit_eq drop_bit_eq_div prod trm j)
  moreover have k0: "(of_nat k :: u128) \<noteq> 0"
    using \<open>unat (of_nat k :: u128) = k\<close> Suc.prems(2) by fastforce
  ultimately have t': "unat trm' = exp_term ?M k" by simp
  define acc' where "acc' = (if subtract then sat_sub acc trm' else sat_add acc trm')"
  have sum: "alt_sum ?M (Suc k) = alt_sum ?M k + (- 1) ^ k * int (exp_term ?M k)"
    by (simp add: alt_sum_def)
  have tle: "int (exp_term ?M k) \<le> 2 ^ 60" using exp_term_le [of ?M j] Suc.prems(1) j by simp
  have near: "\<bar>alt_sum ?M k - 2 ^ 64\<bar> \<le> int j * 2 ^ 60"
    using alt_sum_near [OF Suc.prems(1), of j] j by simp
  have "int j * 2 ^ 60 \<le> 9 * 2 ^ 60" using k9 j by simp
  with near have b: "2 ^ 60 \<le> alt_sum ?M k" "alt_sum ?M k \<le> 2 ^ 65" by auto
  have acc': "int (unat acc') = alt_sum ?M (Suc k)"
  proof (cases "odd k")
    case True
    have "exp_term ?M k \<le> unat acc" using b(1) tle Suc.prems(5) by linarith
    then show ?thesis
      using True Suc.prems(5,6) by (simp add: acc'_def int_simps t' sum of_nat_diff)
  next
    case False
    have "unat acc \<le> 2 ^ 65"
      using b(2) Suc.prems(5) by (metis of_nat_le_iff of_nat_numeral of_nat_power)
    then have "unat acc + exp_term ?M k < 2 ^ 128" using tle by simp
    then show ?thesis
      using False Suc.prems(5,6) by (simp add: acc'_def int_simps t' sum min_def)
  qed
  have "exp_loop m k trm acc subtract = exp_loop m (Suc k) trm' acc' (\<not> subtract)"
    using k9 k0 by (subst exp_loop.simps)
      (simp add: LEADER_EXP_TERMS_def checked_div_w_def trm'_def acc'_def Let_def)
  moreover have "int (unat (exp_loop m (Suc k) trm' acc' (\<not> subtract))) = alt_sum ?M 10"
    using Suc.hyps Suc.prems k9 t' acc' by (intro Suc.hyps(1)) auto
  ultimately show ?case by simp
qed

lemma exp_neg_fixed_exact:
  assumes "unat m \<le> 2 ^ 60"
  shows "int (unat (exp_neg_fixed m)) = alt_sum (unat m) 10"
proof -
  have "unat LEADER_FIXED_SCALE = 2 ^ 64" by (simp add: LEADER_FIXED_SCALE_def)
  then show ?thesis
    unfolding exp_neg_fixed_def using assms by (intro exp_loop_exact) (simp_all add: alt_sum_def)
qed

lemma alt_sum_10:
  "alt_sum m 10 = 2 ^ 64 - int (exp_term m 1) + int (exp_term m 2) - int (exp_term m 3) +
     int (exp_term m 4) - int (exp_term m 5) + int (exp_term m 6) - int (exp_term m 7) +
     int (exp_term m 8) - int (exp_term m 9)"
  by (simp add: alt_sum_def lessThan_nat_numeral lessThan_Suc del: exp_term.simps(2))

lemma leader_threshold_series:
  assumes "stake_num \<le> stake_den" and "stake_den \<noteq> 0"
  shows "let m = unat stake_num * 946194274264587207 div unat stake_den;
             t = unat (leader_threshold_fixed stake_num stake_den)
    in int t = 2 ^ 64 - alt_sum m 10 \<and> m - m * m div 2 ^ 65 \<le> t \<and> t \<le> m"
proof -
  let ?n = "unat stake_num" and ?d = "unat stake_den" and ?L = "946194274264587207 :: nat"
  define m where "m = ?n * ?L div ?d"
  have d: "0 < ?d" "?n \<le> ?d" using assms by (simp_all add: unat_gt_0 word_le_nat_alt)
  have "m \<le> ?d * ?L div ?d" unfolding m_def using d(2) by (intro div_le_mono mult_le_mono1)
  then have "m \<le> ?L" using d(1) by simp
  then have m60: "m \<le> 2 ^ 60" by simp
  have u: "unat (ucast (x :: u64) :: u128) = unat x" for x
    using unat_bound [of x] by (simp add: unsigned_ucast_eq take_bit_nat_eq_self)
  have "?n * ?L < 2 ^ 64 * 2 ^ 60" using unat_bound [of stake_num] by (intro mult_strict_mono) auto
  then have sm: "unat (sat_mul (ucast stake_num) LN_ONE_MINUS_F_MAG) = ?n * ?L"
    by (simp add: int_simps u LN_ONE_MINUS_F_MAG_def)
  define w where "w = sat_mul (ucast stake_num) LN_ONE_MINUS_F_MAG div (ucast stake_den :: u128)"
  have w: "unat w = m" by (simp add: w_def unat_div sm u m_def)
  have "(ucast stake_den :: u128) \<noteq> 0" using u [of stake_den] d(1) by fastforce
  then have t: "leader_threshold_fixed stake_num stake_den = sat_sub LEADER_FIXED_SCALE (exp_neg_fixed w)"
    by (simp add: leader_threshold_fixed_def checked_div_w_def w_def)
  have e: "int (unat (exp_neg_fixed w)) = alt_sum m 10"
    using exp_neg_fixed_exact [of w] m60 by (simp add: w)
  have m64: "m \<le> 2 ^ 64" using m60 by simp
  note dec = exp_term_decreasing [OF m64]
  have c: "exp_term m 2 \<le> exp_term m 1" "exp_term m 3 \<le> exp_term m 2" "exp_term m 4 \<le> exp_term m 3" "exp_term m 5 \<le> exp_term m 4"
    "exp_term m 6 \<le> exp_term m 5" "exp_term m 7 \<le> exp_term m 6" "exp_term m 8 \<le> exp_term m 7"
    "exp_term m 9 \<le> exp_term m 8"
    using dec [of 1] dec [of 2] dec [of 3] dec [of 4] dec [of 5] dec [of 6] dec [of 7] dec [of 8]
    by (simp_all add: eval_nat_numeral del: exp_term.simps)
  have "exp_term m 2 = m * m div 2 ^ 64 div 2" by (simp add: numeral_2_eq_2)
  also have "\<dots> = m * m div (2 ^ 64 * 2)" by (rule div_mult2_eq [symmetric])
  finally have t2: "exp_term m 2 = m * m div 2 ^ 65" by simp
  have s: "alt_sum m 10 \<le> 2 ^ 64" "2 ^ 64 - alt_sum m 10 \<le> int m"
    "int m - int (exp_term m 2) \<le> 2 ^ 64 - alt_sum m 10"
    using c exp_term_1 [of m] by (auto simp: alt_sum_10 simp del: exp_term.simps)
  have scale: "unat LEADER_FIXED_SCALE = 2 ^ 64" by (simp add: LEADER_FIXED_SCALE_def)
  have ti: "int (unat (leader_threshold_fixed stake_num stake_den)) = 2 ^ 64 - alt_sum m 10"
  proof -
    have "unat (exp_neg_fixed w) \<le> 2 ^ 64"
      using s(1) e by (metis of_nat_le_iff of_nat_numeral of_nat_power)
    then show ?thesis unfolding t unat_sat_sub scale
      by (simp only: of_nat_diff e of_nat_power of_nat_numeral)
  qed
  then have "m - m * m div 2 ^ 65 \<le> unat (leader_threshold_fixed stake_num stake_den)"
    "unat (leader_threshold_fixed stake_num stake_den) \<le> m"
    using s(2,3) unfolding t2 [symmetric] by linarith+
  then show ?thesis
    using ti by (simp add: Let_def m_def)
qed

text \<open>
  C31. The leader threshold. For a relative stake of at most one, none of the saturating \<open>u128\<close>
  operations saturates: the threshold is exactly the nine-term alternating series over floors.
  With \<open>m\<close> the stake's share of \<open>|ln(1 - f)|\<close> in units of \<open>2^-64\<close>, it lies between
  \<open>m - m^2 / 2^65\<close> and \<open>m\<close>; no pool without stake is ever elected.
\<close>

theorem leader_threshold_exact:
  assumes "stake_num \<le> stake_den" and "stake_den \<noteq> 0"
  shows "let m = unat stake_num * 946194274264587207 div unat stake_den;
             t = unat (leader_threshold_fixed stake_num stake_den)
    in int t = 2 ^ 64 - alt_sum m 10 \<and> m - m * m div 2 ^ 65 \<le> t \<and> t \<le> m \<and>
       (\<forall>out. \<not> is_slot_leader 0 stake_den out)"
  using leader_threshold_series [OF assms] by (simp add: Let_def is_slot_leader_def)

theorem leader_threshold_exact_witness:
  "(1 :: u64) \<le> 2 \<and> unat (leader_threshold_fixed 1 2) \<le> 473097137132293603"
  using leader_threshold_exact [of 1 2] by (simp add: Let_def)

definition solo_distribution :: stake_distribution where
  "solo_distribution = \<lparr>sd_epoch = 0, sd_pool_stakes = [(hash_zero, 1)], sd_total_stake = 1\<rparr>"

lemma le_val_zeros: "le_val (replicate n 0) = 0"
  by (induction n) auto

definition zero_env :: crypto_env where
  "zero_env =
     \<lparr>sha3_256 = (\<lambda>_. replicate 32 0), blake3_256 = (\<lambda>_. replicate 32 0), mldsa_pk_len = (\<lambda>_. 2),
      mldsa_sig_len = (\<lambda>_. 2), mldsa_verify = (\<lambda>_ pk _ sg. pk = sg)\<rparr>"

theorem leadership_agreement_witness:
  "check_leadership zero_env (test_vrf_evaluate zero_env (replicate 32 0)) hash_zero hash_zero 4
     solo_distribution = Inr (Some (replicate 32 0, replicate 32 0)) \<and>
   verify_leadership zero_env (test_vrf_verify zero_env) [] hash_zero hash_zero 4 (replicate 32 0)
     solo_distribution = Inr True"
proof -
  have "0 < unat (leader_threshold_fixed 1 1)"
    using leader_threshold_series [of 1 1] by (simp add: Let_def)
  then have "is_slot_leader 1 1 (replicate 32 0)"
    by (simp add: is_slot_leader_def leader_vrf_value_def word_less_nat_alt le_val_zeros)
  then have "check_leadership zero_env (test_vrf_evaluate zero_env (replicate 32 0)) hash_zero hash_zero 4
     solo_distribution = Inr (Some (replicate 32 0, replicate 32 0))"
    by (simp add: check_leadership_def stake_is_empty_def solo_distribution_def relative_stake_def
        pool_stake_def test_vrf_evaluate_def zero_env_def)
  then show ?thesis
    using leadership_agreement [of "replicate 32 0" zero_env hash_zero hash_zero 4 solo_distribution]
    by auto
qed

end
