(* ===== verification/QV_Chain.thy ===== *)
theory QV_Chain
  imports QV_Params "HOL-Library.Product_Lexorder"
begin

text \<open>
  \<open>qv-consensus/src/chain_state.rs\<close>: the header tree, longest-chain fork choice, sticky
  finality and equivocation evidence, and the deep-fork rule \<open>maxvalid_bg\<close>. The walks along
  parent links are \<open>loop\<close>s in the code; here they are partial functions whose value \<open>None\<close>
  is not returning. \<open>None\<close> is also the panic of \<open>tip()\<close> on a missing entry, so a theorem that
  an operation returns \<open>Some\<close> excludes both.
\<close>

section \<open>Data\<close>

record chain_entry =
  ce_hash :: block_hash
  ce_parent_hash :: block_hash
  ce_height :: height
  ce_slot :: slot
  ce_producer :: hash256

record equivocation_proof =
  eq_slot :: slot
  eq_producer :: hash256
  eq_first :: block_hash
  eq_second :: block_hash

datatype chain_error =
    UnknownParent block_hash
  | DuplicateBlock block_hash
  | ConflictsWithFinalized u64 u64

type_synonym entry_map = "(block_hash, chain_entry) btree"

record chain_state =
  cs_entries :: entry_map
  cs_tip :: block_hash
  cs_k_finality :: u64
  cs_final_hash :: block_hash
  cs_final_height :: height
  cs_slot_producers :: "(u64 \<times> hash256, block_hash) btree"
  cs_equivocations :: "(u64 \<times> hash256, equivocation_proof) btree"

definition chain_new :: "chain_entry \<Rightarrow> consensus_params \<Rightarrow> chain_state" where
  "chain_new genesis params =
     \<lparr>cs_entries = bt_insert (ce_hash genesis) genesis [], cs_tip = ce_hash genesis,
      cs_k_finality = k_finality params, cs_final_hash = ce_hash genesis,
      cs_final_height = ce_height genesis, cs_slot_producers = [], cs_equivocations = []\<rparr>"

definition chain_genesis :: "consensus_params \<Rightarrow> chain_state" where
  "chain_genesis params = chain_new
     \<lparr>ce_hash = hash_zero, ce_parent_hash = hash_zero, ce_height = 0, ce_slot = 0,
      ce_producer = hash_zero\<rparr> params"

definition tip_entry :: "chain_state \<Rightarrow> chain_entry option" where
  "tip_entry s = bt_get (cs_entries s) (cs_tip s)"

definition chain_get :: "chain_state \<Rightarrow> block_hash \<Rightarrow> chain_entry option" where
  "chain_get s h = bt_get (cs_entries s) h"

section \<open>Walking the tree\<close>

partial_function (option) ancestor_walk ::
  "entry_map \<Rightarrow> block_hash \<Rightarrow> u64 \<Rightarrow> block_hash \<Rightarrow> bool option" where
  "ancestor_walk es ancestor target_height cur =
     (if cur = ancestor then Some True
      else case bt_get es cur of
        None \<Rightarrow> Some False
      | Some e \<Rightarrow>
          if ce_height e \<le> target_height then Some False
          else if cur = ce_parent_hash e then Some False
          else ancestor_walk es ancestor target_height (ce_parent_hash e))"

definition is_ancestor :: "chain_state \<Rightarrow> block_hash \<Rightarrow> block_hash \<Rightarrow> bool option" where
  "is_ancestor s ancestor descendant =
     (case bt_get (cs_entries s) ancestor of
        None \<Rightarrow> Some False
      | Some e \<Rightarrow> ancestor_walk (cs_entries s) ancestor (ce_height e) descendant)"

definition is_final :: "chain_state \<Rightarrow> block_hash \<Rightarrow> bool option" where
  "is_final s h = is_ancestor s h (cs_final_hash s)"

text \<open>The walk of \<open>advance_finality\<close>; the inner option is \<open>None\<close> where the code returns early.\<close>

partial_function (option) finality_walk ::
  "entry_map \<Rightarrow> u64 \<Rightarrow> block_hash \<Rightarrow> (block_hash \<times> height) option option" where
  "finality_walk es target cur =
     (case bt_get es cur of
        None \<Rightarrow> Some None
      | Some e \<Rightarrow>
          if ce_height e = target then Some (Some (cur, ce_height e))
          else if ce_height e < target \<or> cur = ce_parent_hash e then Some None
          else finality_walk es target (ce_parent_hash e))"

definition advance_finality :: "chain_state \<Rightarrow> chain_state option" where
  "advance_finality s =
     Option.bind (tip_entry s) (\<lambda>t.
       case checked_sub_w (ce_height t) (cs_k_finality s) of
         None \<Rightarrow> Some s
       | Some target \<Rightarrow>
           if target \<le> cs_final_height s then Some s
           else Option.bind (finality_walk (cs_entries s) target (cs_tip s)) (\<lambda>r.
             case r of
               None \<Rightarrow> Some s
             | Some (h, ht) \<Rightarrow> Some (s\<lparr>cs_final_hash := h, cs_final_height := ht\<rparr>)))"

definition record_equivocation :: "slot \<Rightarrow> hash256 \<Rightarrow> block_hash \<Rightarrow> chain_state \<Rightarrow> chain_state" where
  "record_equivocation sl producer h s =
     (let key = (sl, producer) in
      case bt_get (cs_slot_producers s) key of
        Some first \<Rightarrow>
          if first \<noteq> h \<and> bt_get (cs_equivocations s) key = None
          then s\<lparr>cs_equivocations := bt_insert key
                 \<lparr>eq_slot = sl, eq_producer = producer, eq_first = first, eq_second = h\<rparr>
                 (cs_equivocations s)\<rparr>
          else s
      | None \<Rightarrow> s\<lparr>cs_slot_producers := bt_insert key h (cs_slot_producers s)\<rparr>)"

definition add_block :: "chain_state \<Rightarrow> chain_entry \<Rightarrow> (chain_error, bool \<times> chain_state) result option" where
  "add_block s e =
     (if \<not> bt_has (cs_entries s) (ce_parent_hash e) \<and> ce_hash e \<noteq> hash_zero
      then Some (Inl (UnknownParent (ce_parent_hash e)))
      else if bt_has (cs_entries s) (ce_hash e) then Some (Inl (DuplicateBlock (ce_hash e)))
      else Option.bind
        (if ce_hash e \<noteq> hash_zero then is_ancestor s (cs_final_hash s) (ce_parent_hash e) else Some True)
        (\<lambda>descends.
          if \<not> descends then Some (Inl (ConflictsWithFinalized (cs_final_height s) (ce_height e)))
          else
            let s1 = s\<lparr>cs_entries := bt_insert (ce_hash e) e (cs_entries s)\<rparr>;
                s2 = record_equivocation (ce_slot e) (ce_producer e) (ce_hash e) s1
            in Option.bind (tip_entry s2) (\<lambda>t.
              let becomes_tip =
                (if ce_height t < ce_height e then True
                 else if ce_height e = ce_height t then ce_hash e < cs_tip s2
                 else False)
              in if becomes_tip
                 then map_option (\<lambda>s3. Inr (True, s3)) (advance_finality (s2\<lparr>cs_tip := ce_hash e\<rparr>))
                 else Some (Inr (False, s2)))))"

fun ancestors_from :: "entry_map \<Rightarrow> nat \<Rightarrow> block_hash \<Rightarrow> chain_entry list" where
  "ancestors_from es 0 cur = []"
| "ancestors_from es (Suc n) cur =
     (case bt_get es cur of
        None \<Rightarrow> []
      | Some e \<Rightarrow> e # (if cur = ce_parent_hash e then [] else ancestors_from es n (ce_parent_hash e)))"

definition ancestors :: "chain_state \<Rightarrow> block_hash \<Rightarrow> nat \<Rightarrow> chain_entry list" where
  "ancestors s h n = ancestors_from (cs_entries s) n h"

definition canonical_chain :: "chain_state \<Rightarrow> chain_entry list" where
  "canonical_chain s = rev (ancestors s (cs_tip s) (length (cs_entries s)))"

definition chain_density :: "chain_state \<Rightarrow> block_hash \<Rightarrow> u64 \<Rightarrow> u64" where
  "chain_density s tip_hash window =
     (case bt_get (cs_entries s) tip_hash of
        None \<Rightarrow> 0
      | Some t \<Rightarrow>
          let min_slot = sat_sub (ce_slot t) window
          in of_nat (length (filter (\<lambda>e. min_slot < ce_slot e) (ancestors s tip_hash (unat window)))))"

section \<open>Deep forks and header sync\<close>

datatype chain_preference = KeepLocal | AdoptCandidate

definition DEFAULT_MAXVALID_WINDOW_SLOTS :: u64 where
  "DEFAULT_MAXVALID_WINDOW_SLOTS = 2160"

definition common_prefix_len :: "chain_entry list \<Rightarrow> chain_entry list \<Rightarrow> nat" where
  "common_prefix_len loc cand =
     length (takeWhile (\<lambda>(a, b). ce_hash a = ce_hash b) (zip loc cand))"

definition density_in_window :: "chain_entry list \<Rightarrow> nat \<Rightarrow> u64 \<Rightarrow> u64 \<Rightarrow> nat" where
  "density_in_window chain common fork_slot window_end =
     min (length (filter (\<lambda>e. fork_slot < ce_slot e \<and> ce_slot e \<le> window_end) (drop common chain)))
       (2 ^ 64 - 1)"

definition longer_chain :: "chain_entry list \<Rightarrow> chain_entry list \<Rightarrow> chain_preference" where
  "longer_chain loc cand =
     (if length loc < length cand then AdoptCandidate
      else if length cand < length loc then KeepLocal
      else if cand \<noteq> [] \<and> loc \<noteq> [] \<and> ce_hash (last cand) < ce_hash (last loc) then AdoptCandidate
      else KeepLocal)"

definition maxvalid_bg :: "chain_entry list \<Rightarrow> chain_entry list \<Rightarrow> u64 \<Rightarrow> u64 \<Rightarrow> chain_preference" where
  "maxvalid_bg loc cand k s =
     (let common = common_prefix_len loc cand in
      if common = 0 then KeepLocal
      else if length loc \<le> common - 1 then KeepLocal
      else
        let fork_slot = ce_slot (loc ! (common - 1));
            local_after = min (length loc - common) (2 ^ 64 - 1)
        in if local_after \<le> unat k then longer_chain loc cand
           else
             let window_end = sat_add fork_slot s
             in if density_in_window loc common fork_slot window_end <
                   density_in_window cand common fork_slot window_end
                then AdoptCandidate else KeepLocal)"

text \<open>
  \<open>build_locator\<close>: the loop state is the index, the step and the number of hashes pushed so far.
  The step saturates at \<open>usize::MAX\<close>. It starts at one and never becomes zero, so the branch
  for a zero stride, on which the code would not end, is never taken.
\<close>

function locator_loop :: "chain_entry list \<Rightarrow> nat \<Rightarrow> nat \<Rightarrow> nat \<Rightarrow> block_hash list" where
  "locator_loop chain idx step pushed =
     (let here = (if idx < length chain then [ce_hash (chain ! idx)] else []);
          pushed' = pushed + length here
      in here @
        (if idx = 0 then []
         else
           let stride = (if pushed' < 10 then 1 else step);
               step' = (if 10 \<le> pushed' then min (step * 2) (2 ^ 64 - 1) else step)
           in if stride = 0 then [] else locator_loop chain (idx - stride) step' pushed'))"
  by pat_completeness auto
termination
  by (relation "measure (\<lambda>(_, idx, _, _). idx)") (auto simp: Let_def)

declare locator_loop.simps [simp del]

definition build_locator :: "chain_entry list \<Rightarrow> block_hash list" where
  "build_locator chain = (if chain = [] then [] else locator_loop chain (length chain - 1) 1 0)"

fun find_map :: "('a \<Rightarrow> 'b option) \<Rightarrow> 'a list \<Rightarrow> 'b option" where
  "find_map f [] = None"
| "find_map f (x # xs) = (case f x of Some y \<Rightarrow> Some y | None \<Rightarrow> find_map f xs)"

fun position :: "('a \<Rightarrow> bool) \<Rightarrow> 'a list \<Rightarrow> nat option" where
  "position p [] = None"
| "position p (x # xs) = (if p x then Some 0 else map_option Suc (position p xs))"

fun take_headers :: "block_hash \<Rightarrow> nat \<Rightarrow> chain_entry list \<Rightarrow> block_hash list" where
  "take_headers stop room [] = []"
| "take_headers stop room (e # es) =
     (if room = 0 then []
      else ce_hash e #
        (if stop \<noteq> hash_zero \<and> ce_hash e = stop then [] else take_headers stop (room - 1) es))"

definition select_headers_for_locator ::
  "chain_entry list \<Rightarrow> block_hash list \<Rightarrow> block_hash \<Rightarrow> nat \<Rightarrow> block_hash list" where
  "select_headers_for_locator chain locator stop mx =
     (let start_idx = (case find_map (\<lambda>h. position (\<lambda>e. ce_hash e = h) chain) locator of
                         None \<Rightarrow> 0 | Some pos \<Rightarrow> pos + 1)
      in take_headers stop mx (drop start_idx chain))"

end
