(* ===== verification/QV_ChainProps.thy ===== *)
theory QV_ChainProps
  imports QV_Chain
begin

text \<open>
  Safety of the chain state: ancestry in a tree of blocks, the invariant that every accepted
  block preserves, permanence of finality and determinism of the fork choice.
\<close>

section \<open>Ancestry in a block tree\<close>

text \<open>
  The interface: in a state that satisfies the invariant, the parent link lowers the height by
  one. Everything about ancestry follows from that.
\<close>

locale block_tree =
  fixes inv :: "'s \<Rightarrow> bool"
    and par :: "'s \<Rightarrow> 'h \<Rightarrow> 'h option"
    and ht :: "'s \<Rightarrow> 'h \<Rightarrow> nat"
  assumes par_height: "inv s \<Longrightarrow> par s h = Some p \<Longrightarrow> ht s h = Suc (ht s p)"
begin

abbreviation anc :: "'s \<Rightarrow> 'h \<Rightarrow> 'h \<Rightarrow> bool" where
  "anc s \<equiv> (\<lambda>p h. par s h = Some p)\<^sup>*\<^sup>*"

lemma anc_height:
  assumes "anc s a d" and "inv s"
  shows "ht s a \<le> ht s d \<and> (ht s a = ht s d \<longrightarrow> a = d)"
  using assms(1)
proof (induction rule: rtranclp_induct)
  case (step y z)
  with par_height [OF assms(2) step.hyps(2)] show ?case by simp
qed simp

lemma anc_parent: "par s d = Some p \<Longrightarrow> anc s a d \<longleftrightarrow> a = d \<or> anc s a p"
proof
  assume "par s d = Some p" "anc s a d"
  from this(2,1) show "a = d \<or> anc s a p" by (cases rule: rtranclp.cases) auto
qed (auto intro: rtranclp.rtrancl_into_rtrancl)

lemma anc_root: "par s d = None \<Longrightarrow> anc s a d \<longleftrightarrow> a = d"
  by (auto elim: rtranclp.cases)

lemma anc_linear:
  assumes "inv s" and "anc s b d" and "anc s a d" and "ht s a \<le> ht s b"
  shows "anc s a b"
  using assms(2-4)
proof (induction rule: rtranclp_induct)
  case (step y z)
  have "ht s b \<le> ht s y" using step.hyps(1) anc_height assms(1) by blast
  then have "a \<noteq> z" using step.prems(2) par_height [OF assms(1) step.hyps(2)] by auto
  then have "anc s a y" using step.prems(1) anc_parent [OF step.hyps(2)] by simp
  then show ?case using step.IH step.prems(2) by blast
qed simp

lemma anc_unique_height:
  "inv s \<Longrightarrow> anc s a d \<Longrightarrow> anc s b d \<Longrightarrow> ht s a = ht s b \<Longrightarrow> a = b"
  using anc_linear anc_height by (metis order.refl)

lemma anc_at_height:
  assumes "inv s" and "anc s a d" and "ht s a \<le> n" and "n \<le> ht s d"
  shows "\<exists>b. anc s b d \<and> ht s b = n \<and> anc s a b"
  using assms(2-4)
proof (induction rule: rtranclp_induct)
  case base
  then show ?case by auto
next
  case (step y z)
  show ?case
  proof (cases "n = ht s z")
    case True
    with step.hyps show ?thesis by (auto intro: rtranclp.rtrancl_into_rtrancl)
  next
    case False
    with step.prems par_height [OF assms(1) step.hyps(2)] have "n \<le> ht s y" by simp
    with step.IH step.prems(1) step.hyps(2) show ?thesis by (meson rtranclp.rtrancl_into_rtrancl)
  qed
qed

end

section \<open>The chain invariant\<close>

definition parent_of :: "chain_state \<Rightarrow> block_hash \<Rightarrow> block_hash option" where
  "parent_of s h =
     (case bt_get (cs_entries s) h of
        None \<Rightarrow> None
      | Some e \<Rightarrow>
          if ce_parent_hash e = h \<or> \<not> bt_has (cs_entries s) (ce_parent_hash e) then None
          else Some (ce_parent_hash e))"

definition height_of :: "chain_state \<Rightarrow> block_hash \<Rightarrow> nat" where
  "height_of s h = (case bt_get (cs_entries s) h of None \<Rightarrow> 0 | Some e \<Rightarrow> unat (ce_height e))"

text \<open>The tree part: entries are filed under their hash, and a linked child is one higher.\<close>

definition tree_inv :: "chain_state \<Rightarrow> bool" where
  "tree_inv s \<longleftrightarrow> bt_ok (cs_entries s) \<and>
     (\<forall>h e. bt_get (cs_entries s) h = Some e \<longrightarrow> ce_hash e = h) \<and>
     (\<forall>h p. parent_of s h = Some p \<longrightarrow> height_of s h = Suc (height_of s p))"

interpretation chain: block_tree tree_inv parent_of height_of
  by unfold_locales (simp add: tree_inv_def)

abbreviation is_anc :: "chain_state \<Rightarrow> block_hash \<Rightarrow> block_hash \<Rightarrow> bool" where
  "is_anc s \<equiv> (\<lambda>p h. parent_of s h = Some p)\<^sup>*\<^sup>*"

text \<open>The tip is known, best among all entries, and descends from the finalized block.\<close>

definition better :: "chain_state \<Rightarrow> block_hash \<Rightarrow> block_hash \<Rightarrow> bool" where
  "better s a b \<longleftrightarrow> height_of s b < height_of s a \<or> (height_of s b = height_of s a \<and> a \<le> b)"

lemma walk_exact:
  assumes inv: "tree_inv s" and a: "bt_get (cs_entries s) a = Some ea"
  shows "ancestor_walk (cs_entries s) a (ce_height ea) d = Some (is_anc s a d)"
proof (induction "height_of s d" arbitrary: d rule: less_induct)
  case less
  show ?case
  proof (cases "d = a \<or> bt_get (cs_entries s) d = None")
    case True
    then show ?thesis
    proof
      assume "bt_get (cs_entries s) d = None"
      then have "parent_of s d = None" by (simp add: parent_of_def)
      then show ?thesis
        using \<open>bt_get (cs_entries s) d = None\<close> a chain.anc_root [of s d a]
        by (subst ancestor_walk.simps) auto
    qed (subst ancestor_walk.simps, simp)
  next
    case False
    then obtain e where d: "d \<noteq> a" "bt_get (cs_entries s) d = Some e" by auto
    have hd: "height_of s d = unat (ce_height e)" "height_of s a = unat (ce_height ea)"
      using d a by (simp_all add: height_of_def)
    show ?thesis
    proof (cases "ce_height e \<le> ce_height ea")
      case True
      then have "\<not> is_anc s a d" using chain.anc_height [of s a d] inv d hd
        by (auto simp: word_le_nat_alt)
      with True d show ?thesis by (subst ancestor_walk.simps) simp
    next
      case hgt: False
      show ?thesis
      proof (cases "parent_of s d")
        case None
        have walk: "ancestor_walk (cs_entries s) a (ce_height ea) d =
            (if d = ce_parent_hash e then Some False
             else ancestor_walk (cs_entries s) a (ce_height ea) (ce_parent_hash e))"
          using d hgt by (subst ancestor_walk.simps) simp
        have "ce_parent_hash e = d \<or> bt_get (cs_entries s) (ce_parent_hash e) = None"
          using None d(2) by (auto simp: parent_of_def split: if_splits)
        then have "ancestor_walk (cs_entries s) a (ce_height ea) d = Some False"
          using a unfolding walk by (subst ancestor_walk.simps) auto
        with None d(1) show ?thesis using chain.anc_root [of s d a] by simp
      next
        case (Some p)
        then have p: "p = ce_parent_hash e" "d \<noteq> p"
          using d(2) by (auto simp: parent_of_def split: if_splits)
        have "height_of s p < height_of s d" using Some inv by (simp add: tree_inv_def)
        from less [OF this] chain.anc_parent [OF Some, of a] d hgt p show ?thesis
          by (subst ancestor_walk.simps) auto
      qed
    qed
  qed
qed

lemma is_ancestor_exact:
  "tree_inv s \<Longrightarrow> is_ancestor s a d = Some (bt_has (cs_entries s) a \<and> is_anc s a d)"
  using walk_exact by (auto simp: is_ancestor_def split: option.splits)

lemma finality_walk_exact:
  assumes inv: "tree_inv s" and "bt_has (cs_entries s) d"
    and "is_anc s b d" and "height_of s b = unat target"
  shows "finality_walk (cs_entries s) target d = Some (Some (b, target))"
  using assms(2-4)
proof (induction "height_of s d" arbitrary: d rule: less_induct)
  case less
  then obtain e where e: "bt_get (cs_entries s) d = Some e" by auto
  then have hd: "height_of s d = unat (ce_height e)" by (simp add: height_of_def)
  show ?case
  proof (cases "ce_height e = target")
    case True
    then have "b = d" using chain.anc_height [OF less.prems(2) inv] less.prems(3) hd by simp
    with True e show ?thesis by (subst finality_walk.simps) simp
  next
    case False
    then have lt: "\<not> ce_height e < target" "b \<noteq> d"
      using chain.anc_height [OF less.prems(2) inv] less.prems(3) hd
      by (auto simp: word_less_nat_alt word_unat_eq_iff)
    obtain p where p: "parent_of s d = Some p" "is_anc s b p"
      using chain.anc_root [of s d b] chain.anc_parent [of s d _ b] less.prems(2) lt(2)
      by (cases "parent_of s d") auto
    then have "p = ce_parent_hash e" "d \<noteq> p" "bt_has (cs_entries s) p"
      using e by (auto simp: parent_of_def split: if_splits)
    moreover have "height_of s p < height_of s d" using p(1) inv by (simp add: tree_inv_def)
    ultimately show ?thesis
      using less.hyps [of p] p(2) less.prems(3) False lt e by (subst finality_walk.simps) auto
  qed
qed

section \<open>Accepting a block\<close>

text \<open>
  What the block validator guarantees before the chain state sees an entry: the parent is
  known and the height is the parent's plus one. The all-zero hash is reserved for genesis.
\<close>

definition linked :: "chain_state \<Rightarrow> chain_entry \<Rightarrow> bool" where
  "linked s e \<longleftrightarrow> ce_hash e \<noteq> hash_zero \<and>
     (\<exists>pe. bt_get (cs_entries s) (ce_parent_hash e) = Some pe \<and>
        unat (ce_height e) = Suc (unat (ce_height pe)))"

lemma insert_fields:
  assumes "tree_inv s" and "linked s e" and "\<not> bt_has (cs_entries s) (ce_hash e)"
    and s': "cs_entries s' = bt_insert (ce_hash e) e (cs_entries s)"
  shows "bt_get (cs_entries s') = (bt_get (cs_entries s))(ce_hash e \<mapsto> e)"
    and "parent_of s' (ce_hash e) = Some (ce_parent_hash e)"
    and "\<And>h. bt_has (cs_entries s) h \<Longrightarrow> height_of s' h = height_of s h"
    and "\<And>h p. parent_of s h = Some p \<Longrightarrow> parent_of s' h = Some p"
proof -
  have ok: "bt_ok (cs_entries s)" using assms(1) by (simp add: tree_inv_def)
  show get: "bt_get (cs_entries s') = (bt_get (cs_entries s))(ce_hash e \<mapsto> e)"
    using s' ok by (simp add: bt_simps)
  show "parent_of s' (ce_hash e) = Some (ce_parent_hash e)"
    using assms(2,3) by (auto simp: parent_of_def get linked_def)
  show "height_of s' h = height_of s h" if "bt_has (cs_entries s) h" for h
    using that assms(3) by (auto simp: height_of_def get)
  show "parent_of s' h = Some p" if "parent_of s h = Some p" for h p
    using that assms(3) by (auto simp: parent_of_def get split: option.splits if_splits)
qed

text \<open>
  Parents of old blocks stay as they were, provided no old block named the new hash as its
  missing parent; only the root can lack a parent, so this concerns genesis alone.
\<close>

definition root_closed :: "chain_state \<Rightarrow> bool" where
  "root_closed s \<longleftrightarrow>
     (\<forall>h e. bt_get (cs_entries s) h = Some e \<longrightarrow>
        bt_has (cs_entries s) (ce_parent_hash e) \<or> ce_parent_hash e = hash_zero)"

lemma insert_tree_inv:
  assumes inv: "tree_inv s" and root: "root_closed s" and link: "linked s e"
    and new: "\<not> bt_has (cs_entries s) (ce_hash e)"
    and s': "cs_entries s' = bt_insert (ce_hash e) e (cs_entries s)"
  shows "tree_inv s' \<and> root_closed s' \<and>
    (\<forall>h. bt_has (cs_entries s) h \<longrightarrow> parent_of s' h = parent_of s h)"
proof -
  note f = insert_fields [OF inv link new s']
  have ok: "bt_ok (cs_entries s')" using inv s' by (simp add: tree_inv_def bt_simps)
  have filed: "ce_hash e' = h" if "bt_get (cs_entries s') h = Some e'" for h e'
    using that inv by (auto simp: f(1) tree_inv_def split: if_splits)
  have par: "parent_of s' h = parent_of s h" if "bt_has (cs_entries s) h" for h
  proof -
    from that obtain e' where e': "bt_get (cs_entries s) h = Some e'" by auto
    then have "bt_has (cs_entries s) (ce_parent_hash e') \<or> ce_parent_hash e' = hash_zero"
      using root unfolding root_closed_def by blast
    then have "ce_parent_hash e' \<noteq> ce_hash e" using link new by (auto simp: linked_def)
    then show ?thesis using e' new by (auto simp: parent_of_def f(1))
  qed
  have "height_of s' h = Suc (height_of s' p)" if p: "parent_of s' h = Some p" for h p
  proof (cases "bt_has (cs_entries s) h")
    case True
    with par p have ps: "parent_of s h = Some p" by simp
    then have "bt_has (cs_entries s) p" by (auto simp: parent_of_def split: option.splits if_splits)
    then show ?thesis using True ps f(3) inv by (simp add: tree_inv_def)
  next
    case False
    then have "h = ce_hash e" "p = ce_parent_hash e"
      using p f(1,2) by (auto simp: parent_of_def split: option.splits if_splits)
    then show ?thesis
      using link new f(1) by (auto simp: linked_def height_of_def)
  qed
  moreover have "root_closed s'"
    using root link by (auto simp: root_closed_def f(1) linked_def split: if_splits)
  ultimately show ?thesis using ok filed par by (auto simp: tree_inv_def)
qed

definition final_inv :: "chain_state \<Rightarrow> bool" where
  "final_inv s \<longleftrightarrow> bt_has (cs_entries s) (cs_tip s) \<and> bt_has (cs_entries s) (cs_final_hash s) \<and>
     height_of s (cs_final_hash s) = unat (cs_final_height s) \<and>
     is_anc s (cs_final_hash s) (cs_tip s)"

text \<open>
  The invariant of the chain state. The last conjunct is the depth rule: a finalized block
  other than the root lies at least \<open>k\<close> below the tip.
\<close>

definition chain_inv :: "chain_state \<Rightarrow> bool" where
  "chain_inv s \<longleftrightarrow> tree_inv s \<and> root_closed s \<and> final_inv s \<and>
     (\<forall>h. bt_has (cs_entries s) h \<longrightarrow> better s (cs_tip s) h) \<and>
     (parent_of s (cs_final_hash s) = None \<or>
      unat (cs_final_height s) + unat (cs_k_finality s) \<le> height_of s (cs_tip s))"

lemma entries_cong:
  assumes "cs_entries s' = cs_entries s"
  shows "parent_of s' = parent_of s" and "height_of s' = height_of s"
    and "tree_inv s' = tree_inv s" and "root_closed s' = root_closed s"
  unfolding fun_eq_iff parent_of_def height_of_def tree_inv_def root_closed_def assms by simp_all

lemma record_equivocation_fields [simp]:
  "cs_entries (record_equivocation sl pr h s) = cs_entries s"
  "cs_tip (record_equivocation sl pr h s) = cs_tip s"
  "cs_final_hash (record_equivocation sl pr h s) = cs_final_hash s"
  "cs_final_height (record_equivocation sl pr h s) = cs_final_height s"
  "cs_k_finality (record_equivocation sl pr h s) = cs_k_finality s"
  by (simp_all add: record_equivocation_def Let_def split: option.splits)

lemma advance_finality_ok:
  assumes inv: "tree_inv s" and fin: "final_inv s"
  shows "\<exists>s'. advance_finality s = Some s' \<and> cs_entries s' = cs_entries s \<and> cs_tip s' = cs_tip s \<and>
    cs_k_finality s' = cs_k_finality s \<and> cs_slot_producers s' = cs_slot_producers s \<and>
    cs_equivocations s' = cs_equivocations s \<and> final_inv s' \<and>
    is_anc s (cs_final_hash s) (cs_final_hash s') \<and> cs_final_height s \<le> cs_final_height s' \<and>
    (s' = s \<or> unat (cs_final_height s') + unat (cs_k_finality s) = height_of s (cs_tip s))"
proof -
  obtain t where t: "tip_entry s = Some t" "height_of s (cs_tip s) = unat (ce_height t)"
    using fin by (auto simp: final_inv_def tip_entry_def height_of_def)
  show ?thesis
  proof (cases "checked_sub_w (ce_height t) (cs_k_finality s)")
    case None
    with t fin show ?thesis by (auto simp: advance_finality_def)
  next
    case (Some target)
    then have k: "unat target + unat (cs_k_finality s) = unat (ce_height t)" by (simp add: int_simps)
    show ?thesis
    proof (cases "target \<le> cs_final_height s")
      case True
      with Some t fin show ?thesis by (auto simp: advance_finality_def)
    next
      case False
      then have lt: "unat (cs_final_height s) < unat target" by (simp add: word_le_nat_alt)
      obtain b where b: "is_anc s b (cs_tip s)" "height_of s b = unat target"
        "is_anc s (cs_final_hash s) b"
        using chain.anc_at_height [OF inv, of "cs_final_hash s" "cs_tip s" "unat target"] fin lt k t
        by (auto simp: final_inv_def)
      have walk: "finality_walk (cs_entries s) target (cs_tip s) = Some (Some (b, target))"
        using finality_walk_exact [OF inv _ b(1,2)] fin by (simp add: final_inv_def)
      have has: "bt_has (cs_entries s) b"
        using b(2) lt by (auto simp: height_of_def split: option.splits)
      define s' where "s' = s\<lparr>cs_final_hash := b, cs_final_height := target\<rparr>"
      have c: "parent_of s' = parent_of s" "height_of s' = height_of s"
        by (rule entries_cong, simp add: s'_def)+
      have "final_inv s'"
        using has b fin unfolding final_inv_def c by (simp add: s'_def)
      moreover have "advance_finality s = Some s'"
        using t Some False walk by (simp add: advance_finality_def s'_def)
      moreover have "unat (cs_final_height s') + unat (cs_k_finality s) = height_of s (cs_tip s)"
        using k t by (simp add: s'_def)
      ultimately show ?thesis
        using b(3) lt by (intro exI [of _ s']) (simp add: s'_def word_le_nat_alt)
    qed
  qed
qed

lemma better_trans: "better s a b \<Longrightarrow> better s b c \<Longrightarrow> better s a c"
  by (auto simp: better_def)

text \<open>The state after the insertion, before fork choice, keeps everything about old blocks.\<close>

lemma insert_keeps:
  assumes inv: "chain_inv s" and link: "linked s e" and new: "\<not> bt_has (cs_entries s) (ce_hash e)"
    and desc: "is_anc s (cs_final_hash s) (ce_parent_hash e)"
    and s1: "cs_entries s1 = bt_insert (ce_hash e) e (cs_entries s)" "cs_tip s1 = cs_tip s"
      "cs_final_hash s1 = cs_final_hash s" "cs_final_height s1 = cs_final_height s"
  shows "tree_inv s1 \<and> root_closed s1 \<and> final_inv s1 \<and>
    is_anc s1 (cs_final_hash s) (ce_hash e) \<and>
    (\<forall>a d. is_anc s a d \<longrightarrow> is_anc s1 a d) \<and>
    (\<forall>h. bt_has (cs_entries s) h \<longrightarrow> better s1 (cs_tip s) h) \<and>
    parent_of s1 (cs_final_hash s) = parent_of s (cs_final_hash s) \<and>
    height_of s1 (cs_tip s) = height_of s (cs_tip s)"
proof -
  have t: "tree_inv s" "root_closed s" "final_inv s" using inv by (simp_all add: chain_inv_def)
  note f = insert_fields [OF t(1) link new s1(1)]
  note tr = insert_tree_inv [OF t(1,2) link new s1(1)]
  have mono: "is_anc s1 a d" if "is_anc s a d" for a d
    using that by (rule rtranclp_mono [THEN predicate2D, rotated]) (auto dest: f(4))
  have "is_anc s1 (cs_final_hash s) (ce_hash e)"
    using mono [OF desc] f(2) by (rule rtranclp.rtrancl_into_rtrancl)
  moreover have "final_inv s1"
    using t(3) mono f(3) s1(2-4) by (auto simp: final_inv_def f(1))
  moreover have "better s1 (cs_tip s) h" if "bt_has (cs_entries s) h" for h
    using inv that f(3) by (auto simp: chain_inv_def final_inv_def better_def)
  ultimately show ?thesis using tr mono t(3) f(3) by (auto simp: final_inv_def)
qed

text \<open>Adding a linked block returns, and the cases of its result.\<close>

lemma add_block_cases:
  assumes inv: "chain_inv s" and link: "linked s e"
  shows "(bt_has (cs_entries s) (ce_hash e) \<and> add_block s e = Some (Inl (DuplicateBlock (ce_hash e)))) \<or>
    (\<not> bt_has (cs_entries s) (ce_hash e) \<and> \<not> is_anc s (cs_final_hash s) (ce_parent_hash e) \<and>
      add_block s e = Some (Inl (ConflictsWithFinalized (cs_final_height s) (ce_height e)))) \<or>
    (\<not> bt_has (cs_entries s) (ce_hash e) \<and> is_anc s (cs_final_hash s) (ce_parent_hash e) \<and>
      (\<exists>changed s'. add_block s e = Some (Inr (changed, s')) \<and> chain_inv s' \<and>
        cs_entries s' = bt_insert (ce_hash e) e (cs_entries s) \<and>
        (\<forall>a d. is_anc s a d \<longrightarrow> is_anc s' a d) \<and>
        is_anc s' (cs_final_hash s) (cs_final_hash s') \<and> cs_final_height s \<le> cs_final_height s' \<and>
        changed = (cs_tip s' \<noteq> cs_tip s) \<and>
        cs_slot_producers s' = cs_slot_producers
          (record_equivocation (ce_slot e) (ce_producer e) (ce_hash e) s) \<and>
        cs_equivocations s' = cs_equivocations
          (record_equivocation (ce_slot e) (ce_producer e) (ce_hash e) s)))"
proof (cases "bt_has (cs_entries s) (ce_hash e) \<or> \<not> is_anc s (cs_final_hash s) (ce_parent_hash e)")
  case True
  have t: "tree_inv s" "bt_has (cs_entries s) (cs_final_hash s)"
    using inv by (simp_all add: chain_inv_def final_inv_def)
  show ?thesis
    using True link t by (auto simp: add_block_def linked_def is_ancestor_exact)
next
  case False
  then have new: "\<not> bt_has (cs_entries s) (ce_hash e)"
    and desc: "is_anc s (cs_final_hash s) (ce_parent_hash e)" by auto
  have t: "tree_inv s" "final_inv s" using inv by (simp_all add: chain_inv_def)
  define s2 where "s2 = record_equivocation (ce_slot e) (ce_producer e) (ce_hash e)
    (s\<lparr>cs_entries := bt_insert (ce_hash e) e (cs_entries s)\<rparr>)"
  have s2: "cs_entries s2 = bt_insert (ce_hash e) e (cs_entries s)" "cs_tip s2 = cs_tip s"
    "cs_final_hash s2 = cs_final_hash s" "cs_final_height s2 = cs_final_height s"
    "cs_k_finality s2 = cs_k_finality s" by (simp_all add: s2_def)
  have sp: "cs_slot_producers s2 = cs_slot_producers
      (record_equivocation (ce_slot e) (ce_producer e) (ce_hash e) s)"
    "cs_equivocations s2 = cs_equivocations
      (record_equivocation (ce_slot e) (ce_producer e) (ce_hash e) s)"
    by (cases "bt_get (cs_slot_producers s) (ce_slot e, ce_producer e)";
        simp add: s2_def record_equivocation_def Let_def)+
  note keep = insert_keeps [OF inv link new desc s2(1-4)]
  note f = insert_fields [OF t(1) link new s2(1)]
  obtain te where te: "tip_entry s2 = Some te" "height_of s2 (cs_tip s) = unat (ce_height te)"
    using keep s2(2) by (auto simp: final_inv_def tip_entry_def height_of_def)
  have he: "height_of s2 (ce_hash e) = unat (ce_height e)" by (simp add: height_of_def f(1))
  have tip_ne: "cs_tip s \<noteq> ce_hash e" using new t(2) by (auto simp: final_inv_def)
  define bt where "bt \<longleftrightarrow>
    (if ce_height te < ce_height e then True
     else if ce_height e = ce_height te then ce_hash e < cs_tip s2 else False)"
  have add: "add_block s e =
      (if bt then map_option (\<lambda>s3. Inr (True, s3)) (advance_finality (s2\<lparr>cs_tip := ce_hash e\<rparr>))
       else Some (Inr (False, s2)))"
    using link new desc t te
    by (auto simp: add_block_def linked_def is_ancestor_exact final_inv_def s2_def [symmetric]
        bt_def Let_def)
  show ?thesis
  proof (cases bt)
    case False
    have "better s2 (cs_tip s) (ce_hash e)"
      using False te(2) he s2(2)
      by (auto simp: bt_def better_def word_less_nat_alt word_unat_eq_iff split: if_splits)
    then have "chain_inv s2"
      using keep inv s2 f(1) by (auto simp: chain_inv_def)
    then show ?thesis
      using new desc add False s2 keep sp by auto
  next
    case True
    define s3 where "s3 = s2\<lparr>cs_tip := ce_hash e\<rparr>"
    have c: "parent_of s3 = parent_of s2" "height_of s3 = height_of s2" "tree_inv s3 = tree_inv s2"
      "root_closed s3 = root_closed s2" by (rule entries_cong, simp add: s3_def)+
    have s3f: "cs_entries s3 = cs_entries s2" "cs_tip s3 = ce_hash e" "cs_final_hash s3 = cs_final_hash s2"
      "cs_final_height s3 = cs_final_height s2" "cs_k_finality s3 = cs_k_finality s2"
      "cs_slot_producers s3 = cs_slot_producers s2" "cs_equivocations s3 = cs_equivocations s2"
      by (simp_all add: s3_def)
    have fi: "final_inv s3"
      using keep s2 f(1) by (auto simp: final_inv_def c s3f)
    obtain s' where s': "advance_finality s3 = Some s'" "cs_entries s' = cs_entries s3"
      "cs_tip s' = cs_tip s3" "cs_k_finality s' = cs_k_finality s3"
      "cs_slot_producers s' = cs_slot_producers s3" "cs_equivocations s' = cs_equivocations s3"
      "final_inv s'" "is_anc s3 (cs_final_hash s3) (cs_final_hash s')"
      "cs_final_height s3 \<le> cs_final_height s'"
      "s' = s3 \<or> unat (cs_final_height s') + unat (cs_k_finality s3) = height_of s3 (cs_tip s3)"
      using advance_finality_ok [of s3] fi keep c by auto
    note c' = entries_cong [OF s'(2)]
    have e_tip: "better s2 (ce_hash e) (cs_tip s)" "height_of s2 (cs_tip s) \<le> height_of s2 (ce_hash e)"
      using True te(2) he s2(2)
      by (auto simp: bt_def better_def word_less_nat_alt split: if_splits)
    have best: "better s' (cs_tip s') h" if "bt_has (cs_entries s') h" for h
    proof -
      from that have "h = ce_hash e \<or> bt_has (cs_entries s) h"
        using s'(2) s2(1) f(1) by (auto simp: s3f split: if_splits)
      then have "better s2 (ce_hash e) h"
        using keep e_tip(1) by (auto simp: better_def [of s2 "ce_hash e" "ce_hash e"] intro: better_trans)
      then show ?thesis using s'(3) by (simp add: better_def c' c s3f)
    qed
    have depth: "parent_of s' (cs_final_hash s') = None \<or>
        unat (cs_final_height s') + unat (cs_k_finality s') \<le> height_of s' (cs_tip s')"
      using s'(10)
    proof
      assume "s' = s3"
      moreover from this have "parent_of s' (cs_final_hash s') = parent_of s (cs_final_hash s)"
        using keep c s2 by (simp add: s3f)
      ultimately show ?thesis
        using inv e_tip(2) keep s2 c by (auto simp: chain_inv_def s3f)
    qed (use s'(3,4) c c' in simp)
    have "chain_inv s'"
      unfolding chain_inv_def using keep c c' s'(7) best depth by auto
    moreover have "add_block s e = Some (Inr (True, s'))" using add True s'(1) by (simp add: s3_def [symmetric])
    moreover have "cs_tip s' \<noteq> cs_tip s" using s'(3) tip_ne by (auto simp: s3f)
    ultimately show ?thesis
      using new desc s' s2 keep c c' sp by (auto simp: s3f)
  qed
qed

section \<open>Sequences of blocks\<close>

text \<open>A node's history: any number of linked blocks offered and accepted one after another.\<close>

inductive chain_reach :: "chain_state \<Rightarrow> chain_state \<Rightarrow> bool" where
  reach_refl: "chain_reach s s"
| reach_add: "chain_reach s s' \<Longrightarrow> linked s' e \<Longrightarrow> add_block s' e = Some (Inr (changed, s'')) \<Longrightarrow>
    chain_reach s s''"

lemma chain_new_inv:
  assumes "ce_parent_hash g = ce_hash g \<or> ce_parent_hash g = hash_zero"
  shows "chain_inv (chain_new g params)"
proof -
  have par: "parent_of (chain_new g params) h = None" for h
    using assms by (auto simp: parent_of_def chain_new_def)
  then have "is_anc (chain_new g params) a d \<longleftrightarrow> a = d" for a d by (rule chain.anc_root)
  then show ?thesis
    using assms par
    by (auto simp: chain_inv_def tree_inv_def root_closed_def final_inv_def better_def height_of_def)
      (auto simp: chain_new_def bt_ok_def split: if_splits)
qed

lemma add_block_InrD:
  assumes "chain_inv s" and "linked s e" and "add_block s e = Some (Inr (changed, s'))"
  shows "chain_inv s' \<and> cs_entries s' = bt_insert (ce_hash e) e (cs_entries s) \<and>
    \<not> bt_has (cs_entries s) (ce_hash e) \<and>
    (\<forall>a d. is_anc s a d \<longrightarrow> is_anc s' a d) \<and>
    is_anc s' (cs_final_hash s) (cs_final_hash s') \<and> cs_final_height s \<le> cs_final_height s' \<and>
    cs_slot_producers s' = cs_slot_producers
      (record_equivocation (ce_slot e) (ce_producer e) (ce_hash e) s) \<and>
    cs_equivocations s' = cs_equivocations
      (record_equivocation (ce_slot e) (ce_producer e) (ce_hash e) s)"
  using add_block_cases [OF assms(1,2)] assms(3) by auto

lemma reach_facts:
  assumes "chain_reach s s'" and "chain_inv s"
  shows "chain_inv s' \<and> (\<forall>h. bt_has (cs_entries s) h \<longrightarrow> bt_has (cs_entries s') h) \<and>
    (\<forall>a d. is_anc s a d \<longrightarrow> is_anc s' a d) \<and>
    is_anc s' (cs_final_hash s) (cs_final_hash s') \<and> cs_final_height s \<le> cs_final_height s'"
  using assms
proof (induction rule: chain_reach.induct)
  case (reach_add s s' e changed s'')
  then have IH: "chain_inv s'" "\<And>h. bt_has (cs_entries s) h \<Longrightarrow> bt_has (cs_entries s') h"
    "\<And>a d. is_anc s a d \<Longrightarrow> is_anc s' a d" "is_anc s' (cs_final_hash s) (cs_final_hash s')"
    "cs_final_height s \<le> cs_final_height s'" by auto
  note d = add_block_InrD [OF IH(1) reach_add.hyps(2,3)]
  have "bt_ok (cs_entries s')" using IH(1) by (simp add: chain_inv_def tree_inv_def)
  then have "bt_has (cs_entries s'') h" if "bt_has (cs_entries s') h" for h
    using d that by (simp add: bt_simps)
  moreover have "is_anc s'' (cs_final_hash s) (cs_final_hash s'')"
    using d IH(4) by (meson rtranclp_trans)
  ultimately show ?case using d IH(2,3,5) by (meson order.trans)
qed auto

lemma is_final_iff:
  "chain_inv s \<Longrightarrow> is_final s h = Some (bt_has (cs_entries s) h \<and> is_anc s h (cs_final_hash s))"
  by (simp add: is_final_def is_ancestor_exact chain_inv_def)

text \<open>
  C3. Finality is permanent. From any state that satisfies the chain invariant, whatever linked
  blocks are offered and accepted, a block that is final stays final, the finalized height
  never decreases, and of any two blocks that were ever final one is an ancestor of the other:
  a node never finalizes two conflicting blocks.
\<close>

theorem finality_permanent:
  assumes "chain_inv s" and "chain_reach s s'"
  shows "(is_final s a = Some True \<longrightarrow> is_final s' a = Some True) \<and>
    cs_final_height s \<le> cs_final_height s' \<and>
    (is_final s a = Some True \<longrightarrow> is_final s' b = Some True \<longrightarrow>
       is_ancestor s' a b = Some True \<or> is_ancestor s' b a = Some True)"
proof -
  note r = reach_facts [OF assms(2,1)]
  have inv': "chain_inv s'" "tree_inv s'" using r by (auto simp: chain_inv_def)
  have keep: "bt_has (cs_entries s') a \<and> is_anc s' a (cs_final_hash s')" if "is_final s a = Some True"
    using that r is_final_iff [OF assms(1), of a] by (auto intro: rtranclp_trans)
  have "is_anc s' a b \<or> is_anc s' b a"
    if "is_anc s' a (cs_final_hash s')" "is_anc s' b (cs_final_hash s')"
    using chain.anc_linear [OF inv'(2) that(2,1)] chain.anc_linear [OF inv'(2) that]
    by (meson nat_le_linear)
  then show ?thesis
    using keep r by (auto simp: is_final_iff [OF inv'(1)] is_ancestor_exact [OF inv'(2)])
qed


text \<open>
  C32. Fork choice is deterministic. In every state reached from a genesis state the tip is the
  best entry: highest, and lowest by hash among the highest. So two nodes that know the same
  blocks have the same tip, in whatever order the blocks arrived.
\<close>

theorem tip_is_best:
  assumes "ce_parent_hash g = ce_hash g \<or> ce_parent_hash g = hash_zero"
    and "chain_reach (chain_new g p) s" and "chain_reach (chain_new g p) s'"
  shows "(\<forall>h e. chain_get s h = Some e \<longrightarrow>
      (\<exists>t. tip_entry s = Some t \<and>
         (ce_height e < ce_height t \<or> ce_height e = ce_height t \<and> cs_tip s \<le> h))) \<and>
    (chain_get s = chain_get s' \<longrightarrow> cs_tip s = cs_tip s')"
proof -
  have inv: "chain_inv s" "chain_inv s'"
    using reach_facts chain_new_inv [OF assms(1)] assms(2,3) by blast+
  have best: "\<exists>t. tip_entry x = Some t \<and>
      (ce_height e < ce_height t \<or> ce_height e = ce_height t \<and> cs_tip x \<le> h)"
    if x: "chain_inv x" "chain_get x h = Some e" for x h e
  proof -
    obtain t where "tip_entry x = Some t" using x(1) by (auto simp: chain_inv_def final_inv_def tip_entry_def)
    moreover have "better x (cs_tip x) h" using x by (auto simp: chain_inv_def chain_get_def)
    ultimately show ?thesis
      using x(2) by (auto simp: better_def height_of_def tip_entry_def chain_get_def
          word_less_nat_alt word_unat_eq_iff)
  qed
  have "cs_tip s = cs_tip s'" if eq: "chain_get s = chain_get s'"
  proof -
    have has: "bt_has (cs_entries s) (cs_tip s')" "bt_has (cs_entries s') (cs_tip s)"
      using inv eq by (auto simp: chain_inv_def final_inv_def chain_get_def fun_eq_iff)
    have ht: "height_of s = height_of s'"
      using eq by (simp add: fun_eq_iff height_of_def chain_get_def)
    have "better s (cs_tip s) (cs_tip s')" "better s (cs_tip s') (cs_tip s)"
      using inv has ht by (auto simp: chain_inv_def better_def)
    then show ?thesis by (auto simp: better_def)
  qed
  with best [OF inv(1)] show ?thesis by blast
qed

section \<open>Equivocation\<close>

text \<open>
  Every record is evidence, and every conflicting pair of blocks other than the root is on
  record.
\<close>

definition evidence_inv :: "block_hash \<Rightarrow> chain_state \<Rightarrow> bool" where
  "evidence_inv root s \<longleftrightarrow> bt_ok (cs_slot_producers s) \<and> bt_ok (cs_equivocations s) \<and>
     (\<forall>key h. bt_get (cs_slot_producers s) key = Some h \<longrightarrow>
        (\<exists>e. chain_get s h = Some e \<and> (ce_slot e, ce_producer e) = key)) \<and>
     (\<forall>key p. bt_get (cs_equivocations s) key = Some p \<longrightarrow>
        eq_first p \<noteq> eq_second p \<and> (eq_slot p, eq_producer p) = key \<and>
        (\<exists>e e'. chain_get s (eq_first p) = Some e \<and> (ce_slot e, ce_producer e) = key \<and>
           chain_get s (eq_second p) = Some e' \<and> (ce_slot e', ce_producer e') = key)) \<and>
     (\<forall>h e. chain_get s h = Some e \<longrightarrow> h \<noteq> root \<longrightarrow>
        (\<exists>first. bt_get (cs_slot_producers s) (ce_slot e, ce_producer e) = Some first \<and>
           (first = h \<or> bt_has (cs_equivocations s) (ce_slot e, ce_producer e))))"

lemma evidence_add:
  assumes ev: "evidence_inv root s" and inv: "chain_inv s" and link: "linked s e"
    and add: "add_block s e = Some (Inr (changed, s'))"
  shows "evidence_inv root s'"
proof -
  let ?key = "(ce_slot e, ce_producer e)" and ?r = "record_equivocation (ce_slot e) (ce_producer e) (ce_hash e) s"
  note d = add_block_InrD [OF inv link add]
  have ok: "bt_ok (cs_entries s)" using inv by (simp add: chain_inv_def tree_inv_def)
  have get: "chain_get s' = (chain_get s)(ce_hash e \<mapsto> e)" and new: "chain_get s (ce_hash e) = None"
    using d ok by (auto simp: fun_eq_iff chain_get_def bt_simps)
  have sp: "cs_slot_producers s' = cs_slot_producers ?r" "cs_equivocations s' = cs_equivocations ?r"
    using d by auto
  show ?thesis
  proof (cases "bt_get (cs_slot_producers s) ?key")
    case None
    then have "cs_slot_producers s' = bt_insert ?key (ce_hash e) (cs_slot_producers s)"
      "cs_equivocations s' = cs_equivocations s"
      using sp by (simp_all add: record_equivocation_def)
    then show ?thesis
      using ev None new unfolding evidence_inv_def get
      by (auto simp: bt_simps; metis option.distinct(1) option.inject)
  next
    case (Some first)
    then obtain fe where fe: "chain_get s first = Some fe" "(ce_slot fe, ce_producer fe) = ?key"
      using ev unfolding evidence_inv_def by blast
    then have ne: "first \<noteq> ce_hash e" using new by auto
    define eqs where "eqs = (if bt_has (cs_equivocations s) ?key then cs_equivocations s
      else bt_insert ?key \<lparr>eq_slot = ce_slot e, eq_producer = ce_producer e, eq_first = first,
        eq_second = ce_hash e\<rparr> (cs_equivocations s))"
    have s': "cs_slot_producers s' = cs_slot_producers s" "cs_equivocations s' = eqs"
      using sp Some ne by (simp_all add: record_equivocation_def eqs_def Let_def)
    show ?thesis
      using ev Some new fe ne unfolding evidence_inv_def get s' eqs_def
      by (auto simp: bt_simps split: if_splits; metis option.distinct(1) option.inject)
  qed
qed

lemma evidence_reach:
  "chain_reach s s' \<Longrightarrow> chain_inv s \<Longrightarrow> evidence_inv root s \<Longrightarrow> evidence_inv root s'"
proof (induction rule: chain_reach.induct)
  case (reach_add s s' e changed s'')
  then show ?case using evidence_add reach_facts by blast
qed

lemma evidence_new: "evidence_inv (ce_hash g) (chain_new g p)"
  by (auto simp: evidence_inv_def chain_new_def chain_get_def bt_ok_def split: if_splits)


section \<open>Instances\<close>

text \<open>A genesis block and two siblings by one producer in one slot, with one-byte hashes.\<close>

definition demo_genesis :: chain_entry where
  "demo_genesis =
     \<lparr>ce_hash = Hash256 [0], ce_parent_hash = Hash256 [0], ce_height = 0, ce_slot = 0,
      ce_producer = Hash256 [0]\<rparr>"

definition demo_entry :: "u8 \<Rightarrow> chain_entry" where
  "demo_entry b =
     \<lparr>ce_hash = Hash256 [b], ce_parent_hash = Hash256 [0], ce_height = 1, ce_slot = 7,
      ce_producer = Hash256 [9]\<rparr>"

definition demo_start :: chain_state where
  "demo_start = chain_new demo_genesis consensus_mainnet"

definition demo_mid :: chain_state where
  "demo_mid = demo_start
     \<lparr>cs_entries := [(Hash256 [0], demo_genesis), (Hash256 [1], demo_entry 1)],
      cs_tip := Hash256 [1], cs_slot_producers := [((7, Hash256 [9]), Hash256 [1])]\<rparr>"

definition demo_end :: chain_state where
  "demo_end = demo_mid
     \<lparr>cs_entries := [(Hash256 [0], demo_genesis), (Hash256 [1], demo_entry 1), (Hash256 [2], demo_entry 2)],
      cs_equivocations := [((7, Hash256 [9]),
        \<lparr>eq_slot = 7, eq_producer = Hash256 [9], eq_first = Hash256 [1], eq_second = Hash256 [2]\<rparr>)]\<rparr>"

lemma short_not_zero [simp]: "Hash256 [b] \<noteq> hash_zero"
  by (auto simp: hash_zero_def dest: arg_cong [of _ _ length])

lemmas demo_simps = demo_genesis_def demo_entry_def demo_start_def demo_mid_def demo_end_def
  chain_new_def consensus_mainnet_def less_hash256_def

lemma demo_root: "ce_parent_hash demo_genesis = ce_hash demo_genesis \<or> ce_parent_hash demo_genesis = hash_zero"
  by (simp add: demo_genesis_def)

lemma demo_inv: "chain_inv demo_start"
  unfolding demo_start_def by (rule chain_new_inv) (rule demo_root)

lemma demo_linked: "linked demo_start (demo_entry 1)" "linked demo_mid (demo_entry 2)"
  by (simp_all add: linked_def demo_simps)

lemma demo_adds:
  "add_block demo_start (demo_entry 1) = Some (Inr (True, demo_mid))"
  "add_block demo_mid (demo_entry 2) = Some (Inr (False, demo_end))"
  by (simp_all add: add_block_def is_ancestor_def ancestor_walk.simps record_equivocation_def
      tip_entry_def advance_finality_def checked_sub_w_def Let_def word_le_nat_alt
      demo_simps)

lemma demo_reach: "chain_reach demo_start demo_end"
  using reach_refl demo_linked(1) demo_adds(1)
  by (rule reach_add [OF reach_add, OF _ _ _ demo_linked(2) demo_adds(2)])

theorem finality_permanent_witness:
  "chain_reach demo_start demo_end \<and> is_final demo_end (Hash256 [0]) = Some True"
proof -
  have "is_final demo_start (Hash256 [0]) = Some True"
    using demo_inv by (simp add: is_final_iff) (simp add: demo_simps)
  then show ?thesis
    using finality_permanent [OF demo_inv demo_reach, of "Hash256 [0]"] demo_reach by blast
qed


theorem tip_is_best_witness:
  "chain_reach demo_start demo_end \<and> cs_tip demo_end \<le> Hash256 [2]"
proof -
  have g: "chain_get demo_end (Hash256 [2]) = Some (demo_entry 2)"
    by (simp add: chain_get_def demo_simps)
  have t: "tip_entry demo_end = Some (demo_entry 1)" by (simp add: tip_entry_def demo_simps)
  from tip_is_best [OF demo_root demo_reach [unfolded demo_start_def] demo_reach [unfolded demo_start_def]]
    g t demo_reach show ?thesis by (fastforce simp: demo_entry_def)
qed


end
