(* ===== verification/QV_Validator.thy ===== *)
theory QV_Validator
  imports QV_Block QV_Leader QV_ChainProps
begin

text \<open>
  \<open>qv-consensus/src/block_validator.rs\<close>: consensus validation of a block header. The KES
  verifier is a trait in the code and a function here. Where the code stores an error's display
  text, the model stores the error.
\<close>

section \<open>Data\<close>

datatype block_validation_error =
    UnsupportedVersion u32
  | SlotNotMonotonic u64 u64
  | HeightMismatch u64 u64
  | PrevHashMismatch
  | TimestampOutOfRange u64 u64 u64 u64
  | Leadership leader_error
  | UnknownProducer pool_id
  | InvalidKesSignature "string + block_error"
  | Structure block_error

type_synonym kes_verifier = "bytes \<Rightarrow> u32 \<Rightarrow> bytes \<Rightarrow> bytes \<Rightarrow> (block_validation_error, unit) result"

definition test_kes_verify :: kes_verifier where
  "test_kes_verify kes_pk period msg sg =
     (if sg = [] then Inl (InvalidKesSignature (Inl ''empty KES signature'')) else Inr ())"

record validation_context =
  vc_parent_hash :: block_hash
  vc_parent_slot :: slot
  vc_parent_height :: height
  vc_clock :: slot_clock
  vc_params :: consensus_params
  vc_epoch_nonce :: hash256
  vc_distribution :: stake_distribution
  vc_pools :: "stake_pool list"

section \<open>Header validation\<close>

text \<open>\<open>None\<close> is the division panic of a zero epoch length.\<close>

definition slot_to_kes_period :: "slot_clock \<Rightarrow> slot \<Rightarrow> u32 option" where
  "slot_to_kes_period c s =
     map_option (\<lambda>e. if unat e < 2 ^ 32 then ucast e else - 1) (slot_to_epoch c s)"

fun find_pool_by_key_hash :: "'z crypto_env_scheme \<Rightarrow> stake_pool list \<Rightarrow> hash256 \<Rightarrow> pool_id option" where
  "find_pool_by_key_hash E [] key_hash = None"
| "find_pool_by_key_hash E (p # ps) key_hash =
     (if Hash256 (sha3_256 E (sp_vrf_key p)) = key_hash then Some (sp_id p)
      else find_pool_by_key_hash E ps key_hash)"

definition slot_start_secs :: "validation_context \<Rightarrow> slot \<Rightarrow> u64" where
  "slot_start_secs ctx s = slot_start_time_ms (vc_clock ctx) s div 1000"

definition slot_end_secs :: "validation_context \<Rightarrow> slot \<Rightarrow> u64" where
  "slot_end_secs ctx s = sat_add (slot_start_secs ctx s) (slot_duration_ms (vc_params ctx) div 1000)"

text \<open>Checks 1 to 5: version, linkage, slot, height and timestamp.\<close>

definition check_header_fields ::
  "block_header \<Rightarrow> validation_context \<Rightarrow> (block_validation_error, unit) result" where
  "check_header_fields h ctx =
     (if bh_version h \<noteq> BLOCK_VERSION then Inl (UnsupportedVersion (bh_version h))
      else if bh_prev_hash h \<noteq> vc_parent_hash ctx then Inl PrevHashMismatch
      else if bh_slot h \<le> vc_parent_slot ctx
      then Inl (SlotNotMonotonic (bh_slot h) (vc_parent_slot ctx))
      else if bh_height h \<noteq> sat_add (vc_parent_height ctx) 1
      then Inl (HeightMismatch (bh_height h) (vc_parent_height ctx))
      else if bh_timestamp h < slot_start_secs ctx (bh_slot h) \<or>
        slot_end_secs ctx (bh_slot h) \<le> bh_timestamp h
      then Inl (TimestampOutOfRange (bh_slot h) (bh_timestamp h)
        (slot_start_secs ctx (bh_slot h)) (slot_end_secs ctx (bh_slot h)))
      else Inr ())"

text \<open>Checks 6 and 7: the producer's pool and its leadership proof.\<close>

definition check_producer ::
  "'z crypto_env_scheme \<Rightarrow> vrf_verify \<Rightarrow> block_header \<Rightarrow> validation_context \<Rightarrow>
     (block_validation_error, stake_pool) result" where
  "check_producer E vf h ctx =
     bind_res (ok_or (find_pool_by_key_hash E (vc_pools ctx) (bh_producer_key_hash h))
       (UnknownProducer (bh_producer_key_hash h))) (\<lambda>pid.
     bind_res (ok_or (find (\<lambda>p. sp_id p = pid) (vc_pools ctx)) (UnknownProducer pid)) (\<lambda>pool.
     bind_res (map_err Leadership (verify_leadership E vf (sp_vrf_key pool) pid (vc_epoch_nonce ctx)
       (bh_slot h) (bh_vrf_proof h) (vc_distribution ctx))) (\<lambda>is_leader.
       if is_leader then Inr pool
       else Inl (Leadership (VrfVerification ''VRF output above threshold'')))))"

definition validate_block_header ::
  "'z block_env_scheme \<Rightarrow> vrf_verify \<Rightarrow> kes_verifier \<Rightarrow> block_header \<Rightarrow> validation_context \<Rightarrow>
     (block_validation_error, unit) result option" where
  "validate_block_header E vf kes h ctx =
     (case bind_res (check_header_fields h ctx) (\<lambda>_.
           bind_res (check_producer E vf h ctx) (\<lambda>pool.
           bind_res (map_err (\<lambda>e. InvalidKesSignature (Inr e)) (header_canonical_bytes E h)) (\<lambda>bs.
             Inr (pool, bs)))) of
        Inl e \<Rightarrow> Some (Inl e)
      | Inr (pool, bs) \<Rightarrow>
          map_option (\<lambda>period. kes (sp_kes_key pool) period bs (bh_kes_sig h))
            (slot_to_kes_period (vc_clock ctx) (bh_slot h)))"

definition validate_block ::
  "'z block_env_scheme \<Rightarrow> vrf_verify \<Rightarrow> kes_verifier \<Rightarrow> block \<Rightarrow> validation_context \<Rightarrow>
     (block_validation_error, unit) result option" where
  "validate_block E vf kes b ctx =
     (case map_err Structure (block_validate_structure E b) of
        Inl e \<Rightarrow> Some (Inl e)
      | Inr _ \<Rightarrow> validate_block_header E vf kes (blk_header b) ctx)"

section \<open>What an accepted header guarantees\<close>

lemma find_pool_Some:
  "find_pool_by_key_hash E ps kh = Some pid \<Longrightarrow>
     \<exists>p \<in> set ps. sp_id p = pid \<and> Hash256 (sha3_256 E (sp_vrf_key p)) = kh"
  by (induction ps) (auto split: if_splits)

lemma check_header_fields_Inr [res_simps]:
  "check_header_fields h ctx = Inr u \<longleftrightarrow>
     bh_version h = BLOCK_VERSION \<and> bh_prev_hash h = vc_parent_hash ctx \<and>
     vc_parent_slot ctx < bh_slot h \<and> bh_height h = sat_add (vc_parent_height ctx) 1 \<and>
     slot_start_secs ctx (bh_slot h) \<le> bh_timestamp h \<and>
     bh_timestamp h < slot_end_secs ctx (bh_slot h)"
  by (auto simp: check_header_fields_def not_less)

lemma validate_block_header_Inr:
  assumes "validate_block_header E vf kes h ctx = Some (Inr u)"
  obtains pool bs period where
    "check_header_fields h ctx = Inr ()" and "check_producer E vf h ctx = Inr pool"
    and "ser_header E h = Inr bs" and "slot_to_kes_period (vc_clock ctx) (bh_slot h) = Some period"
    and "kes (sp_kes_key pool) period bs (bh_kes_sig h) = Inr ()"
  using assms
  by (auto simp: validate_block_header_def header_canonical_bytes_def res_simps split: sum.splits)

text \<open>
  C36. A header that passes consensus validation extends its parent by one height and a later
  slot, carries a timestamp within its slot, and was produced by a registered pool with stake
  whose VRF output for this slot and nonce, under the pool's key, lies below the threshold of
  its relative stake; the pool's KES key verifies the header for the period of the slot.
\<close>

theorem header_validation_sound:
  assumes "validate_block_header E vf kes h ctx = Some (Inr ())"
  shows "bh_prev_hash h = vc_parent_hash ctx \<and> bh_height h = sat_add (vc_parent_height ctx) 1 \<and>
    vc_parent_slot ctx < bh_slot h \<and>
    slot_start_secs ctx (bh_slot h) \<le> bh_timestamp h \<and> bh_timestamp h < slot_end_secs ctx (bh_slot h) \<and>
    (\<exists>pool \<in> set (vc_pools ctx). \<exists>out bs period.
       vf (sp_vrf_key pool) (vrf_input E (vc_epoch_nonce ctx) (bh_slot h)) (bh_vrf_proof h) = Inr out \<and>
       pool_stake (vc_distribution ctx) (sp_id pool) \<noteq> 0 \<and>
       is_slot_leader (pool_stake (vc_distribution ctx) (sp_id pool))
         (sd_total_stake (vc_distribution ctx)) out \<and>
       slot_to_kes_period (vc_clock ctx) (bh_slot h) = Some period \<and>
       ser_header E h = Inr bs \<and> kes (sp_kes_key pool) period bs (bh_kes_sig h) = Inr ())"
proof -
  from assms obtain pool bs period where f: "check_header_fields h ctx = Inr ()"
    and pr: "check_producer E vf h ctx = Inr pool" and bs: "ser_header E h = Inr bs"
    and per: "slot_to_kes_period (vc_clock ctx) (bh_slot h) = Some period"
    and kes: "kes (sp_kes_key pool) period bs (bh_kes_sig h) = Inr ()"
    by (rule validate_block_header_Inr)
  from pr have mem: "pool \<in> set (vc_pools ctx)"
    and lead: "verify_leadership E vf (sp_vrf_key pool) (sp_id pool) (vc_epoch_nonce ctx) (bh_slot h)
      (bh_vrf_proof h) (vc_distribution ctx) = Inr True"
    by (auto simp: check_producer_def res_simps find_Some_iff split: if_splits)
  from lead obtain out where
    "vf (sp_vrf_key pool) (vrf_input E (vc_epoch_nonce ctx) (bh_slot h)) (bh_vrf_proof h) = Inr out"
    "pool_stake (vc_distribution ctx) (sp_id pool) \<noteq> 0"
    "is_slot_leader (pool_stake (vc_distribution ctx) (sp_id pool)) (sd_total_stake (vc_distribution ctx)) out"
    by (auto simp: verify_leadership_def relative_stake_def Let_def res_simps split: if_splits)
  with mem f bs per kes show ?thesis by (auto simp: res_simps)
qed

section \<open>From validated headers to the chain state\<close>

definition entry_of_header :: "block_hash \<Rightarrow> block_header \<Rightarrow> chain_entry" where
  "entry_of_header bh h =
     \<lparr>ce_hash = bh, ce_parent_hash = bh_prev_hash h, ce_height = bh_height h, ce_slot = bh_slot h,
      ce_producer = bh_producer_key_hash h\<rparr>"

text \<open>
  Validation supplies what the chain state relies on. When the context describes a known
  parent whose height is not the last representable one, the entry of a validated header is
  linked, so every theorem about offering linked blocks applies to it.
\<close>

theorem validated_header_linked:
  assumes "validate_block_header E vf kes h ctx = Some (Inr ())"
    and "chain_get s (vc_parent_hash ctx) = Some pe" and "ce_height pe = vc_parent_height ctx"
    and "unat (vc_parent_height ctx) + 1 < 2 ^ 64" and "bh \<noteq> hash_zero"
  shows "linked s (entry_of_header bh h)"
proof -
  from assms(1) have "check_header_fields h ctx = Inr ()" by (rule validate_block_header_Inr)
  then have "bh_prev_hash h = vc_parent_hash ctx" "bh_height h = sat_add (vc_parent_height ctx) 1"
    by (simp_all add: res_simps)
  moreover have "unat (sat_add (vc_parent_height ctx) 1) = Suc (unat (vc_parent_height ctx))"
    using assms(4) by (simp add: int_simps min_def)
  ultimately show ?thesis
    using assms(2,3,5) by (simp add: linked_def entry_of_header_def chain_get_def)
qed

text \<open>
  With slots shorter than one second no header is ever valid: the window is computed in
  whole seconds and is empty. The ephemeral preset, with its 100 ms slots, is such a network.
\<close>

theorem subsecond_slots_reject_all:
  assumes "slot_duration_ms (vc_params ctx) < 1000"
  shows "validate_block_header E vf kes h ctx \<noteq> Some (Inr ()) \<and>
    slot_duration_ms (pp_consensus protocol_ephemeral) < 1000"
proof
  have "slot_duration_ms (vc_params ctx) div 1000 = 0"
    using assms by (simp add: word_unat_eq_iff unat_div word_less_nat_alt)
  then have "slot_end_secs ctx s = slot_start_secs ctx s" for s
    using unat_bound [of "slot_start_secs ctx s"] by (simp add: slot_end_secs_def sat_add_def)
  then show "validate_block_header E vf kes h ctx \<noteq> Some (Inr ())"
    by (auto elim!: validate_block_header_Inr simp: res_simps)
  show "slot_duration_ms (pp_consensus protocol_ephemeral) < 1000"
    by (simp add: protocol_ephemeral_def)
qed

section \<open>Instances\<close>

definition flat_env :: block_env where
  "flat_env =
     \<lparr>sha3_256 = (\<lambda>_. replicate 32 0), blake3_256 = (\<lambda>_. replicate 32 0), mldsa_pk_len = (\<lambda>_. 2),
      mldsa_sig_len = (\<lambda>_. 2), mldsa_verify = (\<lambda>_ pk _ sg. pk = sg),
      ser_tx = (\<lambda>_. Inr []), de_tx = (\<lambda>_. Inl []), ser_output = (\<lambda>_. Inr []), de_output = (\<lambda>_. Inl []),
      ser_header = (\<lambda>_. Inr [])\<rparr>"

definition solo_pool :: stake_pool where
  "solo_pool =
     \<lparr>sp_id = hash_zero, sp_vrf_key = [], sp_kes_key = [], sp_pledge = 1, sp_margin_num = 0,
      sp_margin_den = 1, sp_fixed_cost = 0, sp_active = True\<rparr>"

definition demo_vctx :: validation_context where
  "demo_vctx =
     \<lparr>vc_parent_hash = Hash256 [0], vc_parent_slot = 0, vc_parent_height = 0,
      vc_clock = clock_from_params protocol_mainnet, vc_params = consensus_mainnet,
      vc_epoch_nonce = hash_zero, vc_distribution = solo_distribution, vc_pools = [solo_pool]\<rparr>"

definition demo_header :: block_header where
  "demo_header = genesis_template
     \<lparr>bh_prev_hash := Hash256 [0], bh_height := 1, bh_slot := 1, bh_timestamp := 2,
      bh_vrf_proof := replicate 32 0, bh_kes_sig := [1]\<rparr>"

lemma demo_header_valid:
  "validate_block_header flat_env (test_vrf_verify flat_env) test_kes_verify demo_header demo_vctx =
     Some (Inr ())"
proof -
  have "0 < unat (leader_threshold_fixed 1 1)"
    using leader_threshold_series [of 1 1] by (simp add: Let_def)
  then have lead: "is_slot_leader 1 1 (replicate 32 0)"
    by (simp add: is_slot_leader_def leader_vrf_value_def word_less_nat_alt le_val_zeros)
  have fields: "check_header_fields demo_header demo_vctx = Inr ()"
    by (simp add: check_header_fields_def demo_header_def genesis_template_def demo_vctx_def
        slot_start_secs_def slot_end_secs_def slot_start_time_ms_def clock_from_params_def
        protocol_mainnet_def consensus_mainnet_def sat_mul_def sat_add_def word_le_nat_alt
        word_less_nat_alt unat_div)
  have "check_producer flat_env (test_vrf_verify flat_env) demo_header demo_vctx = Inr solo_pool"
    using lead
    by (simp add: check_producer_def demo_header_def genesis_template_def demo_vctx_def solo_pool_def
        flat_env_def hash_zero_def verify_leadership_def stake_is_empty_def solo_distribution_def
        relative_stake_def pool_stake_def test_vrf_verify_def)
  moreover have "slot_to_kes_period (vc_clock demo_vctx) (bh_slot demo_header) = Some 0"
    by (simp add: slot_to_kes_period_def slot_to_epoch_def checked_div_w_def demo_vctx_def
        demo_header_def clock_from_params_def protocol_mainnet_def consensus_mainnet_def
        word_unat_eq_iff unat_div)
  moreover have "header_canonical_bytes flat_env demo_header = Inr []"
    by (simp add: header_canonical_bytes_def flat_env_def)
  moreover have "bh_kes_sig demo_header = [1]" by (simp add: demo_header_def genesis_template_def)
  ultimately show ?thesis
    using fields by (simp add: validate_block_header_def test_kes_verify_def)
qed

theorem header_validation_sound_witness:
  "validate_block_header flat_env (test_vrf_verify flat_env) test_kes_verify demo_header demo_vctx =
     Some (Inr ()) \<and> vc_parent_slot demo_vctx < bh_slot demo_header"
  using demo_header_valid header_validation_sound [OF demo_header_valid] by blast

theorem validated_header_linked_witness:
  "linked demo_start (entry_of_header (Hash256 [1]) demo_header)"
proof (rule validated_header_linked [OF demo_header_valid])
  show "chain_get demo_start (vc_parent_hash demo_vctx) = Some demo_genesis"
    by (simp add: chain_get_def demo_vctx_def demo_simps)
qed (simp_all add: demo_vctx_def demo_genesis_def)

theorem subsecond_slots_reject_all_witness:
  "validate_block_header flat_env (test_vrf_verify flat_env) test_kes_verify demo_header
     (demo_vctx\<lparr>vc_params := pp_consensus protocol_ephemeral\<rparr>) \<noteq> Some (Inr ())"
  by (rule subsecond_slots_reject_all [THEN conjunct1]) (simp add: protocol_ephemeral_def)

end
