(* ===== verification/QV_Rewards.thy ===== *)
theory QV_Rewards
  imports QV_Stake
begin

text \<open>
  \<open>qv-consensus/src/rewards.rs\<close>: the halving schedule, the supply cap and the split of a
  block reward. \<open>block_subsidy\<close> divides by the halving interval with \<open>saturating_div\<close>, which
  panics on zero: the functions that call it return \<open>None\<close> there.
\<close>

section \<open>Emission\<close>

definition block_subsidy :: "height \<Rightarrow> monetary_params \<Rightarrow> amount option" where
  "block_subsidy h m =
     map_option (\<lambda>halvings.
       if 64 \<le> halvings then 0 else drop_bit (unat halvings) (initial_block_reward m))
     (checked_div_w h (halving_interval_blocks m))"

lemma unat_drop_bit_u64: "unat (drop_bit n (a :: u64)) = unat a div 2 ^ n"
  by (simp only: unat_drop_bit_eq) (simp add: drop_bit_eq_div)

text \<open>The loop of \<open>cumulative_emission\<close>: it ends because the reward is halved every round.\<close>

function emission_loop :: "u64 \<Rightarrow> u64 \<Rightarrow> u64 \<Rightarrow> u64 \<Rightarrow> u64" where
  "emission_loop interval tot reward remaining =
     (if reward = 0 then tot
      else
        let blocks_at_this_rate = min remaining interval;
            tot' = sat_add tot (sat_mul blocks_at_this_rate reward);
            remaining' = sat_sub remaining blocks_at_this_rate
        in if remaining' = 0 then tot' else emission_loop interval tot' (drop_bit 1 reward) remaining')"
  by pat_completeness auto
termination
proof (relation "measure (\<lambda>(_, _, reward, _). unat reward)", goal_cases)
  case (2 interval tot reward remaining)
  then have "0 < unat reward" by (simp add: unat_gt_0)
  then have "unat reward div 2 < unat reward" by simp
  then show ?case by (simp add: unat_drop_bit_u64)
qed simp

declare emission_loop.simps [simp del]

definition cumulative_emission :: "height \<Rightarrow> monetary_params \<Rightarrow> amount" where
  "cumulative_emission h m =
     min (emission_loop (halving_interval_blocks m) 0 (initial_block_reward m) (sat_add h 1))
       (total_supply m)"

definition is_emission_exhausted :: "height \<Rightarrow> monetary_params \<Rightarrow> bool" where
  "is_emission_exhausted h m \<longleftrightarrow> total_supply m \<le> cumulative_emission h m"

definition capped_subsidy :: "height \<Rightarrow> monetary_params \<Rightarrow> amount option" where
  "capped_subsidy h m =
     map_option (\<lambda>raw_subsidy.
       let prev_emission = (if h = 0 then 0 else cumulative_emission (sat_sub h 1) m);
           room = sat_sub (total_supply m) prev_emission
       in min raw_subsidy room)
     (block_subsidy h m)"

definition total_block_reward :: "height \<Rightarrow> amount \<Rightarrow> monetary_params \<Rightarrow> amount option" where
  "total_block_reward h fees m = map_option (\<lambda>s. sat_add s fees) (capped_subsidy h m)"

section \<open>Distribution\<close>

record reward_share =
  rs_recipient :: hash256
  rs_amount :: amount

text \<open>\<open>(a as u128).checked_mul(b).and_then(|n| n.checked_div(d)).map(|v| v.min(u64::MAX)).unwrap_or(0)\<close>\<close>

definition mul_div_u64 :: "u64 \<Rightarrow> u128 \<Rightarrow> u128 \<Rightarrow> u64" where
  "mul_div_u64 a b d =
     (case Option.bind (checked_mul_w (ucast a) b) (\<lambda>n. checked_div_w n d) of
        Some v \<Rightarrow> ucast (min v (ucast (- 1 :: u64)))
      | None \<Rightarrow> 0)"

text \<open>The loop over the delegators: the shares and the amount distributed.\<close>

fun share_loop ::
  "u64 \<Rightarrow> u64 \<Rightarrow> (hash256 \<times> amount) list \<Rightarrow> u64 \<Rightarrow> reward_share list \<times> u64" where
  "share_loop pool_amt total_delegated [] distributed = ([], distributed)"
| "share_loop pool_amt total_delegated (x # xs) distributed =
     (let share = mul_div_u64 pool_amt (ucast (snd x)) (ucast total_delegated);
          (shares, d) = share_loop pool_amt total_delegated xs (sat_add distributed share)
      in (\<lparr>rs_recipient = fst x, rs_amount = share\<rparr> # shares, d))"

definition distribute_reward ::
  "amount \<Rightarrow> stake_pool \<Rightarrow> (hash256 \<times> amount) list \<Rightarrow> amount \<times> reward_share list" where
  "distribute_reward tot pool delegator_stakes =
     (if tot = 0 then (0, [])
      else
        let cost = min (sp_fixed_cost pool) tot;
            after_cost = sat_sub tot cost;
            margin_share =
              (if 0 < sp_margin_den pool
               then mul_div_u64 after_cost (ucast (sp_margin_num pool)) (ucast (sp_margin_den pool))
               else 0);
            operator_total = sat_add cost margin_share;
            delegator_pool = sat_sub after_cost margin_share;
            total_delegated = fold (\<lambda>x acc. sat_add acc (snd x)) delegator_stakes 0;
            (shares, distributed) =
              (if 0 < total_delegated \<and> 0 < delegator_pool
               then share_loop delegator_pool total_delegated delegator_stakes 0 else ([], 0));
            dust = sat_sub delegator_pool distributed
        in (sat_add operator_total dust, shares))"

section \<open>The emission schedule\<close>

text \<open>The subsidy of a height as an unbounded number: \<open>initial / 2 ^ (h / interval)\<close>.\<close>

definition subsidy_at :: "monetary_params \<Rightarrow> nat \<Rightarrow> nat" where
  "subsidy_at m h =
     unat (initial_block_reward m) div 2 ^ (h div unat (halving_interval_blocks m))"

lemma block_subsidy_at:
  assumes "halving_interval_blocks m \<noteq> 0"
  shows "\<exists>s. block_subsidy h m = Some s \<and> unat s = subsidy_at m (unat h)"
proof -
  let ?q = "h div halving_interval_blocks m"
  have q: "unat ?q = unat h div unat (halving_interval_blocks m)" by (simp add: unat_div)
  have "unat (initial_block_reward m) div 2 ^ n = 0" if "64 \<le> n" for n
  proof -
    have "unat (initial_block_reward m) < 2 ^ 64" using unat_bound [of "initial_block_reward m"] by simp
    also have "\<dots> \<le> (2::nat) ^ n" using that by (intro power_increasing) auto
    finally show ?thesis by simp
  qed
  moreover have "64 \<le> ?q \<longleftrightarrow> 64 \<le> unat ?q" by (simp add: word_le_nat_alt)
  ultimately show ?thesis
    using assms by (auto simp: block_subsidy_def checked_div_w_def subsidy_at_def unat_drop_bit_u64 q)
qed

lemma sum_split_interval:
  fixes r I n :: nat
  assumes "I < n" and "0 < I"
  shows "(\<Sum>i<n. r div 2 ^ (i div I)) = I * r + (\<Sum>i<n - I. r div 2 div 2 ^ (i div I))"
proof -
  have "(\<Sum>i<n. r div 2 ^ (i div I)) =
      (\<Sum>i<I. r div 2 ^ (i div I)) + (\<Sum>i = I..<n. r div 2 ^ (i div I))"
    using assms(1) sum.atLeastLessThan_concat [of 0 I n "\<lambda>i. r div 2 ^ (i div I)"]
    by (simp only: lessThan_atLeast0)
  moreover have "(\<Sum>i<I. r div 2 ^ (i div I)) = I * r" by simp
  moreover have "(\<Sum>i = I..<n. r div 2 ^ (i div I)) = (\<Sum>i<n - I. r div 2 ^ ((i + I) div I))"
    using assms sum.shift_bounds_nat_ivl [of "\<lambda>i. r div 2 ^ (i div I)" 0 I "n - I"]
    by (simp add: atLeast0LessThan)
  moreover have "r div 2 ^ ((i + I) div I) = r div 2 div 2 ^ (i div I)" for i
  proof -
    have "(i + I) div I = i div I + 1" using assms(2) by (intro div_add_self2) simp
    then show ?thesis by (simp only: Suc_eq_plus1 [symmetric] power_Suc div_mult2_eq)
  qed
  ultimately show ?thesis by simp
qed

lemma sum_first_interval:
  fixes r I n :: nat
  assumes "n \<le> I"
  shows "(\<Sum>i<n. r div 2 ^ (i div I)) = n * r"
  using assms by simp

lemma emission_loop_sum:
  assumes "interval \<noteq> 0"
  shows "unat (emission_loop interval tot reward remaining) =
    min (unat tot + (\<Sum>i<unat remaining. unat reward div 2 ^ (i div unat interval))) (2 ^ 64 - 1)"
  using assms
proof (induction interval tot reward remaining rule: emission_loop.induct)
  case (1 interval tot reward remaining)
  let ?I = "unat interval" and ?n = "unat remaining" and ?r = "unat reward"
  let ?S = "\<lambda>n r. \<Sum>i<n. r div 2 ^ (i div ?I)"
  define b where "b = min remaining interval"
  have I: "0 < ?I" using "1.prems" by (simp add: unat_gt_0)
  have b: "unat b = min ?n ?I" by (auto simp: b_def min_def word_le_nat_alt)
  define tot' where "tot' = sat_add tot (sat_mul b reward)"
  define rem' where "rem' = sat_sub remaining b"
  have rem': "unat rem' = ?n - min ?n ?I" by (simp add: rem'_def int_simps b)
  have tot': "unat tot' = min (unat tot + min ?n ?I * ?r) (2 ^ 64 - 1)"
    by (simp add: tot'_def int_simps b min_def)
  have unfold: "emission_loop interval tot reward remaining =
      (if reward = 0 then tot
       else if rem' = 0 then tot' else emission_loop interval tot' (drop_bit 1 reward) rem')"
    by (subst emission_loop.simps) (simp add: Let_def b_def tot'_def rem'_def)
  consider "reward = 0" | "reward \<noteq> 0" "?n \<le> ?I" | "reward \<noteq> 0" "?I < ?n" by linarith
  then show ?case
  proof cases
    case 1
    have "unat tot \<le> 2 ^ 64 - 1" using unat_bound [of tot] by simp
    with 1 show ?thesis unfolding unfold by simp
  next
    case 2
    then have "rem' = 0" using rem' by (simp add: unat_eq_zero)
    with 2 show ?thesis using tot' sum_first_interval [of ?n ?I ?r] by (simp add: unfold)
  next
    case 3
    then have "unat rem' \<noteq> 0" using rem' by simp
    then have "rem' \<noteq> 0" by auto
    then have "unat (emission_loop interval tot' (drop_bit 1 reward) rem') =
        min (unat tot' + ?S (unat rem') (unat (drop_bit 1 reward))) (2 ^ 64 - 1)"
      using "1.IH" [OF 3(1) b_def tot'_def rem'_def] "1.prems" by blast
    moreover have "?S ?n ?r = ?I * ?r + ?S (?n - ?I) (?r div 2)"
      using sum_split_interval [OF 3(2) I] .
    ultimately show ?thesis
      using 3 \<open>rem' \<noteq> 0\<close> tot' rem'
      by (simp add: unfold unat_drop_bit_u64 min_def)
  qed
qed

lemma cumulative_emission_value:
  assumes "halving_interval_blocks m \<noteq> 0" and "unat h + 1 < 2 ^ 64"
  shows "unat (cumulative_emission h m) =
    min (\<Sum>i\<le>unat h. subsidy_at m i) (unat (total_supply m))"
proof -
  have n: "unat (sat_add h 1) = Suc (unat h)" using assms(2) by (simp add: int_simps min_def)
  have "unat (min a b) = min (unat a) (unat b)" for a b :: u64
    by (auto simp: min_def word_le_nat_alt)
  moreover have "unat (total_supply m) \<le> 2 ^ 64 - 1" using unat_bound [of "total_supply m"] by simp
  ultimately show ?thesis
    by (simp add: cumulative_emission_def emission_loop_sum [OF assms(1)] n subsidy_at_def
        lessThan_Suc_atMost min.assoc min_absorb2)
qed

lemma capped_subsidy_value:
  assumes "halving_interval_blocks m \<noteq> 0" and "unat h + 1 < 2 ^ 64"
  shows "\<exists>s. capped_subsidy h m = Some s \<and>
    unat s = min (subsidy_at m (unat h)) (unat (total_supply m) - (\<Sum>i<unat h. subsidy_at m i))"
proof -
  obtain r where r: "block_subsidy h m = Some r" "unat r = subsidy_at m (unat h)"
    using block_subsidy_at [OF assms(1)] by blast
  define prev where "prev = (if h = 0 then 0 else cumulative_emission (sat_sub h 1) m)"
  have min_u: "unat (min a b) = min (unat a) (unat b)" for a b :: u64
    by (auto simp: min_def word_le_nat_alt)
  have prev: "unat prev = min (\<Sum>i<unat h. subsidy_at m i) (unat (total_supply m))"
  proof (cases "h = 0")
    case False
    then have pos: "0 < unat h" by (simp add: unat_gt_0)
    then have h1: "unat (sat_sub h 1) = unat h - 1" by (simp add: int_simps)
    have "{..unat h - 1} = {..<unat h}" using pos by auto
    then show ?thesis
      using False cumulative_emission_value [OF assms(1), of "sat_sub h 1"] assms(2)
      by (simp add: prev_def h1)
  qed (simp add: prev_def)
  have "unat (min r (sat_sub (total_supply m) prev)) =
      min (subsidy_at m (unat h)) (unat (total_supply m) - (\<Sum>i<unat h. subsidy_at m i))"
    by (simp add: min_u int_simps prev r(2))
  then show ?thesis
    by (intro exI [of _ "min r (sat_sub (total_supply m) prev)"])
      (simp add: capped_subsidy_def r(1) Let_def prev_def)
qed

text \<open>
  C5. The supply cap. The subsidies that \<open>total_block_reward\<close> grants at heights 0 to \<open>h\<close> add
  up to exactly the emission that \<open>cumulative_emission\<close> reports (the optimised per-era loop
  agrees with the block-by-block sum, saturating arithmetic included), which is the uncapped
  sum or the cap, whichever is smaller; so the minted total never exceeds \<open>total_supply\<close>.
\<close>

theorem supply_cap:
  assumes "halving_interval_blocks m \<noteq> 0" and "unat h + 1 < 2 ^ 64"
  shows "(\<Sum>i\<le>unat h. unat (the (total_block_reward (of_nat i) 0 m))) = unat (cumulative_emission h m) \<and>
    unat (cumulative_emission h m) = min (\<Sum>i\<le>unat h. subsidy_at m i) (unat (total_supply m)) \<and>
    (\<forall>i\<le>unat h. total_block_reward (of_nat i) 0 m \<noteq> None)"
proof -
  let ?cap = "unat (total_supply m)" and ?s = "subsidy_at m"
  have val: "\<exists>s. total_block_reward (of_nat i) 0 m = Some s \<and>
      unat s = min (?s i) (?cap - (\<Sum>j<i. ?s j))" if "i \<le> unat h" for i
  proof -
    have i: "unat (of_nat i :: u64) = i" using that assms(2) by (intro unat_of_nat_small) simp
    then have "unat (of_nat i :: u64) + 1 < 2 ^ 64" using that assms(2) by linarith
    from capped_subsidy_value [OF assms(1) this]
    obtain s where "capped_subsidy (of_nat i) m = Some s"
      "unat s = min (?s i) (?cap - (\<Sum>j<i. ?s j))"
      unfolding i by blast
    moreover have "sat_add s 0 = s" using unat_bound [of s] by (simp add: sat_add_def)
    ultimately show ?thesis by (simp add: total_block_reward_def)
  qed
  have tele: "(\<Sum>i\<le>n. min (?s i) (?cap - (\<Sum>j<i. ?s j))) = min (\<Sum>i\<le>n. ?s i) ?cap" for n
  proof (induction n)
    case (Suc n)
    have "min a c + min b (c - a) = min (a + b) c" for a b c :: nat by (auto simp: min_def)
    with Suc show ?case by (simp add: lessThan_Suc_atMost)
  qed (simp add: min.commute)
  have "(\<Sum>i\<le>unat h. unat (the (total_block_reward (of_nat i) 0 m))) =
      (\<Sum>i\<le>unat h. min (?s i) (?cap - (\<Sum>j<i. ?s j)))"
    by (rule sum.cong) (use val in fastforce)+
  then show ?thesis
    using tele [of "unat h"] cumulative_emission_value [OF assms] val by fastforce
qed

theorem supply_cap_witness:
  "halving_interval_blocks monetary_mainnet \<noteq> 0 \<and>
   (\<Sum>i\<le>(2::nat). unat (the (total_block_reward (of_nat i) 0 monetary_mainnet))) =
     unat (cumulative_emission 2 monetary_mainnet)"
proof -
  have "halving_interval_blocks monetary_mainnet \<noteq> 0" by (simp add: monetary_mainnet_def)
  with supply_cap [of monetary_mainnet 2] show ?thesis by simp
qed

section \<open>The split of a reward\<close>

lemma mul_div_u64_value:
  assumes "unat b < 2 ^ 64" and "0 < unat d" and "unat a * unat b div unat d < 2 ^ 64"
  shows "unat (mul_div_u64 a b d) = unat a * unat b div unat d"
proof -
  have u: "unat (ucast a :: u128) = unat a"
    using unat_bound [of a] by (simp add: unsigned_ucast_eq take_bit_nat_eq_self)
  have "unat a * unat b < 2 ^ 64 * 2 ^ 64"
    using unat_bound [of a] assms(1) by (intro mult_strict_mono) auto
  then have p: "unat (ucast a :: u128) * unat b < 2 ^ 128" by (simp add: u)
  then have prod: "unat (ucast a * b :: u128) = unat a * unat b" using u by (simp add: unat_mult_small)
  define v where "v = ucast a * b div d"
  have v: "unat v = unat a * unat b div unat d" by (simp add: v_def unat_div prod)
  have "d \<noteq> 0" using assms(2) by auto
  with p have md: "mul_div_u64 a b d = ucast (min v (ucast (- 1 :: u64)))"
    by (simp add: mul_div_u64_def checked_mul_w_def checked_div_w_def v_def)
  have "unat (ucast (- 1 :: u64) :: u128) = 2 ^ 64 - 1"
    by (simp add: unsigned_ucast_eq unat_minus_one take_bit_nat_eq_self)
  then have "v \<le> ucast (- 1 :: u64)"
    using assms(3) v by (simp add: word_le_nat_alt)
  then have "unat (mul_div_u64 a b d) = unat (ucast v :: u64)" by (simp add: md min_def)
  also have "\<dots> = unat v" using assms(3) v by (simp add: unsigned_ucast_eq take_bit_nat_eq_self)
  finally show ?thesis by (simp add: v)
qed

lemma share_loop_sum:
  assumes "0 < unat T" and "\<forall>x \<in> set xs. unat (snd x) \<le> unat T"
    and "unat d + (\<Sum>x\<leftarrow>xs. unat P * unat (snd x) div unat T) < 2 ^ 64"
    and "share_loop P T xs d = (shares, d')"
  shows "unat d' = unat d + total_of (map rs_amount shares) \<and>
    map (\<lambda>r. unat (rs_amount r)) shares = map (\<lambda>x. unat P * unat (snd x) div unat T) xs \<and>
    map rs_recipient shares = map fst xs"
  using assms
proof (induction xs arbitrary: d shares)
  case (Cons x xs)
  let ?q = "unat P * unat (snd x) div unat T"
  define sh where "sh = mul_div_u64 P (ucast (snd x)) (ucast T)"
  obtain sh' where rest: "share_loop P T xs (sat_add d sh) = (sh', d')"
    and shares: "shares = \<lparr>rs_recipient = fst x, rs_amount = sh\<rparr> # sh'"
    using Cons.prems(4) by (auto simp: Let_def sh_def split: prod.splits)
  have u: "unat (ucast (a :: u64) :: u128) = unat a" for a
    using unat_bound [of a] by (simp add: unsigned_ucast_eq take_bit_nat_eq_self)
  have "?q < 2 ^ 64" using Cons.prems(3) by simp
  then have q: "unat sh = ?q"
    unfolding sh_def using Cons.prems(1) unat_bound [of "snd x"]
    by (subst mul_div_u64_value) (simp_all add: u)
  have d: "unat (sat_add d sh) = unat d + ?q"
    using Cons.prems(3) q by (simp add: int_simps min_def)
  from Cons.IH [OF Cons.prems(1) _ _ rest] Cons.prems(2,3) d q shares show ?case by simp
qed simp

lemma sum_floor_le:
  fixes P T :: nat
  assumes "0 < T"
  shows "(\<Sum>x\<leftarrow>xs. P * f x div T) \<le> P * (\<Sum>x\<leftarrow>xs. f x) div T"
proof (induction xs)
  case (Cons x xs)
  have "P * f x div T + P * (\<Sum>x\<leftarrow>xs. f x) div T \<le> (P * f x + P * (\<Sum>x\<leftarrow>xs. f x)) div T"
    by (subst div_add1_eq [of "P * f x"]) (rule le_add1)
  with Cons show ?case by (simp add: distrib_left)
qed simp

lemma fold_sat_add:
  assumes "unat acc + total_of (map snd xs) < 2 ^ 64"
  shows "unat (fold (\<lambda>x acc. sat_add acc (snd x)) xs acc) = unat acc + total_of (map snd xs)"
  using assms
proof (induction xs arbitrary: acc)
  case (Cons x xs)
  then have "unat (sat_add acc (snd x)) = unat acc + unat (snd x)" by (simp add: int_simps min_def)
  with Cons show ?case by simp
qed simp

text \<open>The margin of a validated pool never exceeds what it is taken from.\<close>

lemma margin_value:
  assumes "sp_margin_den p \<noteq> 0" and "sp_margin_num p \<le> sp_margin_den p"
  shows "unat (mul_div_u64 a (ucast (sp_margin_num p)) (ucast (sp_margin_den p))) \<le> unat a"
proof -
  let ?n = "unat (sp_margin_num p)" and ?d = "unat (sp_margin_den p)"
  have u: "unat (ucast (x :: u32) :: u128) = unat x" for x
    using unat_bound [of x] by (simp add: unsigned_ucast_eq take_bit_nat_eq_self)
  have d: "0 < ?d" "?n \<le> ?d" using assms by (simp_all add: unat_gt_0 word_le_nat_alt)
  have "unat a * ?n div ?d \<le> unat a * ?d div ?d" using d by (intro div_le_mono mult_le_mono2)
  then have le: "unat a * ?n div ?d \<le> unat a" using d by simp
  moreover have "unat a < 2 ^ 64" "?n < 2 ^ 64"
    using unat_bound [of a] unat_bound [of "sp_margin_num p"] by simp_all
  ultimately show ?thesis
    using d by (subst mul_div_u64_value) (simp_all add: u del: le_numeral_extra)
qed

lemma shares_fit:
  fixes P :: u64
  assumes "share_loop P T xs 0 = (shares, d)" and "unat T = total_of (map snd xs)" and "0 < unat T"
  shows "unat d = total_of (map rs_amount shares) \<and> unat d \<le> unat P \<and>
    map rs_recipient shares = map fst xs \<and>
    map (\<lambda>r. unat (rs_amount r)) shares = map (\<lambda>x. unat P * unat (snd x) div unat T) xs"
proof -
  have "(\<Sum>x\<leftarrow>xs. unat P * unat (snd x) div unat T) \<le>
      unat P * (\<Sum>x\<leftarrow>xs. unat (snd x)) div unat T"
    by (rule sum_floor_le [OF assms(3)])
  also have "\<dots> = unat P" using assms(2,3) by (simp add: comp_def)
  finally have le: "(\<Sum>x\<leftarrow>xs. unat P * unat (snd x) div unat T) \<le> unat P" .
  then have "unat (0 :: u64) + (\<Sum>x\<leftarrow>xs. unat P * unat (snd x) div unat T) < 2 ^ 64"
    using unat_bound [of P] by simp
  moreover have "\<forall>x \<in> set xs. unat (snd x) \<le> unat T"
    unfolding assms(2) by (intro ballI member_le_sum_list) auto
  ultimately have *: "unat d = total_of (map rs_amount shares)"
    "map (\<lambda>r. unat (rs_amount r)) shares = map (\<lambda>x. unat P * unat (snd x) div unat T) xs"
    "map rs_recipient shares = map fst xs"
    using share_loop_sum [OF assms(3) _ _ assms(1)] by auto
  with le show ?thesis by (simp add: comp_def)
qed

text \<open>
  A reward is split without loss. For a pool whose margin is valid and delegators whose
  stakes fit in 64 bits, the operator's part and the delegators' shares add up to exactly the
  block reward, rounding dust included; the operator gets at least the fixed cost (or all of a
  smaller reward), and the shares go to the delegators in order or to nobody.
\<close>

theorem reward_split_conserves:
  assumes "pool_validate pool = Inr ()" and "total_of (map snd ds) < 2 ^ 64"
    and "distribute_reward tot pool ds = (operator, shares)"
  shows "unat operator + total_of (map rs_amount shares) = unat tot \<and>
    min (sp_fixed_cost pool) tot \<le> operator \<and>
    (shares = [] \<or> map rs_recipient shares = map fst ds)"
proof (cases "tot = 0")
  case True
  with assms(3) show ?thesis by (simp add: distribute_reward_def)
next
  case False
  define cost where "cost = min (sp_fixed_cost pool) tot"
  define after where "after = sat_sub tot cost"
  define margin where "margin =
    mul_div_u64 after (ucast (sp_margin_num pool)) (ucast (sp_margin_den pool))"
  define P where "P = sat_sub after margin"
  define T where "T = fold (\<lambda>x acc. sat_add acc (snd x)) ds 0"
  have pool: "sp_margin_den pool \<noteq> 0" "sp_margin_num pool \<le> sp_margin_den pool"
    using assms(1) by (simp_all add: res_simps)
  then have den: "0 < sp_margin_den pool" by (simp add: word_neq_0_conv)
  have cost: "unat cost \<le> unat tot" by (simp add: cost_def word_le_nat_alt [symmetric])
  have margin: "unat margin \<le> unat after" unfolding margin_def by (rule margin_value [OF pool])
  have after: "unat after = unat tot - unat cost" by (simp add: after_def int_simps)
  have P: "unat P = unat after - unat margin" by (simp add: P_def int_simps)
  have T: "unat T = total_of (map snd ds)"
    unfolding T_def using assms(2) by (subst fold_sat_add) simp_all
  define r where "r = (if 0 < T \<and> 0 < P then share_loop P T ds 0 else ([], 0))"
  define d where "d = snd r"
  have "distribute_reward tot pool ds = (sat_add (sat_add cost margin) (sat_sub P (snd r)), fst r)"
    using False den
    by (simp add: distribute_reward_def Let_def cost_def after_def margin_def P_def T_def r_def
        case_prod_unfold)
  then have opr: "operator = sat_add (sat_add cost margin) (sat_sub P d)"
    and sh: "(shares, d) = (if 0 < T \<and> 0 < P then share_loop P T ds 0 else ([], 0))"
    using assms(3) by (simp_all add: d_def r_def [symmetric])
  have d: "unat d = total_of (map rs_amount shares) \<and> unat d \<le> unat P \<and>
      (shares = [] \<or> map rs_recipient shares = map fst ds)"
  proof (cases "0 < T \<and> 0 < P")
    case True
    then have "share_loop P T ds 0 = (shares, d)" "0 < unat T"
      using sh by (simp_all add: unat_gt_0 word_neq_0_conv)
    from shares_fit [OF this(1) T this(2)] show ?thesis by simp
  qed (use sh in auto)
  have tot: "unat tot < 2 ^ 64" using unat_bound [of tot] by simp
  have "unat (sat_add cost margin) = unat cost + unat margin"
    using cost margin after tot by (simp add: int_simps min_def)
  moreover have "unat cost + unat margin + (unat P - unat d) \<le> 2 ^ 64 - 1"
    using cost margin after P tot by linarith
  ultimately have "unat operator = unat cost + unat margin + (unat P - unat d)"
    unfolding opr unat_sat_add [of "sat_add cost margin"] unat_sat_sub by simp
  moreover from this have "cost \<le> operator" by (simp add: word_le_nat_alt)
  moreover from calculation(1) d cost margin after P
  have "unat operator + total_of (map rs_amount shares) = unat tot" by linarith
  ultimately show ?thesis using d by (simp add: cost_def)
qed

definition demo_pool :: stake_pool where
  "demo_pool =
     \<lparr>sp_id = hash_zero, sp_vrf_key = [], sp_kes_key = [], sp_pledge = 0, sp_margin_num = 1,
      sp_margin_den = 10, sp_fixed_cost = 5, sp_active = True\<rparr>"

theorem reward_split_conserves_witness:
  "pool_validate demo_pool = Inr () \<and>
   (\<exists>operator shares. distribute_reward 100 demo_pool [(hash_zero, 2), (hash_zero, 1)] = (operator, shares) \<and>
      unat operator + total_of (map rs_amount shares) = 100)"
proof -
  have v: "pool_validate demo_pool = Inr ()" by (simp add: pool_validate_def demo_pool_def)
  obtain operator shares where
    d: "distribute_reward 100 demo_pool [(hash_zero, 2), (hash_zero, 1)] = (operator, shares)"
    by fastforce
  from reward_split_conserves [OF v _ d] v d show ?thesis by simp
qed

end
