(* ===== verification/QV_Utxo.thy ===== *)
theory QV_Utxo
  imports QV_Block
begin

text \<open>
  \<open>qv-core/src/utxo.rs\<close>: the \<open>UtxoSet\<close> trait as a locale, its in-memory implementation
  over the ordered map, and the commitment root over the entries in key order.
\<close>

datatype utxo_error = DuplicateOutPoint | UtxoNotFound

section \<open>The trait\<close>

text \<open>
  The operations and the contract the trait's documentation states: an insert fails exactly
  on a present outpoint, a remove fails exactly on an absent one and returns what was there,
  other outpoints are untouched, and the commitment is a function of the contents only.
\<close>

locale utxo_set =
  fixes insert_u :: "'s \<Rightarrow> outpoint \<Rightarrow> tx_output \<Rightarrow> (utxo_error, 's) result"
    and remove_u :: "'s \<Rightarrow> outpoint \<Rightarrow> (utxo_error, tx_output \<times> 's) result"
    and get_u :: "'s \<Rightarrow> outpoint \<Rightarrow> tx_output option"
    and commit_u :: "'s \<Rightarrow> utxo_commitment"
    and ok_u :: "'s \<Rightarrow> bool"
  assumes insert_dup: "ok_u s \<Longrightarrow> get_u s p \<noteq> None \<Longrightarrow> insert_u s p out = Inl DuplicateOutPoint"
    and insert_new: "ok_u s \<Longrightarrow> get_u s p = None \<Longrightarrow>
      \<exists>s'. insert_u s p out = Inr s' \<and> ok_u s' \<and> get_u s' = (get_u s)(p \<mapsto> out)"
    and remove_absent: "ok_u s \<Longrightarrow> get_u s p = None \<Longrightarrow> remove_u s p = Inl UtxoNotFound"
    and remove_present: "ok_u s \<Longrightarrow> get_u s p = Some out \<Longrightarrow>
      \<exists>s'. remove_u s p = Inr (out, s') \<and> ok_u s' \<and> get_u s' = (get_u s)(p := None)"
    and commit_content: "ok_u s \<Longrightarrow> ok_u s' \<Longrightarrow> get_u s = get_u s' \<Longrightarrow> commit_u s = commit_u s'"
begin

lemma insert_Inr_iff:
  "ok_u s \<Longrightarrow> (\<exists>s'. insert_u s p out = Inr s') \<longleftrightarrow> get_u s p = None"
  using insert_dup [of s p out] insert_new [of s p out] by (cases "get_u s p") auto

lemma insert_InrD:
  assumes "ok_u s" and "insert_u s p out = Inr s'"
  shows "get_u s p = None \<and> ok_u s' \<and> get_u s' = (get_u s)(p \<mapsto> out)"
proof -
  have "get_u s p = None" using assms insert_Inr_iff by blast
  moreover from insert_new [OF assms(1) this]
  obtain t where "insert_u s p out = Inr t" "ok_u t" "get_u t = (get_u s)(p \<mapsto> out)" by blast
  ultimately show ?thesis using assms(2) by simp
qed

text \<open>Spending what was just created restores the commitment.\<close>

lemma insert_remove_commit:
  assumes "ok_u s" and "insert_u s p out = Inr s'"
  shows "\<exists>s''. remove_u s' p = Inr (out, s'') \<and> get_u s'' = get_u s \<and> commit_u s'' = commit_u s"
proof -
  from insert_InrD [OF assms]
  have s': "ok_u s'" "get_u s' p = Some out" "get_u s' = (get_u s)(p \<mapsto> out)" "get_u s p = None"
    by auto
  then obtain s'' where "remove_u s' p = Inr (out, s'')" "ok_u s''"
    "get_u s'' = (get_u s')(p := None)"
    using remove_present by blast
  moreover from this s' have "get_u s'' = get_u s" by (auto simp: fun_eq_iff)
  ultimately show ?thesis using assms(1) commit_content by blast
qed

text \<open>Two inserts of different outpoints commute, commitment included.\<close>

lemma insert_order_commit:
  assumes "ok_u s" and "p \<noteq> q"
    and "insert_u s p a = Inr s1" and "insert_u s1 q b = Inr s2"
  shows "\<exists>t1 t2. insert_u s q b = Inr t1 \<and> insert_u t1 p a = Inr t2 \<and>
           get_u t2 = get_u s2 \<and> commit_u t2 = commit_u s2"
proof -
  have s1: "get_u s p = None" "ok_u s1" "get_u s1 = (get_u s)(p \<mapsto> a)"
    using insert_InrD [OF assms(1,3)] by auto
  have s2: "get_u s1 q = None" "ok_u s2" "get_u s2 = (get_u s1)(q \<mapsto> b)"
    using insert_InrD [OF s1(2) assms(4)] by auto
  from s1 s2 assms(2) have "get_u s q = None" by simp
  then obtain t1 where t1: "insert_u s q b = Inr t1" "ok_u t1" "get_u t1 = (get_u s)(q \<mapsto> b)"
    using insert_new [OF assms(1)] by blast
  with s1 assms(2) have "get_u t1 p = None" by simp
  then obtain t2 where t2: "insert_u t1 p a = Inr t2" "ok_u t2" "get_u t2 = (get_u t1)(p \<mapsto> a)"
    using insert_new [OF t1(2)] by blast
  have "get_u t2 = get_u s2"
    using t1 t2 s1 s2 assms(2) by (simp add: fun_upd_twist)
  with t1 t2 s2 show ?thesis using commit_content by blast
qed

end

section \<open>The commitment\<close>

definition commitment_leaf :: "'z tx_env_scheme \<Rightarrow> outpoint \<times> tx_output \<Rightarrow> txid" where
  "commitment_leaf E e =
     (let out_bytes = (case ser_output E (snd e) of Inr bs \<Rightarrow> bs | Inl _ \<Rightarrow> [])
      in Hash256 (sha3_256 E (op_canonical_bytes (fst e) @ out_bytes)))"

definition commitment_root_of_sorted_entries ::
  "'z tx_env_scheme \<Rightarrow> (outpoint \<times> tx_output) list \<Rightarrow> utxo_commitment" where
  "commitment_root_of_sorted_entries E entries =
     merkle_root_of (sha3_256 E) (map (commitment_leaf E) entries)"

section \<open>The in-memory set\<close>

type_synonym in_memory_utxo_set = "(outpoint, tx_output) btree"

definition mem_new :: in_memory_utxo_set where
  "mem_new = []"

definition mem_insert ::
  "in_memory_utxo_set \<Rightarrow> outpoint \<Rightarrow> tx_output \<Rightarrow> (utxo_error, in_memory_utxo_set) result" where
  "mem_insert s p out = (if bt_has s p then Inl DuplicateOutPoint else Inr (bt_insert p out s))"

definition mem_remove ::
  "in_memory_utxo_set \<Rightarrow> outpoint \<Rightarrow> (utxo_error, tx_output \<times> in_memory_utxo_set) result" where
  "mem_remove s p = bind_res (ok_or (bt_get s p) UtxoNotFound) (\<lambda>out. Inr (out, bt_remove p s))"

definition mem_get :: "in_memory_utxo_set \<Rightarrow> outpoint \<Rightarrow> tx_output option" where
  "mem_get s p = bt_get s p"

definition mem_contains :: "in_memory_utxo_set \<Rightarrow> outpoint \<Rightarrow> bool" where
  "mem_contains s p \<longleftrightarrow> mem_get s p \<noteq> None"

definition mem_len :: "in_memory_utxo_set \<Rightarrow> nat" where
  "mem_len s = length s"

definition mem_commitment_root :: "'z tx_env_scheme \<Rightarrow> in_memory_utxo_set \<Rightarrow> utxo_commitment" where
  "mem_commitment_root E s = commitment_root_of_sorted_entries E s"

lemma mem_get_fun: "mem_get s = bt_get s"
  by (simp add: fun_eq_iff mem_get_def)

interpretation mem: utxo_set mem_insert mem_remove mem_get "mem_commitment_root E" bt_ok
  for E :: "'z tx_env_scheme"
proof unfold_locales
  fix s s' :: in_memory_utxo_set
  assume "bt_ok s" "bt_ok s'" "mem_get s = mem_get s'"
  then have "s = s'" using bt.items_ext by (simp add: mem_get_fun)
  then show "mem_commitment_root E s = mem_commitment_root E s'" by simp
qed (auto simp: mem_insert_def mem_remove_def mem_get_fun bt_simps)

text \<open>Inserting a list of entries, failing at the first duplicate.\<close>

fun mem_insert_all ::
  "in_memory_utxo_set \<Rightarrow> (outpoint \<times> tx_output) list \<Rightarrow> (utxo_error, in_memory_utxo_set) result" where
  "mem_insert_all s [] = Inr s"
| "mem_insert_all s (e # es) =
     bind_res (mem_insert s (fst e) (snd e)) (\<lambda>s'. mem_insert_all s' es)"

lemma mem_insert_all_content:
  assumes "bt_ok s" and "mem_insert_all s es = Inr s'"
  shows "bt_ok s' \<and> mem_get s' = mem_get s ++ map_of es \<and> distinct (map fst es) \<and>
    (\<forall>p \<in> set (map fst es). mem_get s p = None)"
  using assms
proof (induction es arbitrary: s)
  case (Cons e es)
  then obtain t where t: "mem_insert s (fst e) (snd e) = Inr t" "mem_insert_all t es = Inr s'"
    by (auto simp: res_simps)
  have t': "mem_get s (fst e) = None" "bt_ok t" "mem_get t = (mem_get s)(fst e \<mapsto> snd e)"
    using mem.insert_InrD [OF Cons.prems(1) t(1)] by auto
  from Cons.IH [OF t'(2) t(2)]
  have IH: "bt_ok s'" "mem_get s' = mem_get t ++ map_of es" "distinct (map fst es)"
    "\<forall>p \<in> set (map fst es). mem_get t p = None" by auto
  have "fst e \<notin> set (map fst es)" using IH(4) t'(3) by auto
  then have "map_of es (fst e) = None" by (simp add: map_of_eq_None_iff)
  then have "mem_get s' = mem_get s ++ map_of (e # es)"
    using IH(2) t'(3) by (auto simp: fun_eq_iff map_add_def split: option.splits)
  moreover have "\<forall>p \<in> set (map fst es). mem_get s p = None"
    using IH(4) t'(3) by (auto split: if_splits)
  ultimately show ?case
    using IH(1,3) t'(1) \<open>fst e \<notin> set (map fst es)\<close> by (simp del: map_of.simps)
qed auto

text \<open>
  The in-memory UTXO set keeps the trait's promises: an insert fails exactly on a present
  outpoint and a remove exactly on an absent one, a remove returns the stored output and
  undoes the insert (commitment root included), and two sets filled with the same entries in
  any two orders have the same contents and the same commitment root.
\<close>

theorem utxo_set_contract:
  assumes "bt_ok s"
  shows "(mem_contains s p \<longleftrightarrow> mem_insert s p out = Inl DuplicateOutPoint) \<and>
    (\<not> mem_contains s p \<longleftrightarrow> mem_remove s p = Inl UtxoNotFound) \<and>
    (mem_insert s p out = Inr s' \<longrightarrow>
       (\<exists>s''. mem_remove s' p = Inr (out, s'') \<and> mem_get s'' = mem_get s \<and>
          mem_commitment_root E s'' = mem_commitment_root E s)) \<and>
    (mem_insert_all s es = Inr t \<longrightarrow> mset es = mset es' \<longrightarrow> mem_insert_all s es' = Inr t' \<longrightarrow>
       mem_get t = mem_get t' \<and> mem_commitment_root E t = mem_commitment_root E t')"
proof (intro conjI impI)
  show "mem_contains s p \<longleftrightarrow> mem_insert s p out = Inl DuplicateOutPoint"
    by (simp add: mem_contains_def mem_insert_def mem_get_def)
  show "\<not> mem_contains s p \<longleftrightarrow> mem_remove s p = Inl UtxoNotFound"
    by (auto simp: mem_contains_def mem_remove_def mem_get_def res_simps)
  show "\<exists>s''. mem_remove s' p = Inr (out, s'') \<and> mem_get s'' = mem_get s \<and>
      mem_commitment_root E s'' = mem_commitment_root E s"
    if "mem_insert s p out = Inr s'"
    using mem.insert_remove_commit [OF assms that, where E = E] .
  assume *: "mem_insert_all s es = Inr t" "mset es = mset es'" "mem_insert_all s es' = Inr t'"
  have "map_of es = map_of es'"
    using *(2) mem_insert_all_content [OF assms *(1)] mem_insert_all_content [OF assms *(3)]
    by (intro map_of_inject_set [THEN iffD2]) (auto dest: mset_eq_setD)
  then show get: "mem_get t = mem_get t'"
    using mem_insert_all_content [OF assms *(1)] mem_insert_all_content [OF assms *(3)] by simp
  show "mem_commitment_root E t = mem_commitment_root E t'"
    using mem.commit_content [OF _ _ get] mem_insert_all_content [OF assms *(1)]
      mem_insert_all_content [OF assms *(3)] by blast
qed

theorem utxo_set_contract_witness:
  "bt_ok mem_new \<and>
   mem_insert mem_new (OutPoint hash_zero 0) (tx_output_new 7 [1]) =
     Inr [(OutPoint hash_zero 0, tx_output_new 7 [1])] \<and>
   (\<exists>s''. mem_remove [(OutPoint hash_zero 0, tx_output_new 7 [1])] (OutPoint hash_zero 0) =
      Inr (tx_output_new 7 [1], s'') \<and> mem_get s'' = mem_get mem_new)"
proof -
  have ok: "bt_ok mem_new" by (simp add: mem_new_def bt_ok_def)
  have ins: "mem_insert mem_new (OutPoint hash_zero 0) (tx_output_new 7 [1]) =
      Inr [(OutPoint hash_zero 0, tx_output_new 7 [1])]"
    by (simp add: mem_insert_def mem_new_def)
  show ?thesis using ok ins utxo_set_contract [OF ok] by blast
qed

end
