(* ===== verification/QV_Kv.thy ===== *)
theory QV_Kv
  imports QV_Prelude
begin

text \<open>
  \<open>qv-storage/src/kv.rs\<close>: the key-value interface of the stores as a locale, and the in-memory
  backend. The RocksDB and redb backends wrap third-party engines. A poisoned lock needs a panic
  of another thread and is not modelled, so the backend's calls succeed.
\<close>

section \<open>The backend\<close>

datatype batch_op = BPut bytes bytes | BDelete bytes

type_synonym kv_store = "(bytes, bytes) btree"

definition kv_new :: kv_store where
  "kv_new = []"

fun apply_batch_op :: "batch_op \<Rightarrow> kv_store \<Rightarrow> kv_store" where
  "apply_batch_op (BPut k v) m = bt_insert k v m"
| "apply_batch_op (BDelete k) m = bt_remove k m"

definition kv_write_batch :: "batch_op list \<Rightarrow> kv_store \<Rightarrow> kv_store" where
  "kv_write_batch ops m = (if ops = [] then m else fold apply_batch_op ops m)"

definition kv_get :: "kv_store \<Rightarrow> bytes \<Rightarrow> bytes option" where
  "kv_get m k = bt_get m k"

definition kv_put :: "bytes \<Rightarrow> bytes \<Rightarrow> kv_store \<Rightarrow> kv_store" where
  "kv_put k v m = bt_insert k v m"

definition kv_delete :: "bytes \<Rightarrow> kv_store \<Rightarrow> kv_store" where
  "kv_delete k m = bt_remove k m"

definition starts_with :: "bytes \<Rightarrow> bytes \<Rightarrow> bool" where
  "starts_with p k \<longleftrightarrow> take (length p) k = p"

text \<open>\<open>range(prefix..)\<close>, stopping at the first key that does not start with the prefix.\<close>

definition kv_scan_prefix :: "kv_store \<Rightarrow> bytes \<Rightarrow> (bytes \<times> bytes) list" where
  "kv_scan_prefix m p = takeWhile (\<lambda>e. starts_with p (fst e)) (dropWhile (\<lambda>e. fst e < p) m)"

section \<open>The interface\<close>

text \<open>What a batch does to the contents of a store: its operations in order.\<close>

fun op_effect :: "batch_op \<Rightarrow> (bytes \<rightharpoonup> bytes) \<Rightarrow> (bytes \<rightharpoonup> bytes)" where
  "op_effect (BPut k v) c = c(k \<mapsto> v)"
| "op_effect (BDelete k) c = c(k := None)"

definition batch_effect :: "batch_op list \<Rightarrow> (bytes \<rightharpoonup> bytes) \<Rightarrow> (bytes \<rightharpoonup> bytes)" where
  "batch_effect ops c = fold op_effect ops c"

fun op_key :: "batch_op \<Rightarrow> bytes" where
  "op_key (BPut k v) = k"
| "op_key (BDelete k) = k"

locale kv_backend =
  fixes get :: "'s \<Rightarrow> bytes \<Rightarrow> bytes option"
    and wr :: "batch_op list \<Rightarrow> 's \<Rightarrow> 's"
    and scan :: "'s \<Rightarrow> bytes \<Rightarrow> (bytes \<times> bytes) list"
    and ok :: "'s \<Rightarrow> bool"
  assumes ok_write: "ok m \<Longrightarrow> ok (wr ops m)"
    and get_write: "ok m \<Longrightarrow> get (wr ops m) = batch_effect ops (get m)"
    and scan_sound: "ok m \<Longrightarrow> set (scan m p) = {(k, v). get m k = Some v \<and> starts_with p k}"
    and scan_sorted: "ok m \<Longrightarrow> sorted_wrt (<) (map fst (scan m p))"
    and ext: "ok m \<Longrightarrow> ok m' \<Longrightarrow> get m = get m' \<Longrightarrow> m = m'"
begin

lemma write_other:
  assumes "ok m" and "k \<notin> op_key ` set ops"
  shows "get (wr ops m) k = get m k"
proof -
  have "fold op_effect ops c k = c k" for c
    using assms(2) by (induction ops arbitrary: c) (auto, (case_tac a; simp)+)
  then show ?thesis using get_write [OF assms(1)] by (simp add: batch_effect_def)
qed

lemma write_append: "ok m \<Longrightarrow> wr (a @ b) m = wr b (wr a m)"
  by (rule ext) (simp_all add: ok_write get_write batch_effect_def)

end

section \<open>The in-memory backend keeps the interface\<close>

lemma starts_with_ge: "starts_with p k \<Longrightarrow> p \<le> k"
proof (induction p arbitrary: k)
  case (Cons x p)
  then obtain k' where "k = x # k'" "starts_with p k'" by (cases k) (auto simp: starts_with_def)
  with Cons.IH show ?case by simp
qed simp

lemma starts_with_convex:
  "p \<le> k \<Longrightarrow> k < k' \<Longrightarrow> starts_with p k' \<Longrightarrow> starts_with p k"
proof (induction p arbitrary: k k')
  case (Cons x p)
  from Cons.prems(3) obtain r' where r': "k' = x # r'" "starts_with p r'"
    by (cases k') (auto simp: starts_with_def)
  from Cons.prems(1) obtain y r where r: "k = y # r" "x < y \<or> x = y \<and> p \<le> r" by (cases k) auto
  with Cons.prems(2) r'(1) have "y = x" "r < r'" by auto
  with Cons.IH [of r r'] r r' show ?case by (auto simp: starts_with_def)
qed (simp add: starts_with_def)

lemma takeWhile_prefix_filter:
  assumes "sorted_wrt (<) (map fst m)" and "\<forall>e \<in> set m. p \<le> fst e"
  shows "takeWhile (\<lambda>e. starts_with p (fst e)) m = filter (\<lambda>e. starts_with p (fst e)) m"
  using assms
proof (induction m)
  case (Cons e es)
  show ?case
  proof (cases "starts_with p (fst e)")
    case False
    have "\<not> starts_with p (fst x)" if "x \<in> set es" for x
      using False Cons.prems that starts_with_convex [of p "fst e" "fst x"] by auto
    with False show ?thesis by (simp add: filter_empty_conv)
  qed (use Cons in auto)
qed simp

lemma kv_scan_prefix_filter:
  assumes "bt_ok m"
  shows "kv_scan_prefix m p = filter (\<lambda>e. starts_with p (fst e)) m"
  using assms
proof (induction m)
  case (Cons e es)
  then have IH: "kv_scan_prefix es p = filter (\<lambda>e. starts_with p (fst e)) es"
    by (simp add: bt_ok_Cons)
  show ?case
  proof (cases "fst e < p")
    case True
    then have "\<not> starts_with p (fst e)" using starts_with_ge [of p "fst e"] by auto
    with True IH show ?thesis by (simp add: kv_scan_prefix_def)
  next
    case False
    then have "\<forall>x \<in> set (e # es). p \<le> fst x" using Cons.prems by (auto simp: bt_ok_Cons)
    with False takeWhile_prefix_filter [of "e # es" p] Cons.prems show ?thesis
      by (simp add: kv_scan_prefix_def bt_ok_def)
  qed
qed (simp add: kv_scan_prefix_def)

lemma fold_apply_batch:
  "bt_ok m \<Longrightarrow> bt_ok (fold apply_batch_op ops m) \<and>
     bt_get (fold apply_batch_op ops m) = fold op_effect ops (bt_get m)"
proof (induction ops arbitrary: m)
  case (Cons a ops)
  then show ?case by (cases a) (simp_all add: bt_simps fun_upd_def)
qed simp

lemma kv_get_fun: "kv_get m = bt_get m"
  by (simp add: fun_eq_iff kv_get_def)

interpretation kv: kv_backend kv_get kv_write_batch kv_scan_prefix bt_ok
proof unfold_locales
  fix m :: kv_store and ops p
  assume ok: "bt_ok m"
  then show "bt_ok (kv_write_batch ops m)"
    and "kv_get (kv_write_batch ops m) = batch_effect ops (kv_get m)"
    using fold_apply_batch [OF ok, of ops]
    by (auto simp: kv_write_batch_def batch_effect_def kv_get_fun)
  have "distinct (map fst m)" using ok by (simp add: bt_ok_def strict_sorted_iff)
  then show "set (kv_scan_prefix m p) = {(k, v). kv_get m k = Some v \<and> starts_with p k}"
    by (auto simp: kv_scan_prefix_filter [OF ok] kv_get_def)
  show "sorted_wrt (<) (map fst (kv_scan_prefix m p))"
    using ok by (simp add: kv_scan_prefix_filter bt_ok_def sorted_wrt_map sorted_wrt_filter)
next
  fix m m' :: kv_store
  assume "bt_ok m" "bt_ok m'" "kv_get m = kv_get m'"
  then show "m = m'" using bt.items_ext by (simp add: kv_get_fun)
qed

text \<open>
  The prefix scan of the in-memory backend, which starts at the prefix and stops at the first
  key without it, returns exactly the entries whose key starts with the prefix, in key order;
  the early stop misses nothing.
\<close>

theorem scan_prefix_complete:
  assumes "bt_ok m"
  shows "kv_scan_prefix m p = filter (\<lambda>e. take (length p) (fst e) = p) m"
  using kv_scan_prefix_filter [OF assms] by (simp add: starts_with_def)

theorem scan_prefix_complete_witness:
  "kv_scan_prefix [([1], [0]), ([2, 3], [1]), ([2, 9], [2]), ([3], [3])] [2] =
     [([2, 3], [1]), ([2, 9], [2])]"
  by (subst scan_prefix_complete) (simp_all add: bt_ok_def)

end
