(* ===== verification/QV_UtxoStore.thy ===== *)
theory QV_UtxoStore
  imports QV_Utxo QV_Kv
begin

text \<open>
  \<open>qv-storage/src/utxo_store.rs\<close>: the persistent UTXO set over the key-value backend, with the
  connect and disconnect of blocks. Values are encoded with \<open>bincode\<close>, a third-party crate: the
  encoders are fields of \<open>store_env\<close>, and \<open>bincode_ok\<close> is the law that decoding undoes encoding.
\<close>

section \<open>Data\<close>

datatype storage_error =
    Backend string
  | EncodeErr string
  | DecodeErr string
  | Corrupted string
  | NotFound string
  | AlreadyExists string
  | InvalidInput string
  | BlockErr block_error
  | TransactionErr transaction_error

record undo_log =
  ul_spent :: "(outpoint \<times> tx_output) list"
  ul_spent_coinbase_heights :: "(outpoint \<times> u64) list"

record store_env = block_env +
  ser_undo :: "undo_log \<Rightarrow> (string, bytes) result"
  de_undo :: "bytes \<Rightarrow> (string, undo_log) result"
  ser_u64 :: "u64 \<Rightarrow> (string, bytes) result"
  de_u64 :: "bytes \<Rightarrow> (string, u64) result"
  ser_snapshot :: "(outpoint \<times> tx_output) list \<Rightarrow> (string, bytes) result"
  de_snapshot :: "bytes \<Rightarrow> (string, (outpoint \<times> tx_output) list) result"

definition encode_with :: "('a \<Rightarrow> (string, bytes) result) \<Rightarrow> 'a \<Rightarrow> (storage_error, bytes) result" where
  "encode_with ser x = map_err EncodeErr (ser x)"

definition decode_with :: "(bytes \<Rightarrow> (string, 'a) result) \<Rightarrow> bytes \<Rightarrow> (storage_error, 'a) result" where
  "decode_with de b = map_err DecodeErr (de b)"

definition ascii :: "string \<Rightarrow> bytes" where
  "ascii s = map of_char s"

definition UTXO_ENTRY_PREFIX :: bytes where
  "UTXO_ENTRY_PREFIX = ascii ''utxo:entry:''"

definition UTXO_UNDO_PREFIX :: bytes where
  "UTXO_UNDO_PREFIX = ascii ''utxo:undo:''"

definition UTXO_SNAPSHOT_PREFIX :: bytes where
  "UTXO_SNAPSHOT_PREFIX = ascii ''utxo:snapshot:''"

definition UTXO_COINBASE_HEIGHT_PREFIX :: bytes where
  "UTXO_COINBASE_HEIGHT_PREFIX = ascii ''utxo:cbh:''"

definition key_outpoint :: "outpoint \<Rightarrow> bytes" where
  "key_outpoint p = UTXO_ENTRY_PREFIX @ op_canonical_bytes p"

definition key_undo :: "block_hash \<Rightarrow> bytes" where
  "key_undo h = UTXO_UNDO_PREFIX @ hbytes h"

definition key_coinbase_height :: "outpoint \<Rightarrow> bytes" where
  "key_coinbase_height p = UTXO_COINBASE_HEIGHT_PREFIX @ op_canonical_bytes p"

definition key_snapshot :: "bytes \<Rightarrow> bytes" where
  "key_snapshot i = UTXO_SNAPSHOT_PREFIX @ i"

definition outpoint_from_key :: "bytes \<Rightarrow> (storage_error, outpoint) result" where
  "outpoint_from_key key =
     (if \<not> starts_with UTXO_ENTRY_PREFIX key then Inl (Corrupted ''invalid utxo key prefix'')
      else let raw = drop (length UTXO_ENTRY_PREFIX) key in
        if length raw \<noteq> 36 then Inl (Corrupted ''invalid utxo key length'')
        else Inr (OutPoint (Hash256 (take 32 raw)) (of_nat (le_val (drop 32 raw)))))"

section \<open>Single entries\<close>

definition utxo_insert ::
  "'z store_env_scheme \<Rightarrow> kv_store \<Rightarrow> outpoint \<Rightarrow> tx_output \<Rightarrow> (storage_error, kv_store) result" where
  "utxo_insert E m p out =
     (if kv_get m (key_outpoint p) \<noteq> None then Inl (AlreadyExists ''utxo outpoint'')
      else bind_res (encode_with (ser_output E) out) (\<lambda>b. Inr (kv_put (key_outpoint p) b m)))"

text \<open>The code deletes before it decodes, so the deletion stands even when decoding fails.\<close>

definition utxo_remove ::
  "'z store_env_scheme \<Rightarrow> kv_store \<Rightarrow> outpoint \<Rightarrow> (storage_error, tx_output option) result \<times> kv_store" where
  "utxo_remove E m p =
     (case kv_get m (key_outpoint p) of
        None \<Rightarrow> (Inr None, m)
      | Some b \<Rightarrow>
          (bind_res (decode_with (de_output E) b) (\<lambda>out. Inr (Some out)), kv_delete (key_outpoint p) m))"

definition utxo_get ::
  "'z store_env_scheme \<Rightarrow> kv_store \<Rightarrow> outpoint \<Rightarrow> (storage_error, tx_output option) result" where
  "utxo_get E m p =
     (case kv_get m (key_outpoint p) of
        None \<Rightarrow> Inr None
      | Some b \<Rightarrow> bind_res (decode_with (de_output E) b) (\<lambda>out. Inr (Some out)))"

definition utxo_contains :: "'z store_env_scheme \<Rightarrow> kv_store \<Rightarrow> outpoint \<Rightarrow> (storage_error, bool) result" where
  "utxo_contains E m p = bind_res (utxo_get E m p) (\<lambda>r. Inr (r \<noteq> None))"

definition utxo_len :: "kv_store \<Rightarrow> nat" where
  "utxo_len m = length (kv_scan_prefix m UTXO_ENTRY_PREFIX)"

fun decode_entries ::
  "'z store_env_scheme \<Rightarrow> (bytes \<times> bytes) list \<Rightarrow> (storage_error, (outpoint \<times> tx_output) list) result" where
  "decode_entries E [] = Inr []"
| "decode_entries E (e # es) =
     bind_res (outpoint_from_key (fst e)) (\<lambda>p.
     bind_res (decode_with (de_output E) (snd e)) (\<lambda>out.
     bind_res (decode_entries E es) (\<lambda>r. Inr ((p, out) # r))))"

definition utxo_entries ::
  "'z store_env_scheme \<Rightarrow> kv_store \<Rightarrow> (storage_error, (outpoint \<times> tx_output) list) result" where
  "utxo_entries E m = decode_entries E (kv_scan_prefix m UTXO_ENTRY_PREFIX)"

definition utxo_commitment_root ::
  "'z store_env_scheme \<Rightarrow> kv_store \<Rightarrow> (storage_error, utxo_commitment) result" where
  "utxo_commitment_root E m =
     bind_res (utxo_entries E m) (\<lambda>es.
       Inr (commitment_root_of_sorted_entries E (fold (\<lambda>e t. bt_insert (fst e) (snd e) t) es [])))"

definition utxo_coinbase_height ::
  "'z store_env_scheme \<Rightarrow> kv_store \<Rightarrow> outpoint \<Rightarrow> (storage_error, u64 option) result" where
  "utxo_coinbase_height E m p =
     (case kv_get m (key_coinbase_height p) of
        None \<Rightarrow> Inr None
      | Some b \<Rightarrow> bind_res (decode_with (de_u64 E) b) (\<lambda>h. Inr (Some h)))"

section \<open>Connecting a block\<close>

record staging =
  st_spent :: "(outpoint \<times> tx_output) list"
  st_consumed :: "outpoint set"
  st_new :: "(outpoint, tx_output) btree"

fun consume_inputs ::
  "'z store_env_scheme \<Rightarrow> kv_store \<Rightarrow> tx_input list \<Rightarrow> staging \<Rightarrow> (storage_error, staging) result" where
  "consume_inputs E m [] st = Inr st"
| "consume_inputs E m (i # is) st =
     (let p = prev_output i in
      if p \<in> st_consumed st then Inl (InvalidInput ''double spend inside block'')
      else
        let st = st\<lparr>st_consumed := insert p (st_consumed st)\<rparr> in
        if bt_has (st_new st) p
        then consume_inputs E m is (st\<lparr>st_new := bt_remove p (st_new st)\<rparr>)
        else case kv_get m (key_outpoint p) of
          None \<Rightarrow> Inl (NotFound ''input outpoint'')
        | Some b \<Rightarrow>
            bind_res (decode_with (de_output E) b) (\<lambda>out.
              consume_inputs E m is (st\<lparr>st_spent := st_spent st @ [(p, out)]\<rparr>)))"

fun produce_from ::
  "kv_store \<Rightarrow> txid \<Rightarrow> nat \<Rightarrow> tx_output list \<Rightarrow> staging \<Rightarrow> (storage_error, staging) result" where
  "produce_from m tid idx [] st = Inr st"
| "produce_from m tid idx (out # outs) st =
     (if 2 ^ 32 \<le> idx then Inl (InvalidInput ''output index overflow'')
      else
        let p = OutPoint tid (of_nat idx) in
        if p \<in> st_consumed st \<or> bt_has (st_new st) p
        then Inl (AlreadyExists ''new utxo outpoint collision'')
        else if kv_get m (key_outpoint p) \<noteq> None
        then Inl (AlreadyExists ''new utxo outpoint collision'')
        else produce_from m tid (Suc idx) outs (st\<lparr>st_new := bt_insert p out (st_new st)\<rparr>))"

definition produce_outputs ::
  "'z store_env_scheme \<Rightarrow> kv_store \<Rightarrow> transaction \<Rightarrow> staging \<Rightarrow> (storage_error, staging) result" where
  "produce_outputs E m tx st =
     bind_res (map_err TransactionErr (tx_id E tx)) (\<lambda>tid. produce_from m tid 0 (tx_outputs tx) st)"

fun index_outpoints :: "txid \<Rightarrow> nat \<Rightarrow> tx_output list \<Rightarrow> (storage_error, outpoint list) result" where
  "index_outpoints tid idx [] = Inr []"
| "index_outpoints tid idx (out # outs) =
     (if 2 ^ 32 \<le> idx then Inl (InvalidInput ''output index overflow'')
      else bind_res (index_outpoints tid (Suc idx) outs) (\<lambda>ps. Inr (OutPoint tid (of_nat idx) # ps)))"

definition tx_outpoints ::
  "'z store_env_scheme \<Rightarrow> transaction \<Rightarrow> (storage_error, outpoint list) result" where
  "tx_outpoints E tx =
     bind_res (map_err TransactionErr (tx_id E tx)) (\<lambda>tid. index_outpoints tid 0 (tx_outputs tx))"

text \<open>The main loop: the staging area and the outpoints of a coinbase.\<close>

fun stage_txs ::
  "'z store_env_scheme \<Rightarrow> kv_store \<Rightarrow> u64 \<Rightarrow> nat \<Rightarrow> transaction list \<Rightarrow> staging \<Rightarrow> outpoint list \<Rightarrow>
     (storage_error, staging \<times> outpoint list) result" where
  "stage_txs E m block_height idx [] st cbs = Inr (st, cbs)"
| "stage_txs E m block_height idx (tx # txs) st cbs =
     bind_res (consume_inputs E m (tx_inputs tx) st) (\<lambda>st.
     bind_res (produce_outputs E m tx st) (\<lambda>st.
     bind_res (if idx = 0 \<and> 0 < block_height \<and> tx_inputs tx = []
               then bind_res (tx_outpoints E tx) (\<lambda>ps. Inr (cbs @ ps)) else Inr cbs) (\<lambda>cbs.
       stage_txs E m block_height (Suc idx) txs st cbs)))"

text \<open>The deletions for the spent outputs, and the coinbase-height records they drop.\<close>

fun spend_ops ::
  "'z store_env_scheme \<Rightarrow> kv_store \<Rightarrow> (outpoint \<times> tx_output) list \<Rightarrow>
     (storage_error, batch_op list \<times> (outpoint \<times> u64) list) result" where
  "spend_ops E m [] = Inr ([], [])"
| "spend_ops E m (e # es) =
     (case kv_get m (key_coinbase_height (fst e)) of
        None \<Rightarrow>
          bind_res (spend_ops E m es) (\<lambda>(ops, hs). Inr (BDelete (key_outpoint (fst e)) # ops, hs))
      | Some b \<Rightarrow>
          bind_res (decode_with (de_u64 E) b) (\<lambda>h.
          bind_res (spend_ops E m es) (\<lambda>(ops, hs).
            Inr (BDelete (key_outpoint (fst e)) # BDelete (key_coinbase_height (fst e)) # ops,
                 (fst e, h) # hs))))"

fun put_outputs ::
  "'z store_env_scheme \<Rightarrow> (outpoint \<times> tx_output) list \<Rightarrow> (storage_error, batch_op list) result" where
  "put_outputs E [] = Inr []"
| "put_outputs E (e # es) =
     bind_res (encode_with (ser_output E) (snd e)) (\<lambda>b.
     bind_res (put_outputs E es) (\<lambda>ops. Inr (BPut (key_outpoint (fst e)) b # ops)))"

fun put_heights ::
  "'z store_env_scheme \<Rightarrow> (outpoint \<times> u64) list \<Rightarrow> (storage_error, batch_op list) result" where
  "put_heights E [] = Inr []"
| "put_heights E (e # es) =
     bind_res (encode_with (ser_u64 E) (snd e)) (\<lambda>b.
     bind_res (put_heights E es) (\<lambda>ops. Inr (BPut (key_coinbase_height (fst e)) b # ops)))"

definition apply_ops ::
  "'z store_env_scheme \<Rightarrow> block \<Rightarrow> kv_store \<Rightarrow> (storage_error, batch_op list) result" where
  "apply_ops E b m =
     bind_res (map_err BlockErr (block_validate_structure E b)) (\<lambda>_.
     bind_res (stage_txs E m (bh_height (blk_header b)) 0 (blk_txs b)
       \<lparr>st_spent = [], st_consumed = {}, st_new = []\<rparr> []) (\<lambda>(st, cbs).
     bind_res (spend_ops E m (st_spent st)) (\<lambda>(dels, hs).
     bind_res (put_outputs E (st_new st)) (\<lambda>puts.
     bind_res (put_heights E (map (\<lambda>p. (p, bh_height (blk_header b))) (filter (bt_has (st_new st)) cbs))) (\<lambda>cbputs.
     bind_res (map_err BlockErr (block_hash_of E b)) (\<lambda>bh.
     bind_res (encode_with (ser_undo E) \<lparr>ul_spent = st_spent st, ul_spent_coinbase_heights = hs\<rparr>) (\<lambda>ub.
       Inr (dels @ puts @ cbputs @ [BPut (key_undo bh) ub]))))))))"

definition apply_block ::
  "'z store_env_scheme \<Rightarrow> block \<Rightarrow> kv_store \<Rightarrow> (storage_error, kv_store) result" where
  "apply_block E b m = bind_res (apply_ops E b m) (\<lambda>ops. Inr (kv_write_batch ops m))"

section \<open>Disconnecting a block\<close>

fun unproduce_ops ::
  "'z store_env_scheme \<Rightarrow> u64 \<Rightarrow> nat \<Rightarrow> transaction list \<Rightarrow> (storage_error, batch_op list) result" where
  "unproduce_ops E block_height idx [] = Inr []"
| "unproduce_ops E block_height idx (tx # txs) =
     bind_res (tx_outpoints E tx) (\<lambda>ps.
     let is_coinbase = (idx = 0 \<and> 0 < block_height \<and> tx_inputs tx = []);
         dels = concat (map (\<lambda>p. BDelete (key_outpoint p) #
                  (if is_coinbase then [BDelete (key_coinbase_height p)] else [])) ps)
     in bind_res (unproduce_ops E block_height (Suc idx) txs) (\<lambda>ops. Inr (dels @ ops)))"

definition revert_ops ::
  "'z store_env_scheme \<Rightarrow> block \<Rightarrow> kv_store \<Rightarrow> (storage_error, batch_op list) result" where
  "revert_ops E b m =
     bind_res (map_err BlockErr (block_hash_of E b)) (\<lambda>bh.
     bind_res (ok_or (kv_get m (key_undo bh)) (NotFound ''utxo undo log'')) (\<lambda>ub.
     bind_res (decode_with (de_undo E) ub) (\<lambda>undo.
     bind_res (unproduce_ops E (bh_height (blk_header b)) 0 (blk_txs b)) (\<lambda>dels.
     bind_res (put_outputs E (ul_spent undo)) (\<lambda>puts.
     bind_res (put_heights E (ul_spent_coinbase_heights undo)) (\<lambda>cbputs.
       Inr (dels @ puts @ cbputs @ [BDelete (key_undo bh)])))))))"

definition revert_block ::
  "'z store_env_scheme \<Rightarrow> block \<Rightarrow> kv_store \<Rightarrow> (storage_error, kv_store) result" where
  "revert_block E b m = bind_res (revert_ops E b m) (\<lambda>ops. Inr (kv_write_batch ops m))"

section \<open>Snapshots\<close>

definition create_snapshot ::
  "'z store_env_scheme \<Rightarrow> bytes \<Rightarrow> kv_store \<Rightarrow> (storage_error, kv_store) result" where
  "create_snapshot E snapshot_id m =
     (if snapshot_id = [] then Inl (InvalidInput ''snapshot id must not be empty'')
      else if kv_get m (key_snapshot snapshot_id) \<noteq> None then Inl (AlreadyExists ''utxo snapshot id'')
      else
        bind_res (utxo_entries E m) (\<lambda>es.
        bind_res (encode_with (ser_snapshot E) es) (\<lambda>b. Inr (kv_put (key_snapshot snapshot_id) b m))))"

definition restore_snapshot ::
  "'z store_env_scheme \<Rightarrow> bytes \<Rightarrow> kv_store \<Rightarrow> (storage_error, kv_store) result" where
  "restore_snapshot E snapshot_id m =
     (if snapshot_id = [] then Inl (InvalidInput ''snapshot id must not be empty'')
      else
        bind_res (ok_or (kv_get m (key_snapshot snapshot_id)) (NotFound ''utxo snapshot'')) (\<lambda>b.
        bind_res (decode_with (de_snapshot E) b) (\<lambda>es.
        let dels = map (\<lambda>e. BDelete (fst e)) (kv_scan_prefix m UTXO_ENTRY_PREFIX)
        in bind_res (put_outputs E es) (\<lambda>puts. Inr (kv_write_batch (dels @ puts) m)))))"

end
