(* ===== verification/QV_StoreProps.thy ===== *)
theory QV_StoreProps
  imports QV_UtxoStore
begin

text \<open>
  Properties of the persistent UTXO store: the keys do not clash, connecting a block is a
  refinement of an abstract ledger transition, and disconnecting it restores the store exactly.
\<close>

section \<open>Keys\<close>

named_theorems key_simps \<open>the key spaces of the store are injective and disjoint\<close>

lemma op_canonical_bytes_eq [key_simps]:
  "op_canonical_bytes p = op_canonical_bytes q \<longleftrightarrow> p = q"
  by (auto simp: op_canonical_bytes_def outpoint.expand)

lemma key_eq [key_simps]:
  "key_outpoint p = key_outpoint q \<longleftrightarrow> p = q"
  "key_coinbase_height p = key_coinbase_height q \<longleftrightarrow> p = q"
  "key_undo h = key_undo h' \<longleftrightarrow> h = h'"
  by (simp_all add: key_outpoint_def key_coinbase_height_def key_undo_def key_simps)

lemma key_class [key_simps]:
  "key_outpoint p ! 5 = 0x65" "key_coinbase_height p ! 5 = 0x63" "key_undo h ! 5 = 0x75"
  by (simp_all add: key_outpoint_def key_coinbase_height_def key_undo_def UTXO_ENTRY_PREFIX_def
      UTXO_UNDO_PREFIX_def UTXO_COINBASE_HEIGHT_PREFIX_def ascii_def nth_append)

lemma key_disjoint [key_simps]:
  "key_outpoint p \<noteq> key_coinbase_height q" "key_coinbase_height q \<noteq> key_outpoint p"
  "key_outpoint p \<noteq> key_undo h" "key_undo h \<noteq> key_outpoint p"
  "key_coinbase_height p \<noteq> key_undo h" "key_undo h \<noteq> key_coinbase_height p"
  by (auto dest!: arg_cong [where f = "\<lambda>k. k ! 5"] simp: key_simps)

lemma key_mem [key_simps]:
  "key_outpoint p \<in> key_outpoint ` A \<longleftrightarrow> p \<in> A" "key_outpoint p \<notin> key_coinbase_height ` A"
  "key_coinbase_height p \<in> key_coinbase_height ` A \<longleftrightarrow> p \<in> A" "key_coinbase_height p \<notin> key_outpoint ` A"
  by (auto simp: key_simps)

section \<open>The effect of a batch on one key\<close>

lemma effect_append: "batch_effect (a @ b) c = batch_effect b (batch_effect a c)"
  by (simp add: batch_effect_def)

lemma effect_other: "k \<notin> op_key ` set ops \<Longrightarrow> batch_effect ops c k = c k"
  unfolding batch_effect_def
proof (induction ops arbitrary: c)
  case (Cons a ops)
  then show ?case by (cases a) auto
qed simp

text \<open>When all operations on a key are the same operation, it decides.\<close>

lemma effect_only:
  assumes "x \<in> set ops" and "\<And>y. y \<in> set ops \<Longrightarrow> op_key y = op_key x \<Longrightarrow> y = x"
  shows "batch_effect ops c (op_key x) = op_effect x Map.empty (op_key x)"
  using assms
proof (induction ops arbitrary: c rule: rev_induct)
  case (snoc a ops)
  show ?case
  proof (cases "op_key a = op_key x")
    case True
    then have "a = x" using snoc.prems(2) [of a] by simp
    then show ?thesis by (cases x) (simp_all add: effect_append, simp_all add: batch_effect_def)
  next
    case False
    then have "x \<in> set ops" using snoc.prems(1) by auto
    then have "batch_effect ops c (op_key x) = op_effect x Map.empty (op_key x)"
      using snoc.prems(2) by (intro snoc.IH) simp_all
    then show ?thesis using effect_other [of "op_key x" "[a]"] False by (simp add: effect_append)
  qed
qed simp

lemma effect_put:
  assumes "BPut k v \<in> set ops" and "\<And>y. y \<in> set ops \<Longrightarrow> op_key y = k \<Longrightarrow> y = BPut k v"
  shows "batch_effect ops c k = Some v"
  using effect_only [OF assms(1)] assms(2) by simp

lemma effect_delete:
  assumes "BDelete k \<in> set ops" and "\<And>y. y \<in> set ops \<Longrightarrow> op_key y = k \<Longrightarrow> y = BDelete k"
  shows "batch_effect ops c k = None"
  using effect_only [OF assms(1)] assms(2) by simp

section \<open>The abstract ledger\<close>

text \<open>
  The specification of connecting a block: a ledger maps outpoints to outputs, a transaction
  takes its inputs out of it, each present when taken, and adds its outputs at unused outpoints.
\<close>

type_synonym ledger = "outpoint \<rightharpoonup> tx_output"

fun spend_all :: "outpoint list \<Rightarrow> ledger \<Rightarrow> ledger option" where
  "spend_all [] s = Some s"
| "spend_all (p # ps) s = (if s p = None then None else spend_all ps (s(p := None)))"

fun create_all :: "(outpoint \<times> tx_output) list \<Rightarrow> ledger \<Rightarrow> ledger option" where
  "create_all [] s = Some s"
| "create_all (e # es) s = (if s (fst e) \<noteq> None then None else create_all es (s(fst e \<mapsto> snd e)))"

definition indexed_outputs :: "txid \<Rightarrow> nat \<Rightarrow> tx_output list \<Rightarrow> (outpoint \<times> tx_output) list" where
  "indexed_outputs tid idx outs =
     zip (map (\<lambda>i. OutPoint tid (of_nat i)) [idx ..< idx + length outs]) outs"

definition ledger_tx :: "'z tx_env_scheme \<Rightarrow> transaction \<Rightarrow> ledger \<Rightarrow> ledger option" where
  "ledger_tx E tx s =
     (case tx_id E tx of
        Inl _ \<Rightarrow> None
      | Inr tid \<Rightarrow> Option.bind (spend_all (map prev_output (tx_inputs tx)) s)
                   (create_all (indexed_outputs tid 0 (tx_outputs tx))))"

fun ledger_txs :: "'z tx_env_scheme \<Rightarrow> transaction list \<Rightarrow> ledger \<Rightarrow> ledger option" where
  "ledger_txs E [] s = Some s"
| "ledger_txs E (tx # txs) s = Option.bind (ledger_tx E tx s) (ledger_txs E txs)"

text \<open>The ledger a store holds, and the ledger a partly connected block stands for.\<close>

definition utxo_view :: "'z store_env_scheme \<Rightarrow> kv_store \<Rightarrow> ledger" where
  "utxo_view E m p =
     (case kv_get m (key_outpoint p) of
        None \<Rightarrow> None
      | Some b \<Rightarrow> (case de_output E b of Inl _ \<Rightarrow> None | Inr out \<Rightarrow> Some out))"

definition staged_view :: "'z store_env_scheme \<Rightarrow> kv_store \<Rightarrow> staging \<Rightarrow> ledger" where
  "staged_view E m st p =
     (case bt_get (st_new st) p of
        Some out \<Rightarrow> Some out
      | None \<Rightarrow> if p \<in> st_consumed st then None else utxo_view E m p)"

definition stage_inv :: "'z store_env_scheme \<Rightarrow> kv_store \<Rightarrow> staging \<Rightarrow> bool" where
  "stage_inv E m st \<longleftrightarrow> bt_ok (st_new st) \<and>
     (\<forall>(p, out) \<in> set (st_spent st). p \<in> st_consumed st \<and>
        (\<exists>b. kv_get m (key_outpoint p) = Some b \<and> de_output E b = Inr out)) \<and>
     (\<forall>p \<in> st_consumed st. p \<in> fst ` set (st_spent st) \<or> kv_get m (key_outpoint p) = None) \<and>
     (\<forall>p. bt_has (st_new st) p \<longrightarrow> p \<notin> st_consumed st \<and> kv_get m (key_outpoint p) = None)"

lemma decode_with_Inr [res_simps]: "decode_with de b = Inr x \<longleftrightarrow> de b = Inr x"
  by (simp add: decode_with_def res_simps)

lemma encode_with_Inr [res_simps]: "encode_with ser x = Inr b \<longleftrightarrow> ser x = Inr b"
  by (simp add: encode_with_def res_simps)

lemma consume_step:
  assumes inv: "stage_inv E m st" and fresh: "p \<notin> st_consumed st"
    and new: "bt_has (st_new st) p"
    and st': "st' = st\<lparr>st_consumed := insert p (st_consumed st), st_new := bt_remove p (st_new st)\<rparr>"
  shows "stage_inv E m st' \<and> staged_view E m st p \<noteq> None \<and>
    staged_view E m st' = (staged_view E m st)(p := None)"
  using assms by (auto simp: stage_inv_def staged_view_def fun_eq_iff bt_simps split: option.splits)

lemma consume_stored_step:
  assumes inv: "stage_inv E m st" and fresh: "p \<notin> st_consumed st"
    and new: "\<not> bt_has (st_new st) p" and b: "kv_get m (key_outpoint p) = Some b" "de_output E b = Inr out"
    and st': "st' = st\<lparr>st_consumed := insert p (st_consumed st), st_spent := st_spent st @ [(p, out)]\<rparr>"
  shows "stage_inv E m st' \<and> staged_view E m st p \<noteq> None \<and>
    staged_view E m st' = (staged_view E m st)(p := None)"
  using assms
  by (auto simp: stage_inv_def staged_view_def utxo_view_def fun_eq_iff split: option.splits)

lemma consume_inputs_refines:
  assumes "consume_inputs E m ins st = Inr st'" and "stage_inv E m st"
  shows "stage_inv E m st' \<and> spend_all (map prev_output ins) (staged_view E m st) = Some (staged_view E m st') \<and>
    dom (bt_get (st_new st')) \<subseteq> dom (bt_get (st_new st))"
  using assms
proof (induction ins arbitrary: st)
  case (Cons i rest)
  let ?p = "prev_output i"
  show ?case
  proof (cases "bt_has (st_new st) ?p")
    case True
    let ?st = "st\<lparr>st_consumed := insert ?p (st_consumed st), st_new := bt_remove ?p (st_new st)\<rparr>"
    from Cons.prems(1) True have fresh: "?p \<notin> st_consumed st" and run: "consume_inputs E m rest ?st = Inr st'"
      by (auto simp: Let_def split: if_splits)
    have bt: "bt_ok (st_new st)" using Cons.prems(2) by (simp add: stage_inv_def)
    have "dom (bt_get (bt_remove ?p (st_new st))) \<subseteq> dom (bt_get (st_new st))"
      using bt by (simp add: bt_get_remove)
    then show ?thesis
      using consume_step [OF Cons.prems(2) fresh True refl] Cons.IH [OF run] by fastforce
  next
    case False
    from Cons.prems(1) False obtain b out where fresh: "?p \<notin> st_consumed st"
      and b: "kv_get m (key_outpoint ?p) = Some b" "de_output E b = Inr out"
      and run: "consume_inputs E m rest
        (st\<lparr>st_consumed := insert ?p (st_consumed st), st_spent := st_spent st @ [(?p, out)]\<rparr>) = Inr st'"
      by (auto simp: Let_def res_simps split: if_splits option.splits)
    show ?thesis
      using consume_stored_step [OF Cons.prems(2) fresh False b refl] Cons.IH [OF run] by fastforce
  qed
qed simp

lemma indexed_outputs_Cons:
  "indexed_outputs tid idx (out # outs) =
     (OutPoint tid (of_nat idx), out) # indexed_outputs tid (Suc idx) outs"
  by (simp add: indexed_outputs_def upt_rec [of idx] Suc_le_eq)

lemma produce_step:
  assumes "stage_inv E m st" and "p \<notin> st_consumed st" and "\<not> bt_has (st_new st) p"
    and "kv_get m (key_outpoint p) = None" and "st' = st\<lparr>st_new := bt_insert p out (st_new st)\<rparr>"
  shows "stage_inv E m st' \<and> staged_view E m st p = None \<and>
    staged_view E m st' = (staged_view E m st)(p \<mapsto> out)"
  using assms
  by (auto simp: stage_inv_def staged_view_def utxo_view_def fun_eq_iff bt_simps split: option.splits)

lemma produce_from_refines:
  assumes "produce_from m tid idx outs st = Inr st'" and "stage_inv E m st"
  shows "stage_inv E m st' \<and> st_spent st' = st_spent st \<and> st_consumed st' = st_consumed st \<and>
    create_all (indexed_outputs tid idx outs) (staged_view E m st) = Some (staged_view E m st') \<and>
    (\<exists>ps. index_outpoints tid idx outs = Inr ps \<and> (\<forall>p \<in> set ps. kv_get m (key_outpoint p) = None) \<and>
      dom (bt_get (st_new st')) \<subseteq> dom (bt_get (st_new st)) \<union> set ps)"
  using assms
proof (induction outs arbitrary: idx st)
  case (Cons out outs)
  let ?p = "OutPoint tid (of_nat idx)"
  let ?st = "st\<lparr>st_new := bt_insert ?p out (st_new st)\<rparr>"
  from Cons.prems(1) have small: "\<not> 2 ^ 32 \<le> idx" and g: "?p \<notin> st_consumed st" "\<not> bt_has (st_new st) ?p"
      "kv_get m (key_outpoint ?p) = None" and run: "produce_from m tid (Suc idx) outs ?st = Inr st'"
    by (auto simp: Let_def split: if_splits)
  have bt: "bt_ok (st_new st)" using Cons.prems(2) by (simp add: stage_inv_def)
  have st: "stage_inv E m ?st" "staged_view E m st ?p = None"
      "staged_view E m ?st = (staged_view E m st)(?p \<mapsto> out)"
    using produce_step [OF Cons.prems(2) g refl] by blast+
  from Cons.IH [OF run st(1)] obtain ps where
    IH: "stage_inv E m st'" "st_spent st' = st_spent st" "st_consumed st' = st_consumed st"
      "create_all (indexed_outputs tid (Suc idx) outs) (staged_view E m ?st) = Some (staged_view E m st')"
      "index_outpoints tid (Suc idx) outs = Inr ps" "\<forall>p \<in> set ps. kv_get m (key_outpoint p) = None"
      "dom (bt_get (st_new st')) \<subseteq> dom (bt_get (st_new ?st)) \<union> set ps" by auto
  have "create_all (indexed_outputs tid idx (out # outs)) (staged_view E m st) = Some (staged_view E m st')"
    using IH(4) st(2) unfolding st(3) indexed_outputs_Cons by simp
  moreover have "index_outpoints tid idx (out # outs) = Inr (?p # ps)"
    using small IH(5) by simp
  moreover have "dom (bt_get (st_new st')) \<subseteq> dom (bt_get (st_new st)) \<union> set (?p # ps)"
    using IH(7) bt by (simp add: bt_get_insert)
  ultimately show ?case using IH g(3) by simp
qed (simp add: indexed_outputs_def)

section \<open>The outpoints a block makes\<close>

fun made :: "'z store_env_scheme \<Rightarrow> transaction list \<Rightarrow> outpoint set" where
  "made E [] = {}"
| "made E (tx # txs) = (case tx_outpoints E tx of Inl _ \<Rightarrow> {} | Inr ps \<Rightarrow> set ps) \<union> made E txs"

fun made_cb :: "'z store_env_scheme \<Rightarrow> u64 \<Rightarrow> nat \<Rightarrow> transaction list \<Rightarrow> outpoint set" where
  "made_cb E h idx [] = {}"
| "made_cb E h idx (tx # txs) =
     (if idx = 0 \<and> 0 < h \<and> tx_inputs tx = [] then made E [tx] else {}) \<union> made_cb E h (Suc idx) txs"

lemma made_cb_subset: "made_cb E h idx txs \<subseteq> made E txs"
  by (induction txs arbitrary: idx) auto

lemma stage_txs_refines:
  assumes "stage_txs E m h idx txs st cbs = Inr (st', cbs')" and "stage_inv E m st"
  shows "stage_inv E m st' \<and> ledger_txs E txs (staged_view E m st) = Some (staged_view E m st') \<and>
    set cbs' = set cbs \<union> made_cb E h idx txs \<and>
    (\<forall>p \<in> made E txs. kv_get m (key_outpoint p) = None) \<and>
    (\<forall>tx \<in> set txs. \<exists>ps. tx_outpoints E tx = Inr ps) \<and>
    dom (bt_get (st_new st')) \<subseteq> dom (bt_get (st_new st)) \<union> made E txs"
  using assms
proof (induction txs arbitrary: idx st cbs)
  case (Cons tx txs)
  from Cons.prems(1) obtain st1 st2 cbs1 where
    c: "consume_inputs E m (tx_inputs tx) st = Inr st1" and pr: "produce_outputs E m tx st1 = Inr st2"
    and cb: "(if idx = 0 \<and> 0 < h \<and> tx_inputs tx = []
               then bind_res (tx_outpoints E tx) (\<lambda>ps. Inr (cbs @ ps)) else Inr cbs) = Inr cbs1"
    and run: "stage_txs E m h (Suc idx) txs st2 cbs1 = Inr (st', cbs')"
    by (auto simp: res_simps)
  from pr obtain tid where tid: "tx_id E tx = Inr tid"
    and pf: "produce_from m tid 0 (tx_outputs tx) st1 = Inr st2"
    by (auto simp: produce_outputs_def res_simps)
  note ci = consume_inputs_refines [OF c Cons.prems(2)]
  from produce_from_refines [OF pf conjunct1 [OF ci]] obtain ps where
    po: "stage_inv E m st2"
      "create_all (indexed_outputs tid 0 (tx_outputs tx)) (staged_view E m st1) = Some (staged_view E m st2)"
      "index_outpoints tid 0 (tx_outputs tx) = Inr ps" "\<forall>p \<in> set ps. kv_get m (key_outpoint p) = None"
      "dom (bt_get (st_new st2)) \<subseteq> dom (bt_get (st_new st1)) \<union> set ps" by auto
  have ops: "tx_outpoints E tx = Inr ps" by (simp add: tx_outpoints_def tid po(3))
  have "ledger_tx E tx (staged_view E m st) = Some (staged_view E m st2)"
    using ci po(2) by (simp add: ledger_tx_def tid)
  moreover have "set cbs1 = set cbs \<union> (if idx = 0 \<and> 0 < h \<and> tx_inputs tx = [] then set ps else {})"
    using cb ops by (auto split: if_splits)
  moreover have "dom (bt_get (st_new st')) \<subseteq> dom (bt_get (st_new st)) \<union> made E (tx # txs)"
  proof -
    have "dom (bt_get (st_new st2)) \<subseteq> dom (bt_get (st_new st)) \<union> set ps" using ci po(5) by blast
    moreover have "dom (bt_get (st_new st')) \<subseteq> dom (bt_get (st_new st2)) \<union> made E txs"
      using Cons.IH [OF run po(1)] by blast
    ultimately show ?thesis unfolding made.simps ops sum.case by blast
  qed
  ultimately show ?case
    using Cons.IH [OF run po(1)] po(4) ops by auto
qed simp

section \<open>The batches\<close>

text \<open>The law of \<open>bincode\<close> the store relies on: decoding undoes encoding.\<close>

definition bincode_ok :: "'z store_env_scheme \<Rightarrow> bool" where
  "bincode_ok E \<longleftrightarrow>
     (\<forall>x b. ser_output E x = Inr b \<longrightarrow> de_output E b = Inr x) \<and>
     (\<forall>x b. ser_u64 E x = Inr b \<longrightarrow> de_u64 E b = Inr x) \<and>
     (\<forall>x b. ser_undo E x = Inr b \<longrightarrow> de_undo E b = Inr x)"

text \<open>
  What every store built by this code satisfies: entries and creation heights are encodings, and
  only unspent outputs have a creation height.
\<close>

definition store_ok :: "'z store_env_scheme \<Rightarrow> kv_store \<Rightarrow> bool" where
  "store_ok E m \<longleftrightarrow> bt_ok m \<and>
     (\<forall>p b. kv_get m (key_outpoint p) = Some b \<longrightarrow> (\<exists>out. ser_output E out = Inr b)) \<and>
     (\<forall>p b. kv_get m (key_coinbase_height p) = Some b \<longrightarrow>
        (\<exists>h. ser_u64 E h = Inr b) \<and> kv_get m (key_outpoint p) \<noteq> None)"

lemma spend_ops_set:
  assumes "spend_ops E m es = Inr (ops, hs)"
  shows "set ops = BDelete ` (key_outpoint ` fst ` set es \<union> key_coinbase_height ` fst ` set hs) \<and>
    (\<forall>e \<in> set hs. fst e \<in> fst ` set es \<and>
      (\<exists>b. kv_get m (key_coinbase_height (fst e)) = Some b \<and> de_u64 E b = Inr (snd e))) \<and>
    (\<forall>p \<in> fst ` set es. kv_get m (key_coinbase_height p) \<noteq> None \<longrightarrow> p \<in> fst ` set hs)"
  using assms
proof (induction es arbitrary: ops hs)
  case (Cons e es)
  show ?case
  proof (cases "kv_get m (key_coinbase_height (fst e))")
    case None
    with Cons.prems obtain ops' where "spend_ops E m es = Inr (ops', hs)"
      "ops = BDelete (key_outpoint (fst e)) # ops'" by (auto simp: res_simps)
    with Cons.IH None show ?thesis by auto
  next
    case (Some b)
    with Cons.prems obtain h ops' hs' where "de_u64 E b = Inr h" "spend_ops E m es = Inr (ops', hs')"
      "ops = BDelete (key_outpoint (fst e)) # BDelete (key_coinbase_height (fst e)) # ops'"
      "hs = (fst e, h) # hs'" by (auto simp: res_simps)
    with Cons.IH Some show ?thesis by auto
  qed
qed simp

lemma put_outputs_set:
  "put_outputs E es = Inr ops \<Longrightarrow>
     set ops = {BPut (key_outpoint p) b | p out b. (p, out) \<in> set es \<and> ser_output E out = Inr b} \<and>
     (\<forall>e \<in> set es. \<exists>b. ser_output E (snd e) = Inr b)"
  by (induction es arbitrary: ops) (fastforce simp: res_simps)+

lemma put_heights_set:
  "put_heights E es = Inr ops \<Longrightarrow>
     set ops = {BPut (key_coinbase_height p) b | p h b. (p, h) \<in> set es \<and> ser_u64 E h = Inr b} \<and>
     (\<forall>e \<in> set es. \<exists>b. ser_u64 E (snd e) = Inr b)"
  by (induction es arbitrary: ops) (fastforce simp: res_simps)+

lemma put_outputs_total:
  "\<forall>e \<in> set es. \<exists>b. ser_output E (snd e) = Inr b \<Longrightarrow> \<exists>ops. put_outputs E es = Inr ops"
  by (induction es) (auto simp: encode_with_def)

lemma put_heights_total:
  "\<forall>e \<in> set es. \<exists>b. ser_u64 E (snd e) = Inr b \<Longrightarrow> \<exists>ops. put_heights E es = Inr ops"
  by (induction es) (auto simp: encode_with_def)

lemma unproduce_ops_set:
  assumes "\<forall>tx \<in> set txs. \<exists>ps. tx_outpoints E tx = Inr ps"
  shows "\<exists>ops. unproduce_ops E h idx txs = Inr ops \<and>
    set ops = BDelete ` (key_outpoint ` made E txs \<union> key_coinbase_height ` made_cb E h idx txs)"
  using assms
proof (induction txs arbitrary: idx)
  case (Cons tx txs)
  from Cons.prems obtain ps where ps: "tx_outpoints E tx = Inr ps" by auto
  from Cons obtain ops where "unproduce_ops E h (Suc idx) txs = Inr ops"
    "set ops = BDelete ` (key_outpoint ` made E txs \<union> key_coinbase_height ` made_cb E h (Suc idx) txs)"
    by fastforce
  with ps show ?case by (auto simp: Let_def image_Un image_image)
qed simp

text \<open>What a successful connect establishes, in one place.\<close>

lemma apply_opsE:
  assumes "apply_ops E b m = Inr ops"
  obtains st cbs dels hs puts cbputs bh ub where
    "stage_txs E m (bh_height (blk_header b)) 0 (blk_txs b)
       \<lparr>st_spent = [], st_consumed = {}, st_new = []\<rparr> [] = Inr (st, cbs)"
    and "spend_ops E m (st_spent st) = Inr (dels, hs)" and "put_outputs E (st_new st) = Inr puts"
    and "put_heights E (map (\<lambda>p. (p, bh_height (blk_header b))) (filter (bt_has (st_new st)) cbs)) = Inr cbputs"
    and "block_hash_of E b = Inr bh"
    and "ser_undo E \<lparr>ul_spent = st_spent st, ul_spent_coinbase_heights = hs\<rparr> = Inr ub"
    and "ops = dels @ puts @ cbputs @ [BPut (key_undo bh) ub]"
    and "block_validate_structure E b = Inr ()"
  using assms by (auto simp: apply_ops_def res_simps)

section \<open>Connecting refines the ledger transition\<close>

lemma stage_start:
  "stage_inv E m \<lparr>st_spent = [], st_consumed = {}, st_new = []\<rparr>"
  "staged_view E m \<lparr>st_spent = [], st_consumed = {}, st_new = []\<rparr> = utxo_view E m"
  by (simp_all add: stage_inv_def staged_view_def bt_ok_def fun_eq_iff)

lemma put_value:
  assumes "put_outputs E es = Inr puts" and "bt_ok es" and "bt_get es p = Some out"
  shows "\<exists>v. ser_output E out = Inr v \<and> batch_effect puts c (key_outpoint p) = Some v"
proof -
  note ps = put_outputs_set [OF assms(1)]
  have mem: "(p, out) \<in> set es" using assms(3) by (rule map_of_SomeD)
  then obtain v where v: "ser_output E out = Inr v"
    using bspec [OF conjunct2 [OF ps] mem] by auto
  have d: "distinct (map fst es)" using assms(2) by (simp add: bt_ok_def strict_sorted_iff)
  have "batch_effect puts c (key_outpoint p) = Some v"
  proof (rule effect_put)
    show "BPut (key_outpoint p) v \<in> set puts" using ps mem v by blast
    show "y = BPut (key_outpoint p) v" if y: "y \<in> set puts" and k: "op_key y = key_outpoint p" for y
    proof -
      from y ps obtain q o' w where q: "y = BPut (key_outpoint q) w" "(q, o') \<in> set es"
        "ser_output E o' = Inr w" by blast
      with k have "q = p" by (simp add: key_simps)
      moreover from this have "o' = out" using q(2) mem d by (simp add: eq_key_imp_eq_value)
      ultimately show ?thesis using q(1,3) v by simp
    qed
  qed
  with v show ?thesis by blast
qed

lemma apply_effect_outpoint:
  assumes "apply_ops E b m = Inr ops"
    and st: "stage_txs E m (bh_height (blk_header b)) 0 (blk_txs b)
       \<lparr>st_spent = [], st_consumed = {}, st_new = []\<rparr> [] = Inr (st, cbs)"
  shows "batch_effect ops (kv_get m) (key_outpoint p) =
    (case bt_get (st_new st) p of
       Some out \<Rightarrow> (case ser_output E out of Inl _ \<Rightarrow> None | Inr v \<Rightarrow> Some v)
     | None \<Rightarrow> if p \<in> fst ` set (st_spent st) then None else kv_get m (key_outpoint p))"
proof -
  from assms obtain dels hs puts cbputs bh ub where
    sp: "spend_ops E m (st_spent st) = Inr (dels, hs)" and pu: "put_outputs E (st_new st) = Inr puts"
    and cb: "put_heights E (map (\<lambda>p. (p, bh_height (blk_header b))) (filter (bt_has (st_new st)) cbs)) = Inr cbputs"
    and ops: "ops = dels @ puts @ cbputs @ [BPut (key_undo bh) ub]"
    by (elim apply_opsE) auto
  have bt: "bt_ok (st_new st)"
    using stage_txs_refines [OF st stage_start(1)] by (simp add: stage_inv_def)
  let ?k = "key_outpoint p"
  have tail: "batch_effect (cbputs @ [BPut (key_undo bh) ub]) c ?k = c ?k" for c
    using put_heights_set [OF cb] by (intro effect_other) (auto simp: key_simps)
  have eff: "batch_effect ops (kv_get m) ?k = batch_effect puts (batch_effect dels (kv_get m)) ?k"
    unfolding ops effect_append [of dels] effect_append [of puts] by (rule tail)
  show ?thesis
  proof (cases "bt_get (st_new st) p")
    case (Some out)
    with put_value [OF pu bt Some] show ?thesis unfolding eff by (auto split: sum.splits)
  next
    case None
    then have "?k \<notin> op_key ` set puts"
      using put_outputs_set [OF pu] by (force simp: key_simps map_of_eq_None_iff)
    then have e2: "batch_effect ops (kv_get m) ?k = batch_effect dels (kv_get m) ?k"
      unfolding eff by (rule effect_other)
    show ?thesis
    proof (cases "p \<in> fst ` set (st_spent st)")
      case True
      have "batch_effect dels (kv_get m) ?k = None"
        using True spend_ops_set [OF sp] by (intro effect_delete) (auto simp: key_simps)
      with True None e2 show ?thesis by simp
    next
      case False
      then have "?k \<notin> op_key ` set dels"
        using conjunct1 [OF spend_ops_set [OF sp]] by (simp add: image_image image_Un key_simps image_iff)
      then have "batch_effect dels (kv_get m) ?k = kv_get m ?k" by (rule effect_other)
      with False None e2 show ?thesis by simp
    qed
  qed
qed

lemma apply_block_view:
  assumes "bincode_ok E" and "bt_ok m" and "apply_block E b m = Inr m'"
  shows "ledger_txs E (blk_txs b) (utxo_view E m) = Some (utxo_view E m')"
proof -
  from assms(3) obtain ops where ops: "apply_ops E b m = Inr ops" "m' = kv_write_batch ops m"
    by (auto simp: apply_block_def res_simps)
  from apply_opsE [OF ops(1)] obtain st cbs puts where
    st: "stage_txs E m (bh_height (blk_header b)) 0 (blk_txs b)
       \<lparr>st_spent = [], st_consumed = {}, st_new = []\<rparr> [] = Inr (st, cbs)"
    and pu: "put_outputs E (st_new st) = Inr puts" by metis
  note r = stage_txs_refines [OF st stage_start(1), unfolded stage_start(2)]
  have inv: "stage_inv E m st" using r by blast
  have get: "kv_get m' = batch_effect ops (kv_get m)" using assms(2) ops(2) by (simp add: kv.get_write)
  have "utxo_view E m' p = staged_view E m st p" for p
  proof (cases "bt_get (st_new st) p")
    case (Some out)
    then obtain v where "ser_output E out = Inr v" "de_output E v = Inr out"
      using put_outputs_set [OF pu] assms(1) by (force simp: bincode_ok_def dest: map_of_SomeD)
    with Some show ?thesis
      by (simp add: utxo_view_def staged_view_def get apply_effect_outpoint [OF ops(1) st])
  next
    case None
    with inv show ?thesis
      by (auto simp: utxo_view_def staged_view_def get apply_effect_outpoint [OF ops(1) st] stage_inv_def)
  qed
  then have "utxo_view E m' = staged_view E m st" by (rule ext)
  with r show ?thesis by simp
qed

section \<open>Disconnecting undoes connecting\<close>

lemma restore_value:
  assumes "put_outputs E es = Inr puts" and "p \<in> fst ` set es"
    and "\<And>out. (p, out) \<in> set es \<Longrightarrow> ser_output E out = Inr v"
  shows "batch_effect puts c (key_outpoint p) = Some v"
proof (rule effect_put)
  note ps = conjunct1 [OF put_outputs_set [OF assms(1)]]
  from assms(2) obtain out where "(p, out) \<in> set es" by force
  with assms(3) show "BPut (key_outpoint p) v \<in> set puts" unfolding ps by blast
  show "y = BPut (key_outpoint p) v" if "y \<in> set puts" and "op_key y = key_outpoint p" for y
    using that assms(3) unfolding ps by (auto simp: key_simps)
qed

lemma restore_height:
  assumes "put_heights E hs = Inr puts" and "p \<in> fst ` set hs"
    and "\<And>h. (p, h) \<in> set hs \<Longrightarrow> ser_u64 E h = Inr v"
  shows "batch_effect puts c (key_coinbase_height p) = Some v"
proof (rule effect_put)
  note ps = conjunct1 [OF put_heights_set [OF assms(1)]]
  from assms(2) obtain h where "(p, h) \<in> set hs" by force
  with assms(3) show "BPut (key_coinbase_height p) v \<in> set puts" unfolding ps by blast
  show "y = BPut (key_coinbase_height p) v" if "y \<in> set puts" and "op_key y = key_coinbase_height p" for y
    using that assms(3) unfolding ps by (auto simp: key_simps)
qed

text \<open>The encoding of a spent output, or of its creation height, is what the store held.\<close>

lemma spent_encoding:
  assumes "bincode_ok E" and "store_ok E m" and "stage_inv E m st" and "(p, out) \<in> set (st_spent st)"
  shows "\<exists>v. ser_output E out = Inr v \<and> kv_get m (key_outpoint p) = Some v"
proof -
  from assms(3,4) obtain v where v: "kv_get m (key_outpoint p) = Some v" "de_output E v = Inr out"
    by (fastforce simp: stage_inv_def)
  with assms(2) obtain o' where "ser_output E o' = Inr v" unfolding store_ok_def by blast
  with v assms(1) show ?thesis by (fastforce simp: bincode_ok_def)
qed

lemma spent_height_encoding:
  assumes "bincode_ok E" and "store_ok E m" and "spend_ops E m es = Inr (dels, hs)" and "(p, h) \<in> set hs"
  shows "\<exists>v. ser_u64 E h = Inr v \<and> kv_get m (key_coinbase_height p) = Some v"
proof -
  from spend_ops_set [OF assms(3)] assms(4) obtain v where
    v: "kv_get m (key_coinbase_height p) = Some v" "de_u64 E v = Inr h" by fastforce
  with assms(2) obtain h' where "ser_u64 E h' = Inr v" unfolding store_ok_def by blast
  with v assms(1) show ?thesis by (fastforce simp: bincode_ok_def)
qed

lemma spent_outputs_encode:
  assumes "bincode_ok E" and "store_ok E m" and "stage_inv E m st"
  shows "\<forall>e \<in> set (st_spent st). \<exists>b. ser_output E (snd e) = Inr b"
  using spent_encoding [OF assms] by (auto simp: Ball_def)

lemma spent_heights_encode:
  assumes "bincode_ok E" and "store_ok E m" and "spend_ops E m es = Inr (dels, hs)"
  shows "\<forall>e \<in> set hs. \<exists>b. ser_u64 E (snd e) = Inr b"
  using spent_height_encoding [OF assms] by (auto simp: Ball_def)

text \<open>
  The keys the two batches touch: \<open>S\<close> and \<open>H\<close> are the outpoints whose output and creation
  height are spent, \<open>M\<close> and \<open>C\<close> the outpoints the block and its coinbase make.
\<close>

definition touched :: "outpoint set \<Rightarrow> outpoint set \<Rightarrow> outpoint set \<Rightarrow> outpoint set \<Rightarrow> block_hash \<Rightarrow> bytes set" where
  "touched S M H C bh =
     key_outpoint ` S \<union> key_outpoint ` M \<union> key_coinbase_height ` H \<union> key_coinbase_height ` C \<union> {key_undo bh}"

lemma touched_cases:
  assumes "a \<subseteq> touched S M H C bh" and "b \<subseteq> touched S M H C bh"
  obtains (undo_log) "k = key_undo bh"
    | (spent) p where "k = key_outpoint p" "p \<in> S"
    | (made) p where "k = key_outpoint p" "p \<notin> S" "p \<in> M"
    | (height) p where "k = key_coinbase_height p" "p \<in> H"
    | (coinbase) p where "k = key_coinbase_height p" "p \<notin> H" "p \<in> C"
    | (other) "k \<notin> a" "k \<notin> b"
  using assms unfolding touched_def by blast

lemma touched_join:
  assumes d: "d = key_outpoint ` X \<union> key_coinbase_height ` Y" and p: "p \<subseteq> key_outpoint ` P"
    and c: "c \<subseteq> key_coinbase_height ` Q"
    and "X \<subseteq> S \<union> M" "P \<subseteq> S \<union> M" "Y \<subseteq> H \<union> C" "Q \<subseteq> H \<union> C"
  shows "d \<union> p \<union> c \<union> {key_undo bh} \<subseteq> touched S M H C bh"
proof -
  have gen: "x \<union> y \<union> p \<union> c \<union> u \<subseteq> s \<union> m \<union> h \<union> n \<union> u"
    if "x \<subseteq> s \<union> m" "y \<subseteq> h \<union> n" "p \<subseteq> r" "c \<subseteq> t" "r \<subseteq> s \<union> m" "t \<subseteq> h \<union> n" for x y r s t u m h n
    using that by blast
  show ?thesis unfolding d touched_def
    by (rule gen [OF _ _ p c]) (simp_all only: image_Un [symmetric] image_mono assms(4-7))
qed

lemma key_images: "op_key ` BDelete ` K = K" "op_key ` set (a @ b @ c @ [x]) =
    op_key ` set a \<union> op_key ` set b \<union> op_key ` set c \<union> {op_key x}"
  by (auto simp: image_image)

lemma put_outputs_keys:
  assumes "put_outputs E es = Inr puts"
  shows "op_key ` set puts \<subseteq> key_outpoint ` fst ` set es"
  unfolding conjunct1 [OF put_outputs_set [OF assms]] by force

lemma put_heights_keys:
  assumes "put_heights E hs = Inr cbputs"
  shows "op_key ` set cbputs \<subseteq> key_coinbase_height ` fst ` set hs"
  unfolding conjunct1 [OF put_heights_set [OF assms]] by force

lemma apply_keys:
  assumes st: "stage_txs E m h 0 txs \<lparr>st_spent = [], st_consumed = {}, st_new = []\<rparr> [] = Inr (st, cbs)"
    and sp: "spend_ops E m (st_spent st) = Inr (dels, hs)" and pu: "put_outputs E (st_new st) = Inr puts"
    and cb: "put_heights E (map (\<lambda>p. (p, h)) (filter (bt_has (st_new st)) cbs)) = Inr cbputs"
    and ops: "ops = dels @ puts @ cbputs @ [BPut (key_undo bh) ub]"
  shows "op_key ` set ops \<subseteq>
    touched (fst ` set (st_spent st)) (made E txs) (fst ` set hs) (made_cb E h 0 txs) bh"
proof -
  note r = stage_txs_refines [OF st stage_start(1)]
  have new: "fst ` set (st_new st) \<subseteq> made E txs" using r by (simp add: dom_map_of_conv_image_fst)
  have cbs: "fst ` set (map (\<lambda>p. (p, h)) (filter (bt_has (st_new st)) cbs)) \<subseteq> made_cb E h 0 txs"
    using r by auto
  have "op_key ` set dels = key_outpoint ` fst ` set (st_spent st) \<union> key_coinbase_height ` fst ` set hs"
    using spend_ops_set [OF sp] by (simp add: key_images)
  from touched_join [OF this put_outputs_keys [OF pu] put_heights_keys [OF cb]] show ?thesis
    unfolding ops key_images op_key.simps by this (use new cbs in \<open>simp_all add: le_supI2\<close>)
qed

lemma undo_effect:
  assumes inv: "stage_inv E m st" and bin: "bincode_ok E" and ok: "store_ok E m"
    and sp: "spend_ops E m (st_spent st) = Inr (dels, hs)"
    and dels': "set dels' = BDelete ` (key_outpoint ` M \<union> key_coinbase_height ` C)"
    and puts': "put_outputs E (st_spent st) = Inr puts'" and cbputs': "put_heights E hs = Inr cbputs'"
    and absent: "\<forall>p \<in> M. kv_get m (key_outpoint p) = None" "C \<subseteq> M" "kv_get m (key_undo bh) = None"
    and keys: "op_key ` set ops \<subseteq> touched (fst ` set (st_spent st)) M (fst ` set hs) C bh"
  shows "batch_effect (dels' @ puts' @ cbputs' @ [BDelete (key_undo bh)]) (batch_effect ops (kv_get m)) k =
    kv_get m k"
proof -
  let ?r = "dels' @ puts' @ cbputs' @ [BDelete (key_undo bh)]" and ?c = "batch_effect ops (kv_get m)"
  note ko = put_outputs_keys [OF puts'] and kc = put_heights_keys [OF cbputs']
  have kd: "op_key ` set dels' = key_outpoint ` M \<union> key_coinbase_height ` C"
    unfolding dels' by (rule key_images)
  have kr: "op_key ` set ?r \<subseteq> touched (fst ` set (st_spent st)) M (fst ` set hs) C bh"
    unfolding key_images op_key.simps by (rule touched_join [OF kd ko kc]) simp_all
  have deleted: "batch_effect ?r ?c k = None"
    if "k \<in> op_key ` set dels'" "k \<notin> op_key ` set puts'" "k \<notin> op_key ` set cbputs'" for k
  proof -
    have "batch_effect dels' ?c k = None"
      using that(1) unfolding kd by (intro effect_delete) (auto simp: dels')
    moreover have "batch_effect [BDelete (key_undo bh)] c k = (if k = key_undo bh then None else c k)" for c
      by (simp add: batch_effect_def)
    ultimately show ?thesis using that(2,3) by (simp add: effect_append effect_other)
  qed
  from keys kr show ?thesis
  proof (cases rule: touched_cases [where k = k, consumes 2])
    case undo_log
    then show ?thesis using absent(3) by (simp add: batch_effect_def)
  next
    case (spent p)
    from spent(2) obtain out where "(p, out) \<in> set (st_spent st)" by force
    then obtain v where v: "kv_get m k = Some v" using spent_encoding [OF bin ok inv] spent(1) by blast
    have "batch_effect puts' (batch_effect dels' ?c) k = Some v"
      unfolding spent(1) by (rule restore_value [OF puts' spent(2)])
        (use spent_encoding [OF bin ok inv] v spent(1) in fastforce)
    moreover have "k \<notin> op_key ` set (cbputs' @ [BDelete (key_undo bh)])"
      using kc spent(1) by (auto simp: key_simps)
    ultimately show ?thesis using v by (simp add: effect_append effect_other)
  next
    case (made p)
    have "batch_effect ?r ?c k = None"
      by (rule deleted) (use made kd contra_subsetD [OF ko] contra_subsetD [OF kc] in \<open>simp_all add: key_simps\<close>)
    then show ?thesis using absent(1) made by simp
  next
    case (height p)
    from height(2) obtain h where "(p, h) \<in> set hs" by force
    then obtain v where v: "kv_get m k = Some v" using spent_height_encoding [OF bin ok sp] height(1) by blast
    have "batch_effect cbputs' (batch_effect puts' (batch_effect dels' ?c)) k = Some v"
      unfolding height(1) by (rule restore_height [OF cbputs' height(2)])
        (use spent_height_encoding [OF bin ok sp] v height(1) in fastforce)
    then show ?thesis using v height(1) by (simp add: effect_append effect_other key_simps)
  next
    case (coinbase p)
    have "batch_effect ?r ?c k = None"
      by (rule deleted) (use coinbase kd contra_subsetD [OF ko] contra_subsetD [OF kc] in \<open>simp_all add: key_simps\<close>)
    moreover have "kv_get m k = None"
      using ok absent(1,2) coinbase unfolding store_ok_def by (metis not_None_eq subsetD)
    ultimately show ?thesis by simp
  next
    case other
    show ?thesis unfolding effect_other [OF other(2)] by (rule effect_other [OF other(1)])
  qed
qed

lemma revert_after_apply:
  assumes bin: "bincode_ok E" and ok: "store_ok E m" and ap: "apply_block E b m = Inr m'"
    and bh: "block_hash_of E b = Inr bh" and fresh: "kv_get m (key_undo bh) = None"
  shows "revert_block E b m' = Inr m"
proof -
  have bt: "bt_ok m" using ok by (simp add: store_ok_def)
  from ap obtain ops where ops: "apply_ops E b m = Inr ops" "m' = kv_write_batch ops m"
    by (auto simp: apply_block_def res_simps)
  from ops(1) bh obtain st cbs dels hs puts cbputs ub where
    st: "stage_txs E m (bh_height (blk_header b)) 0 (blk_txs b)
       \<lparr>st_spent = [], st_consumed = {}, st_new = []\<rparr> [] = Inr (st, cbs)"
    and sp: "spend_ops E m (st_spent st) = Inr (dels, hs)" and pu: "put_outputs E (st_new st) = Inr puts"
    and cb: "put_heights E (map (\<lambda>p. (p, bh_height (blk_header b))) (filter (bt_has (st_new st)) cbs)) = Inr cbputs"
    and ub: "ser_undo E \<lparr>ul_spent = st_spent st, ul_spent_coinbase_heights = hs\<rparr> = Inr ub"
    and ops': "ops = dels @ puts @ cbputs @ [BPut (key_undo bh) ub]"
    by (elim apply_opsE) auto
  note r = stage_txs_refines [OF st stage_start(1)]
  have inv: "stage_inv E m st" using r by blast
  let ?M = "made E (blk_txs b)" and ?MC = "made_cb E (bh_height (blk_header b)) 0 (blk_txs b)"
  obtain dels' where dels': "unproduce_ops E (bh_height (blk_header b)) 0 (blk_txs b) = Inr dels'"
    "set dels' = BDelete ` (key_outpoint ` ?M \<union> key_coinbase_height ` ?MC)"
    using unproduce_ops_set [of "blk_txs b" E "bh_height (blk_header b)" 0] r by auto
  obtain puts' where puts': "put_outputs E (st_spent st) = Inr puts'"
    using put_outputs_total spent_outputs_encode [OF bin ok inv] by blast
  obtain cbputs' where cbputs': "put_heights E hs = Inr cbputs'"
    using put_heights_total spent_heights_encode [OF bin ok sp] by blast
  have get: "kv_get m' = batch_effect ops (kv_get m)" and bt': "bt_ok m'"
    using bt ops(2) by (simp_all add: kv.get_write kv.ok_write)
  have "kv_get m' (key_undo bh) = Some ub"
    unfolding get ops' append_assoc [symmetric] effect_append by (simp add: batch_effect_def)
  moreover have "de_undo E ub = Inr \<lparr>ul_spent = st_spent st, ul_spent_coinbase_heights = hs\<rparr>"
    using bin ub by (simp add: bincode_ok_def)
  ultimately have rev: "revert_block E b m' =
      Inr (kv_write_batch (dels' @ puts' @ cbputs' @ [BDelete (key_undo bh)]) m')"
    using dels'(1) puts' cbputs' bh by (simp add: revert_block_def revert_ops_def decode_with_def)
  have "op_key ` set ops \<subseteq> touched (fst ` set (st_spent st)) ?M (fst ` set hs) ?MC bh"
    by (rule apply_keys [OF st sp pu cb ops'])
  then have "kv_get (kv_write_batch (dels' @ puts' @ cbputs' @ [BDelete (key_undo bh)]) m') k = kv_get m k" for k
    unfolding kv.get_write [OF bt'] get using r
    by (intro undo_effect [OF inv bin ok sp dels'(2) puts' cbputs' _ made_cb_subset fresh]) blast+
  then have "kv_get (kv_write_batch (dels' @ puts' @ cbputs' @ [BDelete (key_undo bh)]) m') = kv_get m"
    by (rule HOL.ext)
  then show ?thesis unfolding rev using kv.ext bt bt' by (simp add: kv.ok_write)
qed

section \<open>Connecting keeps the store invariant\<close>

lemma apply_effect_height:
  assumes "apply_ops E b m = Inr ops"
    and st: "stage_txs E m (bh_height (blk_header b)) 0 (blk_txs b)
       \<lparr>st_spent = [], st_consumed = {}, st_new = []\<rparr> [] = Inr (st, cbs)"
    and v: "batch_effect ops (kv_get m) (key_coinbase_height p) = Some v"
  shows "(bt_has (st_new st) p \<and> (\<exists>h. ser_u64 E h = Inr v)) \<or>
    (kv_get m (key_coinbase_height p) = Some v \<and> p \<notin> fst ` set (st_spent st))"
proof -
  let ?h = "bh_height (blk_header b)" and ?k = "key_coinbase_height p"
  from assms obtain dels hs puts cbputs bh ub where
    sp: "spend_ops E m (st_spent st) = Inr (dels, hs)" and pu: "put_outputs E (st_new st) = Inr puts"
    and cb: "put_heights E (map (\<lambda>p. (p, ?h)) (filter (bt_has (st_new st)) cbs)) = Inr cbputs"
    and ops: "ops = dels @ puts @ cbputs @ [BPut (key_undo bh) ub]"
    by (elim apply_opsE) auto
  have "?k \<notin> op_key ` set puts"
    using put_outputs_keys [OF pu] by (rule contra_subsetD) (simp add: key_simps)
  then have skip: "batch_effect puts c ?k = c ?k" "batch_effect [BPut (key_undo bh) ub] c ?k = c ?k" for c
    by (simp_all add: effect_other key_simps)
  show ?thesis
  proof (cases "p \<in> set cbs \<and> bt_has (st_new st) p")
    case True
    then have mem: "p \<in> fst ` set (map (\<lambda>p. (p, ?h)) (filter (bt_has (st_new st)) cbs))" by force
    with put_heights_set [OF cb] obtain v' where v': "ser_u64 E ?h = Inr v'" by fastforce
    have "batch_effect cbputs c ?k = Some v'" for c
      by (rule restore_height [OF cb mem]) (use v' in auto)
    with v v' True show ?thesis unfolding ops effect_append skip by auto
  next
    case False
    then have "?k \<notin> op_key ` set cbputs"
      by (intro contra_subsetD [OF put_heights_keys [OF cb]]) (auto simp: key_simps)
    then have v1: "batch_effect dels (kv_get m) ?k = Some v"
      using v unfolding ops effect_append skip by (simp add: effect_other skip)
    have hs: "p \<notin> fst ` set hs"
    proof
      assume "p \<in> fst ` set hs"
      then have "batch_effect dels (kv_get m) ?k = None"
        using spend_ops_set [OF sp] by (intro effect_delete) (auto simp: key_simps)
      with v1 show False by simp
    qed
    then have "?k \<notin> op_key ` set dels"
      using conjunct1 [OF spend_ops_set [OF sp]] by (simp add: key_images key_simps)
    with v1 have "kv_get m ?k = Some v" by (simp add: effect_other)
    with hs spend_ops_set [OF sp] show ?thesis by blast
  qed
qed

lemma apply_block_store_ok:
  assumes ok: "store_ok E m" and ap: "apply_block E b m = Inr m'"
  shows "store_ok E m'"
proof -
  have bt: "bt_ok m" using ok by (simp add: store_ok_def)
  from ap obtain ops where ops: "apply_ops E b m = Inr ops" "m' = kv_write_batch ops m"
    by (auto simp: apply_block_def res_simps)
  from apply_opsE [OF ops(1)] obtain st cbs puts where
    st: "stage_txs E m (bh_height (blk_header b)) 0 (blk_txs b)
       \<lparr>st_spent = [], st_consumed = {}, st_new = []\<rparr> [] = Inr (st, cbs)"
    and pu: "put_outputs E (st_new st) = Inr puts" by metis
  have get: "kv_get m' = batch_effect ops (kv_get m)" using bt ops(2) by (simp add: kv.get_write)
  note eo = apply_effect_outpoint [OF ops(1) st, folded get]
  have "\<exists>out. ser_output E out = Inr v" if "kv_get m' (key_outpoint p) = Some v" for p v
    using that ok unfolding eo store_ok_def by (auto split: option.splits sum.splits if_splits)
  moreover have "(\<exists>h. ser_u64 E h = Inr v) \<and> kv_get m' (key_outpoint p) \<noteq> None"
    if v: "kv_get m' (key_coinbase_height p) = Some v" for p v
  proof (cases "bt_get (st_new st) p")
    case None
    then show ?thesis
      using apply_effect_height [OF ops(1) st, folded get, OF v] ok unfolding eo store_ok_def by auto
  next
    case (Some out)
    then obtain w where "ser_output E out = Inr w"
      using put_outputs_set [OF pu] by (force dest: map_of_SomeD)
    with Some show ?thesis
      using apply_effect_height [OF ops(1) st, folded get, OF v] ok unfolding eo store_ok_def by auto
  qed
  moreover have "bt_ok m'" using bt ops(2) by (simp add: kv.ok_write)
  ultimately show ?thesis unfolding store_ok_def by blast
qed

lemma apply_undo_key:
  assumes "bt_ok m" and "apply_block E b m = Inr m'" and "block_hash_of E b \<noteq> Inr h"
  shows "kv_get m' (key_undo h) = kv_get m (key_undo h)"
proof -
  from assms(2) obtain ops where ops: "apply_ops E b m = Inr ops" "m' = kv_write_batch ops m"
    by (auto simp: apply_block_def res_simps)
  from apply_opsE [OF ops(1)] obtain st cbs dels hs puts cbputs bh ub where
    st: "stage_txs E m (bh_height (blk_header b)) 0 (blk_txs b)
       \<lparr>st_spent = [], st_consumed = {}, st_new = []\<rparr> [] = Inr (st, cbs)"
    and sp: "spend_ops E m (st_spent st) = Inr (dels, hs)" and pu: "put_outputs E (st_new st) = Inr puts"
    and cb: "put_heights E (map (\<lambda>p. (p, bh_height (blk_header b))) (filter (bt_has (st_new st)) cbs)) = Inr cbputs"
    and bh: "block_hash_of E b = Inr bh" and o: "ops = dels @ puts @ cbputs @ [BPut (key_undo bh) ub]"
    by metis
  have "key_undo h \<notin> op_key ` set ops"
    using apply_keys [OF st sp pu cb o] by (rule contra_subsetD) (use bh assms(3) in \<open>auto simp: touched_def key_simps\<close>)
  then show ?thesis using assms(1) ops(2) by (simp add: kv.get_write effect_other)
qed

section \<open>The undo interface\<close>

text \<open>Running a list of blocks through one operation, stopping at the first error.\<close>

fun run_all :: "('b \<Rightarrow> 's \<Rightarrow> ('e, 's) result) \<Rightarrow> 'b list \<Rightarrow> 's \<Rightarrow> ('e, 's) result" where
  "run_all f [] s = Inr s"
| "run_all f (b # bs) s = bind_res (f b s) (run_all f bs)"

lemma run_all_append: "run_all f (as @ bs) s = bind_res (run_all f as s) (run_all f bs)"
proof (induction as arbitrary: s)
  case (Cons a as)
  then show ?case by (cases "f a s") simp_all
qed simp

text \<open>
  What a chain of blocks relies on: connecting keeps the store well formed and logs at most the
  connected block, and disconnecting a block that was not logged before undoes its connection.
\<close>

locale undo_store =
  fixes ok :: "'s \<Rightarrow> bool"
    and connect :: "'b \<Rightarrow> 's \<Rightarrow> ('e, 's) result"
    and disconnect :: "'b \<Rightarrow> 's \<Rightarrow> ('e, 's) result"
    and block_id :: "'b \<Rightarrow> 'k"
    and logged :: "'s \<Rightarrow> 'k \<Rightarrow> bool"
  assumes ok_connect: "ok s \<Longrightarrow> connect b s = Inr s' \<Longrightarrow> ok s'"
    and logged_connect: "ok s \<Longrightarrow> connect b s = Inr s' \<Longrightarrow> logged s' k \<Longrightarrow> logged s k \<or> k = block_id b"
    and undo: "ok s \<Longrightarrow> \<not> logged s (block_id b) \<Longrightarrow> connect b s = Inr s' \<Longrightarrow> disconnect b s' = Inr s"
begin

lemma ok_run: "ok s \<Longrightarrow> run_all connect bs s = Inr s' \<Longrightarrow> ok s'"
  by (induction bs arbitrary: s) (auto simp: res_simps dest: ok_connect)

lemma unwind:
  assumes "ok s" and "run_all connect bs s = Inr s'" and "distinct (map block_id bs)"
    and "\<forall>b \<in> set bs. \<not> logged s (block_id b)"
  shows "run_all disconnect (rev bs) s' = Inr s"
  using assms
proof (induction bs arbitrary: s)
  case (Cons b bs)
  from Cons.prems(2) obtain s1 where s1: "connect b s = Inr s1" "run_all connect bs s1 = Inr s'"
    by (auto simp: res_simps)
  have "\<forall>c \<in> set bs. \<not> logged s1 (block_id c)"
  proof
    fix c assume "c \<in> set bs"
    then show "\<not> logged s1 (block_id c)"
      using Cons.prems(3,4) logged_connect [OF Cons.prems(1) s1(1), of "block_id c"] by (auto simp: image_iff)
  qed
  then have "run_all disconnect (rev bs) s' = Inr s1"
    using Cons.IH [OF ok_connect [OF Cons.prems(1) s1(1)] s1(2)] Cons.prems(3) by simp
  moreover have "disconnect b s1 = Inr s" using undo [OF Cons.prems(1) _ s1(1)] Cons.prems(4) by simp
  ultimately show ?case by (simp add: run_all_append)
qed simp

end

definition undo_logged :: "kv_store \<Rightarrow> (block_error, block_hash) result \<Rightarrow> bool" where
  "undo_logged m k = (case k of Inl _ \<Rightarrow> False | Inr h \<Rightarrow> kv_get m (key_undo h) \<noteq> None)"

interpretation us: undo_store "\<lambda>m. bincode_ok E \<and> store_ok E m" "apply_block E" "revert_block E"
  "block_hash_of E" undo_logged
proof unfold_locales
  fix m m' b k
  assume ok: "bincode_ok E \<and> store_ok E m" and ap: "apply_block E b m = Inr m'"
  then show "bincode_ok E \<and> store_ok E m'" using apply_block_store_ok by blast
  have bt: "bt_ok m" using ok by (simp add: store_ok_def)
  assume "undo_logged m' k"
  then show "undo_logged m k \<or> k = block_hash_of E b"
    using apply_undo_key [OF bt ap] by (auto simp: undo_logged_def split: sum.splits)
next
  fix m m' b
  assume ok: "bincode_ok E \<and> store_ok E m" and ap: "apply_block E b m = Inr m'"
    and fresh: "\<not> undo_logged m (block_hash_of E b)"
  from ap obtain bh where bh: "block_hash_of E b = Inr bh"
    unfolding apply_block_def by (auto simp: res_simps elim: apply_opsE)
  then show "revert_block E b m' = Inr m"
    using revert_after_apply [OF _ _ ap bh] ok fresh by (simp add: undo_logged_def)
qed

section \<open>The properties\<close>

text \<open>
  C7. Connecting a block implements the ledger. When \<open>apply_block\<close> succeeds, running the block's
  transactions in order on the ledger the store held also succeeds and gives exactly the ledger the
  store holds afterwards, so every input was unspent when it was taken and every output was new; the
  store stays well formed.
\<close>

theorem apply_block_refines:
  assumes "bincode_ok E" and "store_ok E m" and "apply_block E b m = Inr m'"
  shows "ledger_txs E (blk_txs b) (utxo_view E m) = Some (utxo_view E m') \<and> store_ok E m'"
  using apply_block_view [OF assms(1) _ assms(3)] apply_block_store_ok [OF assms(2,3)] assms(2)
  by (simp add: store_ok_def)

text \<open>
  C8. A reorganisation restores the store. Connecting any number of blocks with different hashes,
  none with an undo log yet, and disconnecting them in reverse order succeeds and gives back the
  store exactly: outputs, coinbase heights and undo logs.
\<close>

theorem reorg_restores:
  assumes "bincode_ok E" and "store_ok E m" and "run_all (apply_block E) bs m = Inr m'"
    and "distinct (map (block_hash_of E) bs)"
    and "\<forall>b \<in> set bs. \<forall>h. block_hash_of E b = Inr h \<longrightarrow> kv_get m (key_undo h) = None"
  shows "run_all (revert_block E) (rev bs) m' = Inr m"
  using us.unwind [of E m bs m'] assms by (auto simp: undo_logged_def split: sum.splits)

text \<open>A concrete environment: outputs without datum encode, and one undo log does.\<close>

definition demo_undo :: undo_log where
  "demo_undo = \<lparr>ul_spent = [(OutPoint hash_zero 0, tx_output_new 9 [2])], ul_spent_coinbase_heights = []\<rparr>"

definition demo_store_env :: "'z \<Rightarrow> 'z store_env_scheme" where
  "demo_store_env z =
     \<lparr>sha3_256 = sha3_256 demo_env, blake3_256 = blake3_256 demo_env,
      mldsa_pk_len = mldsa_pk_len demo_env, mldsa_sig_len = mldsa_sig_len demo_env,
      mldsa_verify = mldsa_verify demo_env, ser_tx = ser_tx demo_env, de_tx = de_tx demo_env,
      ser_output = (\<lambda>out. if out_datum out = None \<and> out_stealth out = None
         then Inr (le_bytes 8 (unat (out_value out)) @ locking_script out) else Inl ''unsupported''),
      de_output = de_output demo_env, ser_header = ser_header demo_block_env,
      ser_undo = (\<lambda>u. if u = demo_undo then Inr [9] else Inl ''unsupported''),
      de_undo = (\<lambda>bs. if bs = [9] then Inr demo_undo else Inl ''malformed''),
      ser_u64 = (\<lambda>n. Inr (le_bytes 8 (unat n))), de_u64 = (\<lambda>bs. Inr (of_nat (le_val bs))),
      ser_snapshot = (\<lambda>_. Inl ''unsupported''), de_snapshot = (\<lambda>_. Inl ''malformed''), \<dots> = z\<rparr>"

definition demo_store :: kv_store where
  "demo_store = [(key_outpoint (OutPoint hash_zero 0), [9, 0, 0, 0, 0, 0, 0, 0, 2])]"

definition demo_store_after :: kv_store where
  "demo_store_after = [(key_outpoint (OutPoint demo_id 0), [7, 0, 0, 0, 0, 0, 0, 0, 1]),
     (key_undo (Hash256 (5 # replicate 31 0)), [9])]"

lemma demo_bincode_ok: "bincode_ok (demo_store_env z)"
proof -
  have [simp]: "of_nat (unat n mod 18446744073709551616) = n" for n :: u64
    using unat_bound [of n] by simp
  have "tx_output_new (of_nat (le_val (le_bytes 8 (unat (out_value x))))) (locking_script x) = x"
    if "out_datum x = None" "out_stealth x = None" for x :: tx_output
    using that unat_bound [of "out_value x"]
    by (cases x) (simp add: tx_output_new_def le_val_le_bytes)
  then show ?thesis
    by (auto simp: bincode_ok_def demo_store_env_def demo_env_def le_val_le_bytes split: if_splits)
qed

lemma key_outpoint_less_undo: "key_outpoint p < key_undo h"
  by (simp add: key_outpoint_def key_undo_def UTXO_ENTRY_PREFIX_def UTXO_UNDO_PREFIX_def ascii_def)

lemma demo_store_tx_id: "tx_id (demo_store_env z) demo_tx = Inr demo_id"
  by (simp add: res_simps demo_store_env_def demo_env_def demo_id_def)

lemma demo_ids_differ: "demo_id \<noteq> hash_zero"
  by (auto simp: demo_id_def hash_zero_def dest: arg_cong [where f = hd])

lemma le_bytes_numeral: "le_bytes (numeral k) x = of_nat (x mod 256) # le_bytes (pred_numeral k) (x div 256)"
  by (simp only: numeral_eq_Suc le_bytes.simps)

lemma demo_encodings:
  "ser_output (demo_store_env z) (tx_output_new 7 [1]) = Inr [7, 0, 0, 0, 0, 0, 0, 0, 1]"
  "ser_output (demo_store_env z) (tx_output_new 9 [2]) = Inr [9, 0, 0, 0, 0, 0, 0, 0, 2]"
  "ser_undo (demo_store_env z) demo_undo = Inr [9]"
  by (simp_all add: demo_store_env_def tx_output_new_def le_bytes_numeral)

lemma replicate_numeral: "replicate (numeral k) x = x # replicate (pred_numeral k) x"
  by (simp only: numeral_eq_Suc replicate.simps)

lemma demo_block_hash: "block_hash_of (demo_store_env z) demo_block = Inr (Hash256 (5 # replicate 31 0))"
  by (simp add: block_hash_of_def header_hash_def header_canonical_bytes_def demo_block_def
      demo_store_env_def demo_block_env_def demo_env_def le_bytes_numeral replicate_numeral)

lemma demo_store_block_valid: "block_validate_structure (demo_store_env z) demo_block = Inr ()"
proof -
  have "list_all2 (\<lambda>tx i. tx_id (demo_store_env z) tx = Inr i) (blk_txs demo_block) [demo_id]"
    by (simp add: demo_block_def demo_store_tx_id)
  moreover have "\<forall>j < length (blk_txs demo_block).
      tx_admissible (bh_height (blk_header demo_block)) j (blk_txs demo_block ! j)"
    by (simp add: demo_block_def tx_admissible_def demo_tx_def tx_new_def tx_output_new_def)
  moreover have "merkle_root_of (sha3_256 (demo_store_env z)) [demo_id] = bh_merkle_root (blk_header demo_block)"
    by (simp add: merkle_root_of_def merkle_loop.simps demo_block_def demo_id_def)
  ultimately show ?thesis by (auto simp: res_simps)
qed

lemma demo_tx_parts:
  "tx_inputs demo_tx = [tx_input_new (OutPoint hash_zero 0)]" "tx_outputs demo_tx = [tx_output_new 7 [1]]"
  "prev_output (tx_input_new (OutPoint hash_zero 0)) = OutPoint hash_zero 0"
  by (simp_all add: demo_tx_def tx_new_def tx_input_new_def)

lemma demo_decode: "de_output (demo_store_env z) [9, 0, 0, 0, 0, 0, 0, 0, 2] = Inr (tx_output_new 9 [2])"
  by (simp add: demo_store_env_def demo_env_def)

lemma demo_stage:
  "stage_txs (demo_store_env z) demo_store 5 0 [demo_tx] \<lparr>st_spent = [], st_consumed = {}, st_new = []\<rparr> [] =
     Inr (\<lparr>st_spent = ul_spent demo_undo, st_consumed = {OutPoint hash_zero 0},
       st_new = [(OutPoint demo_id 0, tx_output_new 7 [1])]\<rparr>, [])"
  using demo_ids_differ
  by (simp add: demo_tx_parts demo_store_tx_id demo_decode produce_outputs_def demo_store_def kv_get_def
      key_simps demo_undo_def decode_with_def Let_def)

lemma demo_apply: "apply_block (demo_store_env z) demo_block demo_store = Inr demo_store_after"
proof -
  have "apply_ops (demo_store_env z) demo_block demo_store =
    Inr [BDelete (key_outpoint (OutPoint hash_zero 0)),
      BPut (key_outpoint (OutPoint demo_id 0)) [7, 0, 0, 0, 0, 0, 0, 0, 1],
      BPut (key_undo (Hash256 (5 # replicate 31 0))) [9]]"
    using demo_stage [of z] demo_store_block_valid [of z] demo_block_hash [of z] demo_encodings [of z]
    by (simp add: apply_ops_def demo_block_def encode_with_def demo_undo_def demo_store_def kv_get_def key_simps)
  then show ?thesis
    using key_outpoint_less_undo [of "OutPoint demo_id 0" "Hash256 (5 # replicate 31 0)"]
    by (auto simp: apply_block_def kv_write_batch_def demo_store_def demo_store_after_def bt_remove_def key_simps)
qed

lemma demo_store_ok: "store_ok (demo_store_env z) demo_store"
  using demo_encodings(2) [of z]
  by (auto simp: store_ok_def demo_store_def bt_ok_def kv_get_def key_simps split: if_splits)

lemma demo_block_txs: "blk_txs demo_block = [demo_tx]"
  by (simp add: demo_block_def)

theorem apply_block_refines_witness:
  "bincode_ok (demo_store_env ()) \<and> store_ok (demo_store_env ()) demo_store \<and>
   apply_block (demo_store_env ()) demo_block demo_store = Inr demo_store_after \<and>
   ledger_txs (demo_store_env ()) [demo_tx] (utxo_view (demo_store_env ()) demo_store) =
     Some (utxo_view (demo_store_env ()) demo_store_after) \<and> store_ok (demo_store_env ()) demo_store_after"
  using apply_block_refines [OF demo_bincode_ok demo_store_ok demo_apply, of "()"]
  by (simp only: demo_block_txs demo_bincode_ok demo_store_ok demo_apply simp_thms)

theorem reorg_restores_witness:
  "run_all (apply_block (demo_store_env ())) [demo_block] demo_store = Inr demo_store_after \<and>
   run_all (revert_block (demo_store_env ())) [demo_block] demo_store_after = Inr demo_store"
proof -
  have run: "run_all (apply_block (demo_store_env ())) [demo_block] demo_store = Inr demo_store_after"
    by (simp add: demo_apply)
  then show ?thesis
    using reorg_restores [OF demo_bincode_ok demo_store_ok run]
    by (simp add: demo_store_def kv_get_def key_simps)
qed

end
