(* ===== verification/QV_Mempool.thy ===== *)
theory QV_Mempool
  imports QV_Transaction
begin

text \<open>
  \<open>qv-mempool/src/clear.rs\<close> and \<open>ordering.rs\<close>: the fee-sorted pool of unconfirmed transactions and
  the canonical transaction order. The pool keeps three maps that must agree, the entries by
  identifier, the priority index and the spent outpoints, and a byte count. A \<open>HashMap\<close> is
  modelled by the ordered map: the code never depends on its iteration order. The wall clock is the
  argument \<open>now\<close>, and \<open>usize\<close> is 64 bits wide.
\<close>

section \<open>Data\<close>

datatype mempool_error =
    DuplicateTx txid
  | FeeTooLow u64 u64
  | DoubleSpend outpoint txid
  | PoolFull
  | WrongEpoch epoch epoch
  | Decryption string
  | InsufficientShares u32 u32
  | Batch string

record clear_pool_config =
  max_tx_count :: u64
  max_pool_bytes :: u64
  min_fee :: u64
  max_age_secs :: u64

definition pool_config_default :: clear_pool_config where
  "pool_config_default =
     \<lparr>max_tx_count = 50000, max_pool_bytes = 64 * 1024 * 1024, min_fee = 1, max_age_secs = 3600\<rparr>"

definition pool_config_testnet :: clear_pool_config where
  "pool_config_testnet =
     \<lparr>max_tx_count = 100000, max_pool_bytes = 128 * 1024 * 1024, min_fee = 0, max_age_secs = 7200\<rparr>"

definition pool_config_ephemeral :: clear_pool_config where
  "pool_config_ephemeral =
     \<lparr>max_tx_count = 1000, max_pool_bytes = 4 * 1024 * 1024, min_fee = 0, max_age_secs = 300\<rparr>"

record mempool_entry =
  me_tx :: transaction
  me_tx_id :: txid
  me_fee :: amount
  me_size :: u64
  me_fee_density :: u64
  me_added_at :: u64

definition entry_new :: "u64 \<Rightarrow> transaction \<Rightarrow> txid \<Rightarrow> amount \<Rightarrow> u64 \<Rightarrow> mempool_entry" where
  "entry_new now tx tid fee sz =
     \<lparr>me_tx = tx, me_tx_id = tid, me_fee = fee, me_size = sz,
      me_fee_density = (if 0 < sz then sat_mul fee 1000 div sz else fee), me_added_at = now\<rparr>"

text \<open>
  The sort key. Its derived comparison is lexicographic, and the density is stored negated so that
  ascending order is descending density. \<open>OrderKey\<close> of \<open>ordering.rs\<close> has the same shape and order.
\<close>

datatype priority_key =
  PriorityKey (neg_fee_density: u64) (pk_time: u64) (pk_tx_id: txid)

instantiation priority_key :: linorder
begin

definition less_eq_priority_key :: "priority_key \<Rightarrow> priority_key \<Rightarrow> bool" where
  "less_eq_priority_key a b \<longleftrightarrow> neg_fee_density a < neg_fee_density b \<or>
     neg_fee_density a = neg_fee_density b \<and>
     (pk_time a < pk_time b \<or> pk_time a = pk_time b \<and> pk_tx_id a \<le> pk_tx_id b)"

definition less_priority_key :: "priority_key \<Rightarrow> priority_key \<Rightarrow> bool" where
  "less_priority_key a b \<longleftrightarrow> neg_fee_density a < neg_fee_density b \<or>
     neg_fee_density a = neg_fee_density b \<and>
     (pk_time a < pk_time b \<or> pk_time a = pk_time b \<and> pk_tx_id a < pk_tx_id b)"

instance
  by standard (auto simp: less_eq_priority_key_def less_priority_key_def priority_key.expand)

end

definition key_of_entry :: "mempool_entry \<Rightarrow> priority_key" where
  "key_of_entry e = PriorityKey (- 1 - me_fee_density e) (me_added_at e) (me_tx_id e)"

record clear_pool =
  cp_config :: clear_pool_config
  cp_by_id :: "(txid, mempool_entry) btree"
  cp_by_priority :: "(priority_key, txid) btree"
  cp_spent :: "(outpoint, txid) btree"
  cp_total_bytes :: u64

section \<open>Operations\<close>

definition pool_new :: "clear_pool_config \<Rightarrow> clear_pool" where
  "pool_new cfg =
     \<lparr>cp_config = cfg, cp_by_id = [], cp_by_priority = [], cp_spent = [], cp_total_bytes = 0\<rparr>"

definition pool_len :: "clear_pool \<Rightarrow> nat" where
  "pool_len P = length (cp_by_id P)"

definition pool_contains :: "clear_pool \<Rightarrow> txid \<Rightarrow> bool" where
  "pool_contains P tid \<longleftrightarrow> bt_has (cp_by_id P) tid"

definition pool_get :: "clear_pool \<Rightarrow> txid \<Rightarrow> mempool_entry option" where
  "pool_get P tid = bt_get (cp_by_id P) tid"

definition entry_outpoints :: "mempool_entry \<Rightarrow> outpoint list" where
  "entry_outpoints e = map prev_output (tx_inputs (me_tx e))"

definition pool_remove :: "txid \<Rightarrow> clear_pool \<Rightarrow> mempool_entry option \<times> clear_pool" where
  "pool_remove tid P =
     (case bt_get (cp_by_id P) tid of
        None \<Rightarrow> (None, P)
      | Some e \<Rightarrow>
          (Some e, P\<lparr>cp_by_id := bt_remove tid (cp_by_id P),
                     cp_by_priority := bt_remove (key_of_entry e) (cp_by_priority P),
                     cp_spent := fold bt_remove (entry_outpoints e) (cp_spent P),
                     cp_total_bytes := sat_sub (cp_total_bytes P) (me_size e)\<rparr>))"

definition evict_expired :: "u64 \<Rightarrow> clear_pool \<Rightarrow> nat \<times> clear_pool" where
  "evict_expired now P =
     (let cutoff = sat_sub now (max_age_secs (cp_config P));
          expired_ids = map me_tx_id (filter (\<lambda>e. me_added_at e < cutoff) (map snd (cp_by_id P)))
      in (length expired_ids, fold (\<lambda>tid P. snd (pool_remove tid P)) expired_ids P))"

definition evict_lowest_fee :: "clear_pool \<Rightarrow> bool \<times> clear_pool" where
  "evict_lowest_fee P =
     (if cp_by_priority P = [] then (False, P)
      else (True, snd (pool_remove (pk_tx_id (fst (last (cp_by_priority P)))) P)))"

definition over_capacity :: "u64 \<Rightarrow> clear_pool \<Rightarrow> bool" where
  "over_capacity sz P \<longleftrightarrow>
     unat (max_tx_count (cp_config P)) \<le> length (cp_by_id P) \<or>
     max_pool_bytes (cp_config P) < sat_add (cp_total_bytes P) sz"

text \<open>The capacity loop of \<open>add\<close>; \<open>None\<close> would be a loop that never ends.\<close>

partial_function (option) make_room ::
  "u64 \<Rightarrow> clear_pool \<Rightarrow> ((mempool_error, unit) result \<times> clear_pool) option" where
  "make_room sz P =
     (if over_capacity sz P
      then if fst (evict_lowest_fee P) then make_room sz (snd (evict_lowest_fee P))
           else Some (Inl PoolFull, snd (evict_lowest_fee P))
      else Some (Inr (), P))"

fun check_unspent :: "clear_pool \<Rightarrow> outpoint list \<Rightarrow> (mempool_error, unit) result" where
  "check_unspent P [] = Inr ()"
| "check_unspent P (p # ps) =
     (case bt_get (cp_spent P) p of Some t \<Rightarrow> Inl (DoubleSpend p t) | None \<Rightarrow> check_unspent P ps)"

definition pool_insert :: "mempool_entry \<Rightarrow> clear_pool \<Rightarrow> clear_pool" where
  "pool_insert e P =
     P\<lparr>cp_spent := fold (\<lambda>p. bt_insert p (me_tx_id e)) (entry_outpoints e) (cp_spent P),
       cp_total_bytes := sat_add (cp_total_bytes P) (me_size e),
       cp_by_priority := bt_insert (key_of_entry e) (me_tx_id e) (cp_by_priority P),
       cp_by_id := bt_insert (me_tx_id e) e (cp_by_id P)\<rparr>"

definition pool_add ::
  "u64 \<Rightarrow> mempool_entry \<Rightarrow> clear_pool \<Rightarrow> ((mempool_error, txid) result \<times> clear_pool) option" where
  "pool_add now e P =
     (if bt_has (cp_by_id P) (me_tx_id e) then Some (Inl (DuplicateTx (me_tx_id e)), P)
      else if me_fee e < min_fee (cp_config P)
      then Some (Inl (FeeTooLow (me_fee e) (min_fee (cp_config P))), P)
      else case check_unspent P (entry_outpoints e) of
        Inl err \<Rightarrow> Some (Inl err, P)
      | Inr _ \<Rightarrow>
          (case make_room (me_size e) (snd (evict_expired now P)) of
             None \<Rightarrow> None
           | Some (Inl err, P') \<Rightarrow> Some (Inl err, P')
           | Some (Inr _, P') \<Rightarrow> Some (Inr (me_tx_id e), pool_insert e P')))"

fun remove_list :: "txid list \<Rightarrow> clear_pool \<Rightarrow> txid list \<times> clear_pool" where
  "remove_list [] P = ([], P)"
| "remove_list (t # ts) P =
     (case pool_remove t P of
        (None, P') \<Rightarrow> remove_list ts P'
      | (Some _, P') \<Rightarrow> (let (r, P'') = remove_list ts P' in (t # r, P'')))"

text \<open>The argument is the sorted iteration of the \<open>BTreeSet\<close> of spent outpoints.\<close>

definition remove_confirmed :: "outpoint list \<Rightarrow> clear_pool \<Rightarrow> txid list \<times> clear_pool" where
  "remove_confirmed spent P = remove_list (List.map_filter (bt_get (cp_spent P)) spent) P"

definition get_batch :: "nat \<Rightarrow> clear_pool \<Rightarrow> mempool_entry list" where
  "get_batch n P = List.map_filter (bt_get (cp_by_id P)) (take n (map snd (cp_by_priority P)))"

definition all_sorted :: "clear_pool \<Rightarrow> mempool_entry list" where
  "all_sorted P = List.map_filter (bt_get (cp_by_id P)) (map snd (cp_by_priority P))"

definition is_spent :: "clear_pool \<Rightarrow> outpoint \<Rightarrow> bool" where
  "is_spent P p \<longleftrightarrow> bt_has (cp_spent P) p"

definition spending_tx :: "clear_pool \<Rightarrow> outpoint \<Rightarrow> txid option" where
  "spending_tx P p = bt_get (cp_spent P) p"

section \<open>The canonical order\<close>

definition order_key :: "u64 \<Rightarrow> u64 \<Rightarrow> txid \<Rightarrow> priority_key" where
  "order_key fee_density timestamp_ms tid = PriorityKey (- 1 - fee_density) timestamp_ms tid"

definition order_fee_density :: "priority_key \<Rightarrow> u64" where
  "order_fee_density k = - 1 - neg_fee_density k"

definition deterministic_sort :: "priority_key list \<Rightarrow> priority_key list" where
  "deterministic_sort keys = sort keys"

fun verify_order :: "priority_key list \<Rightarrow> bool" where
  "verify_order (a # b # ks) \<longleftrightarrow> a < b \<and> verify_order (b # ks)"
| "verify_order _ \<longleftrightarrow> True"

section \<open>The invariant\<close>

text \<open>
  The priority index and the spent index say exactly what the entries say, the byte count is the
  sum of the sizes, and both limits hold. That the spent index is a map is what excludes two pooled
  transactions that spend the same outpoint.
\<close>

definition pool_inv :: "clear_pool \<Rightarrow> bool" where
  "pool_inv P \<longleftrightarrow> bt_ok (cp_by_id P) \<and> bt_ok (cp_by_priority P) \<and> bt_ok (cp_spent P) \<and>
     (\<forall>t e. bt_get (cp_by_id P) t = Some e \<longrightarrow> me_tx_id e = t) \<and>
     (\<forall>k t. bt_get (cp_by_priority P) k = Some t \<longleftrightarrow>
        (\<exists>e. bt_get (cp_by_id P) t = Some e \<and> k = key_of_entry e)) \<and>
     (\<forall>p t. bt_get (cp_spent P) p = Some t \<longleftrightarrow>
        (\<exists>e. bt_get (cp_by_id P) t = Some e \<and> p \<in> set (entry_outpoints e))) \<and>
     unat (cp_total_bytes P) = bt_total (\<lambda>e. unat (me_size e)) (cp_by_id P) \<and>
     length (cp_by_id P) \<le> unat (max_tx_count (cp_config P)) \<and>
     cp_total_bytes P \<le> max_pool_bytes (cp_config P) \<and> max_pool_bytes (cp_config P) \<noteq> - 1"

lemma pool_invD:
  assumes "pool_inv P"
  shows "bt_ok (cp_by_id P)" "bt_ok (cp_by_priority P)" "bt_ok (cp_spent P)"
    "\<And>t e. bt_get (cp_by_id P) t = Some e \<Longrightarrow> me_tx_id e = t"
    "\<And>k t. bt_get (cp_by_priority P) k = Some t \<longleftrightarrow> (\<exists>e. bt_get (cp_by_id P) t = Some e \<and> k = key_of_entry e)"
    "\<And>p t. bt_get (cp_spent P) p = Some t \<longleftrightarrow>
       (\<exists>e. bt_get (cp_by_id P) t = Some e \<and> p \<in> set (entry_outpoints e))"
    "unat (cp_total_bytes P) = bt_total (\<lambda>e. unat (me_size e)) (cp_by_id P)"
    "length (cp_by_id P) \<le> unat (max_tx_count (cp_config P))"
    "cp_total_bytes P \<le> max_pool_bytes (cp_config P)" "max_pool_bytes (cp_config P) \<noteq> - 1"
  using assms unfolding pool_inv_def by blast+

lemma key_of_entry_id [simp]: "pk_tx_id (key_of_entry e) = me_tx_id e"
  by (simp add: key_of_entry_def)

lemma pool_new_inv: "max_pool_bytes cfg \<noteq> - 1 \<Longrightarrow> pool_inv (pool_new cfg)"
  by (simp add: pool_inv_def pool_new_def bt_ok_def bt_total_def bt_sum_def)

lemma fold_bt_remove:
  "bt_ok m \<Longrightarrow> bt_ok (fold bt_remove ps m) \<and>
     bt_get (fold bt_remove ps m) = (\<lambda>q. if q \<in> set ps then None else bt_get m q)"
  by (induction ps arbitrary: m) (auto simp: bt_simps fun_eq_iff)

lemma fold_bt_insert:
  "bt_ok m \<Longrightarrow> bt_ok (fold (\<lambda>p. bt_insert p t) ps m) \<and>
     bt_get (fold (\<lambda>p. bt_insert p t) ps m) = (\<lambda>q. if q \<in> set ps then Some t else bt_get m q)"
  by (induction ps arbitrary: m) (auto simp: bt_simps fun_eq_iff)

lemma length_bt_remove: "length (bt_remove k m) \<le> length m"
  by (simp add: bt_remove_def)

lemma length_bt_remove_less: "bt_get m k = Some v \<Longrightarrow> length (bt_remove k m) < length m"
  unfolding bt_remove_def by (rule length_filter_less [of "(k, v)"]) (auto dest: map_of_SomeD)

lemma length_bt_insert: "bt_get m k = None \<Longrightarrow> length (bt_insert k v m) = Suc (length m)"
  by (induction m) (auto split: if_splits)

lemma pool_remove_config [simp]: "cp_config (snd (pool_remove t P)) = cp_config P"
  by (simp add: pool_remove_def split: option.splits)

lemma pool_remove_by_id:
  assumes "pool_inv P"
  shows "bt_get (cp_by_id (snd (pool_remove t P))) = (bt_get (cp_by_id P))(t := None)"
  using assms by (auto simp: pool_remove_def pool_invD(1) bt_simps fun_eq_iff split: option.splits)

lemma pool_remove_inv:
  assumes inv: "pool_inv P"
  shows "pool_inv (snd (pool_remove t P))"
proof (cases "bt_get (cp_by_id P) t")
  case None
  then show ?thesis using inv by (simp add: pool_remove_def)
next
  case (Some e)
  note i = pool_invD [OF inv]
  have id: "me_tx_id e = t" using i(4) Some by blast
  let ?P = "snd (pool_remove t P)"
  have by_id: "bt_get (cp_by_id ?P) = (bt_get (cp_by_id P))(t := None)" by (rule pool_remove_by_id [OF inv])
  have pr: "bt_get (cp_by_priority ?P) = (bt_get (cp_by_priority P))(key_of_entry e := None)"
    using Some i(2) by (simp add: pool_remove_def bt_simps)
  have sp: "bt_get (cp_spent ?P) = (\<lambda>q. if q \<in> set (entry_outpoints e) then None else bt_get (cp_spent P) q)"
    using Some fold_bt_remove [OF i(3)] by (simp add: pool_remove_def)
  have bt: "bt_ok (cp_by_id ?P)" "bt_ok (cp_by_priority ?P)" "bt_ok (cp_spent ?P)"
    using Some i(1-3) fold_bt_remove by (auto simp: pool_remove_def bt_simps)
  have "unat (me_size e) \<le> unat (cp_total_bytes P)"
    using bt_get_le_total [OF Some, of "\<lambda>e. unat (me_size e)"] i(7) by simp
  then have le: "me_size e \<le> cp_total_bytes P" by (simp add: word_le_nat_alt)
  have tot: "unat (cp_total_bytes ?P) = bt_total (\<lambda>e. unat (me_size e)) (cp_by_id ?P)"
    using Some le i(7) bt_total_remove [OF i(1), of "\<lambda>e. unat (me_size e)" t]
    by (simp add: pool_remove_def sat_sub_def unat_sub)
  have small: "cp_total_bytes ?P \<le> cp_total_bytes P"
    using Some le by (simp add: pool_remove_def sat_sub_def word_le_nat_alt unat_sub)
  have len: "length (cp_by_id ?P) \<le> length (cp_by_id P)"
    using Some length_bt_remove by (simp add: pool_remove_def)
  have k: "bt_get (cp_by_priority ?P) k = Some t' \<longleftrightarrow> (\<exists>e'. bt_get (cp_by_id ?P) t' = Some e' \<and> k = key_of_entry e')" for k t'
  proof (cases "k = key_of_entry e")
    case True
    have "key_of_entry e \<noteq> key_of_entry e'" if "bt_get (cp_by_id ?P) t' = Some e'" for e'
    proof
      assume "key_of_entry e = key_of_entry e'"
      then have "pk_tx_id (key_of_entry e) = pk_tx_id (key_of_entry e')" by simp
      with that id i(4) [of t' e'] show False by (simp add: by_id split: if_splits)
    qed
    with True show ?thesis by (auto simp: pr)
  next
    case False
    then show ?thesis using i(5) [of k t'] Some by (auto simp: pr by_id)
  qed
  have s: "bt_get (cp_spent ?P) p = Some t' \<longleftrightarrow> (\<exists>e'. bt_get (cp_by_id ?P) t' = Some e' \<and> p \<in> set (entry_outpoints e'))" for p t'
    using i(6) [of p t] i(6) [of p t'] Some by (auto simp: sp by_id)
  show ?thesis
    unfolding pool_inv_def using bt tot small len k s i(4,8,9,10) by (auto simp: by_id)
qed

lemma fold_pool_remove:
  assumes "pool_inv P"
  shows "pool_inv (fold (\<lambda>t P. snd (pool_remove t P)) ts P) \<and>
    cp_config (fold (\<lambda>t P. snd (pool_remove t P)) ts P) = cp_config P \<and>
    bt_get (cp_by_id (fold (\<lambda>t P. snd (pool_remove t P)) ts P)) =
      (\<lambda>t. if t \<in> set ts then None else bt_get (cp_by_id P) t)"
  using assms
proof (induction ts arbitrary: P)
  case (Cons t ts)
  from Cons.IH [OF pool_remove_inv [OF Cons.prems, of t]] show ?case
    by (auto simp: pool_remove_by_id [OF Cons.prems] fun_eq_iff)
qed simp

lemma evict_expired_inv:
  assumes "pool_inv P" and "evict_expired now P = (n, P')"
  shows "pool_inv P' \<and> cp_config P' = cp_config P \<and>
    (\<forall>t e. bt_get (cp_by_id P') t = Some e \<longleftrightarrow>
       bt_get (cp_by_id P) t = Some e \<and> sat_sub now (max_age_secs (cp_config P)) \<le> me_added_at e)"
proof -
  note i = pool_invD [OF assms(1)]
  let ?c = "sat_sub now (max_age_secs (cp_config P))"
  define ts where "ts = map me_tx_id (filter (\<lambda>e. me_added_at e < ?c) (map snd (cp_by_id P)))"
  have P': "P' = fold (\<lambda>t P. snd (pool_remove t P)) ts P"
    using assms(2) by (simp add: evict_expired_def Let_def ts_def)
  have d: "distinct (map fst (cp_by_id P))" using i(1) by (simp add: bt_ok_def strict_sorted_iff)
  have mem: "t \<in> set ts \<longleftrightarrow> me_added_at e < ?c" if e: "bt_get (cp_by_id P) t = Some e" for t e
  proof -
    have "t \<in> set ts \<longleftrightarrow> (\<exists>x \<in> set (cp_by_id P). me_added_at (snd x) < ?c \<and> me_tx_id (snd x) = t)"
      by (auto simp: ts_def)
    also have "\<dots> \<longleftrightarrow> (\<exists>u e'. bt_get (cp_by_id P) u = Some e' \<and> me_added_at e' < ?c \<and> me_tx_id e' = t)"
      using d by force
    also have "\<dots> \<longleftrightarrow> me_added_at e < ?c" using i(4) e by (metis option.inject)
    finally show ?thesis .
  qed
  have "bt_get (cp_by_id P') t = Some e \<longleftrightarrow> bt_get (cp_by_id P) t = Some e \<and> ?c \<le> me_added_at e" for t e
    using fold_pool_remove [OF assms(1), of ts] mem [of t e] by (auto simp: P' not_less)
  then show ?thesis using fold_pool_remove [OF assms(1), of ts] by (simp add: P')
qed

lemma priority_empty:
  assumes "pool_inv P" and "cp_by_priority P = []"
  shows "cp_by_id P = []"
proof (rule ccontr)
  assume "cp_by_id P \<noteq> []"
  then obtain x xs where "cp_by_id P = x # xs" by (cases "cp_by_id P") auto
  then have "bt_get (cp_by_id P) (fst x) = Some (snd x)" by simp
  then show False using pool_invD(5) [OF assms(1)] assms(2) by auto
qed

lemma lowest_entry:
  assumes inv: "pool_inv P" and ne: "cp_by_priority P \<noteq> []"
  shows "\<exists>e. bt_get (cp_by_id P) (me_tx_id e) = Some e \<and> fst (last (cp_by_priority P)) = key_of_entry e \<and>
    (\<forall>t e'. bt_get (cp_by_id P) t = Some e' \<longrightarrow> key_of_entry e' \<le> key_of_entry e)"
proof -
  note i = pool_invD [OF inv]
  let ?l = "last (cp_by_priority P)"
  have d: "distinct (map fst (cp_by_priority P))" and s: "sorted_wrt (<) (map fst (cp_by_priority P))"
    using i(2) by (auto simp: bt_ok_def strict_sorted_iff)
  have "bt_get (cp_by_priority P) (fst ?l) = Some (snd ?l)" using d ne by simp
  then obtain e where e: "bt_get (cp_by_id P) (snd ?l) = Some e" "fst ?l = key_of_entry e" using i(5) by blast
  have "key_of_entry e' \<le> key_of_entry e" if "bt_get (cp_by_id P) t = Some e'" for t e'
  proof -
    have "bt_get (cp_by_priority P) (key_of_entry e') = Some t" using i(5) that by blast
    then have "key_of_entry e' \<in> set (map fst (cp_by_priority P))"
      using map_of_SomeD by force
    moreover have "sorted (map fst (cp_by_priority P))" using s by (simp add: strict_sorted_imp_sorted)
    moreover have "last (map fst (cp_by_priority P)) = key_of_entry e" using ne e(2) by (simp add: last_map)
    ultimately show ?thesis by (metis sorted_nth_mono in_set_conv_nth last_conv_nth less_Suc_eq_le
          list.size(3) Suc_pred length_greater_0_conv diff_less zero_less_one less_nat_zero_code diff_Suc_1)
  qed
  with e i(4) [OF e(1)] show ?thesis by (intro exI [of _ e]) simp
qed

text \<open>
  Making room ends, because every round removes an entry; it removes lowest priorities first, and
  gives up only when the pool is empty.
\<close>

lemma make_room_total:
  assumes "pool_inv P"
  shows "\<exists>r P'. make_room sz P = Some (r, P') \<and> pool_inv P' \<and> cp_config P' = cp_config P \<and>
    (\<forall>t e. bt_get (cp_by_id P') t = Some e \<longrightarrow> bt_get (cp_by_id P) t = Some e) \<and>
    (\<forall>t e t' e'. bt_get (cp_by_id P) t = Some e \<and> bt_get (cp_by_id P') t = None \<and>
       bt_get (cp_by_id P') t' = Some e' \<longrightarrow> key_of_entry e' < key_of_entry e) \<and>
    (case r of Inr _ \<Rightarrow> \<not> over_capacity sz P' | Inl err \<Rightarrow> err = PoolFull \<and> cp_by_id P' = [] \<and> over_capacity sz P')"
  using assms
proof (induction "length (cp_by_id P)" arbitrary: P rule: less_induct)
  case less
  show ?case
  proof (cases "over_capacity sz P")
    case False
    then show ?thesis using less.prems by (subst make_room.simps) auto
  next
    case over: True
    show ?thesis
    proof (cases "cp_by_priority P = []")
      case True
      with over show ?thesis
        using less.prems priority_empty [OF less.prems True]
        by (subst make_room.simps) (simp add: evict_lowest_fee_def)
    next
      case False
      obtain x where x: "bt_get (cp_by_id P) (me_tx_id x) = Some x"
          "fst (last (cp_by_priority P)) = key_of_entry x"
        and low: "\<And>t e'. bt_get (cp_by_id P) t = Some e' \<Longrightarrow> key_of_entry e' \<le> key_of_entry x"
        using lowest_entry [OF less.prems False] by blast
      define Q where "Q = snd (pool_remove (me_tx_id x) P)"
      have Q: "pool_inv Q" "cp_config Q = cp_config P"
        "bt_get (cp_by_id Q) = (bt_get (cp_by_id P))(me_tx_id x := None)"
        using pool_remove_inv [OF less.prems] pool_remove_by_id [OF less.prems] by (simp_all add: Q_def)
      have "length (cp_by_id Q) < length (cp_by_id P)"
        using x(1) length_bt_remove_less [OF x(1)] by (simp add: Q_def pool_remove_def)
      from less.hyps [OF this Q(1)] obtain r P' where
        run: "make_room sz Q = Some (r, P')" "pool_inv P'" "cp_config P' = cp_config Q"
        and sub: "\<forall>t e. bt_get (cp_by_id P') t = Some e \<longrightarrow> bt_get (cp_by_id Q) t = Some e"
        and ord: "\<forall>t e t' e'. bt_get (cp_by_id Q) t = Some e \<and> bt_get (cp_by_id P') t = None \<and>
           bt_get (cp_by_id P') t' = Some e' \<longrightarrow> key_of_entry e' < key_of_entry e"
        and res: "case r of Inr _ \<Rightarrow> \<not> over_capacity sz P'
           | Inl err \<Rightarrow> err = PoolFull \<and> cp_by_id P' = [] \<and> over_capacity sz P'"
        by blast
      have room: "make_room sz P = Some (r, P')"
        using over False run(1) x(2) by (subst make_room.simps) (simp add: evict_lowest_fee_def Q_def)
      have sub': "bt_get (cp_by_id P) t = Some e" if "bt_get (cp_by_id P') t = Some e" for t e
      proof -
        have "bt_get (cp_by_id Q) t = Some e" using sub that by blast
        then show ?thesis using Q(3) by (simp split: if_splits)
      qed
      have "key_of_entry e' < key_of_entry e"
        if e: "bt_get (cp_by_id P) t = Some e" "bt_get (cp_by_id P') t = None"
          and e': "bt_get (cp_by_id P') t' = Some e'" for t e t' e'
      proof (cases "t = me_tx_id x")
        case True
        have "bt_get (cp_by_id Q) t' = Some e'" using sub e' by blast
        then have "t' \<noteq> me_tx_id x" "bt_get (cp_by_id P) t' = Some e'" using Q(3) by (auto split: if_splits)
        then have "key_of_entry e' \<le> key_of_entry x" "me_tx_id e' \<noteq> me_tx_id x"
          using low pool_invD(4) [OF less.prems] by blast+
        moreover from this have "key_of_entry e' \<noteq> key_of_entry x" by (metis key_of_entry_id)
        ultimately show ?thesis using True e(1) x(1) by simp
      next
        case False
        then have "bt_get (cp_by_id Q) t = Some e" using e(1) Q(3) by simp
        then show ?thesis using ord e(2) e' by blast
      qed
      then show ?thesis using room run(2,3) Q(2) sub' res by auto
    qed
  qed
qed

lemma check_unspent_Inr [res_simps]:
  "check_unspent P ps = Inr u \<longleftrightarrow> (\<forall>p \<in> set ps. bt_get (cp_spent P) p = None)"
  by (induction ps) (auto split: option.splits)

lemma pool_insert_inv:
  assumes inv: "pool_inv P" and new: "bt_get (cp_by_id P) (me_tx_id e) = None"
    and unspent: "\<forall>p \<in> set (entry_outpoints e). bt_get (cp_spent P) p = None"
    and room: "\<not> over_capacity (me_size e) P"
  shows "pool_inv (pool_insert e P)"
proof -
  note i = pool_invD [OF inv]
  let ?P = "pool_insert e P"
  have by_id: "bt_get (cp_by_id ?P) = (bt_get (cp_by_id P))(me_tx_id e \<mapsto> e)"
    and pr: "bt_get (cp_by_priority ?P) = (bt_get (cp_by_priority P))(key_of_entry e \<mapsto> me_tx_id e)"
    and sp: "bt_get (cp_spent ?P) = (\<lambda>q. if q \<in> set (entry_outpoints e) then Some (me_tx_id e) else bt_get (cp_spent P) q)"
    and bt: "bt_ok (cp_by_id ?P)" "bt_ok (cp_by_priority ?P)" "bt_ok (cp_spent ?P)"
    using i(1-3) fold_bt_insert [OF i(3)] by (simp_all add: pool_insert_def bt_simps)
  have noc: "sat_add (cp_total_bytes P) (me_size e) \<le> max_pool_bytes (cp_config P)"
    using room by (simp add: over_capacity_def not_less)
  have fits: "unat (cp_total_bytes P) + unat (me_size e) < 2 ^ 64"
  proof (rule ccontr)
    assume "\<not> ?thesis"
    then have "sat_add (cp_total_bytes P) (me_size e) = - 1" by (simp add: sat_add_def)
    with noc i(10) show False by (metis word_order.extremum_unique)
  qed
  have tot: "unat (cp_total_bytes ?P) = bt_total (\<lambda>e. unat (me_size e)) (cp_by_id ?P)"
    using fits i(7) new bt_total_insert [OF i(1), of "\<lambda>e. unat (me_size e)" "me_tx_id e" e]
    by (simp add: pool_insert_def sat_add_def unat_add_small)
  have len: "length (cp_by_id ?P) \<le> unat (max_tx_count (cp_config P))"
    using room length_bt_insert [OF new] by (simp add: pool_insert_def over_capacity_def)
  have k: "bt_get (cp_by_priority ?P) k = Some t \<longleftrightarrow> (\<exists>e'. bt_get (cp_by_id ?P) t = Some e' \<and> k = key_of_entry e')" for k t
  proof (cases "k = key_of_entry e")
    case True
    have "key_of_entry e \<noteq> key_of_entry e'" if "bt_get (cp_by_id P) t = Some e'" for e'
      using that new i(4) [of t e'] by (metis key_of_entry_id option.distinct(1))
    with True show ?thesis by (auto simp: pr by_id)
  next
    case False
    then show ?thesis using i(5) [of k t] new by (auto simp: pr by_id)
  qed
  have s: "bt_get (cp_spent ?P) p = Some t \<longleftrightarrow> (\<exists>e'. bt_get (cp_by_id ?P) t = Some e' \<and> p \<in> set (entry_outpoints e'))" for p t
    using i(6) [of p t] unspent new by (auto simp: sp by_id)
  have c: "cp_config ?P = cp_config P" "cp_total_bytes ?P = sat_add (cp_total_bytes P) (me_size e)"
    by (simp_all add: pool_insert_def)
  show ?thesis
    unfolding pool_inv_def using bt tot len k s i(4,10) noc by (auto simp: by_id c)
qed

section \<open>Removal of confirmed transactions and the batch order\<close>

lemma remove_list_fold: "snd (remove_list ts P) = fold (\<lambda>t P. snd (pool_remove t P)) ts P"
proof (induction ts arbitrary: P)
  case (Cons t ts)
  then show ?case
    by (cases "pool_remove t P"; cases "fst (pool_remove t P)") (auto simp: split_beta Let_def)
qed simp

text \<open>Connecting a block removes exactly the pooled transactions it conflicts with.\<close>

lemma remove_confirmed_inv:
  assumes inv: "pool_inv P" and rc: "remove_confirmed spent P = (r, P')"
  shows "pool_inv P' \<and> cp_config P' = cp_config P \<and>
    (\<forall>t e. pool_get P' t = Some e \<longleftrightarrow>
       pool_get P t = Some e \<and> set (entry_outpoints e) \<inter> set spent = {})"
proof -
  define ts where "ts = List.map_filter (bt_get (cp_spent P)) spent"
  have P': "P' = fold (\<lambda>t P. snd (pool_remove t P)) ts P"
    using rc remove_list_fold [of ts P] by (simp add: remove_confirmed_def ts_def)
  have "t \<in> set ts \<longleftrightarrow> set (entry_outpoints e) \<inter> set spent \<noteq> {}" if e: "pool_get P t = Some e" for t e
  proof -
    have "t \<in> set ts \<longleftrightarrow> (\<exists>p \<in> set spent. bt_get (cp_spent P) p = Some t)"
      unfolding ts_def List.map_filter_def by force
    also have "\<dots> \<longleftrightarrow> (\<exists>p \<in> set spent. p \<in> set (entry_outpoints e))"
      using e pool_invD(6) [OF inv] by (auto simp: pool_get_def)
    finally show ?thesis by blast
  qed
  moreover have "pool_get P' t = (if t \<in> set ts then None else pool_get P t)" for t
    using fold_pool_remove [OF inv, of ts] by (simp add: P' pool_get_def)
  ultimately have "pool_get P' t = Some e \<longleftrightarrow>
      pool_get P t = Some e \<and> set (entry_outpoints e) \<inter> set spent = {}" for t e by auto
  then show ?thesis using fold_pool_remove [OF inv, of ts] by (simp add: P')
qed

lemma all_sorted_keys:
  assumes inv: "pool_inv P"
  shows "map key_of_entry (all_sorted P) = map fst (cp_by_priority P)"
proof -
  have d: "distinct (map fst (cp_by_priority P))"
    using pool_invD(2) [OF inv] by (simp add: bt_ok_def strict_sorted_iff)
  have "\<exists>e. bt_get (cp_by_id P) (snd x) = Some e \<and> fst x = key_of_entry e" if "x \<in> set (cp_by_priority P)" for x
    using pool_invD(5) [OF inv, of "fst x" "snd x"] that d by simp
  then have "map key_of_entry (List.map_filter (bt_get (cp_by_id P)) (map snd xs)) = map fst xs"
    if "set xs \<subseteq> set (cp_by_priority P)" for xs
    using that by (induction xs) (fastforce simp: List.map_filter_simps)+
  then show ?thesis by (simp add: all_sorted_def)
qed

lemma map_filter_take_all:
  "\<forall>x \<in> set xs. f x \<noteq> None \<Longrightarrow> List.map_filter f (take n xs) = take n (List.map_filter f xs)"
  by (induction xs arbitrary: n) (auto simp: List.map_filter_simps take_Cons split: nat.splits option.splits)

lemma priority_values:
  assumes inv: "pool_inv P"
  shows "set (map snd (cp_by_priority P)) = dom (bt_get (cp_by_id P)) \<and>
    distinct (map snd (cp_by_priority P))"
proof -
  have d: "distinct (map fst (cp_by_priority P))"
    using pool_invD(2) [OF inv] by (simp add: bt_ok_def strict_sorted_iff)
  have mem: "(k, t) \<in> set (cp_by_priority P) \<longleftrightarrow> (\<exists>e. bt_get (cp_by_id P) t = Some e \<and> k = key_of_entry e)" for k t
    using pool_invD(5) [OF inv, of k t] d by simp
  have "set (map snd (cp_by_priority P)) = dom (bt_get (cp_by_id P))"
  proof (rule set_eqI)
    fix t
    have "t \<in> set (map snd (cp_by_priority P)) \<longleftrightarrow> (\<exists>k. (k, t) \<in> set (cp_by_priority P))" by force
    then show "t \<in> set (map snd (cp_by_priority P)) \<longleftrightarrow> t \<in> dom (bt_get (cp_by_id P))" using mem by blast
  qed
  moreover have "inj_on snd (set (cp_by_priority P))"
    by (rule inj_onI) (metis mem option.inject prod.collapse)
  ultimately show ?thesis using d by (simp add: distinct_map)
qed

lemma priority_length:
  assumes inv: "pool_inv P"
  shows "length (cp_by_priority P) = length (cp_by_id P)"
proof -
  have d: "distinct (map fst (cp_by_id P))"
    using pool_invD(1) [OF inv] by (simp add: bt_ok_def strict_sorted_iff)
  have "length (cp_by_priority P) = card (set (map snd (cp_by_priority P)))"
    using priority_values [OF inv] by (metis distinct_card length_map)
  also have "\<dots> = card (set (map fst (cp_by_id P)))"
    using priority_values [OF inv] by (simp add: dom_map_of_conv_image_fst)
  also have "\<dots> = length (cp_by_id P)" using d by (metis distinct_card length_map)
  finally show ?thesis .
qed

lemma key_less_density: "key_of_entry a < key_of_entry b \<Longrightarrow> me_fee_density b \<le> me_fee_density a"
proof -
  assume "key_of_entry a < key_of_entry b"
  then have "unat (- 1 - me_fee_density a) \<le> unat (- 1 - me_fee_density b)"
    by (auto simp: less_priority_key_def key_of_entry_def word_less_nat_alt)
  moreover have "unat (- 1 - d) = 2 ^ 64 - 1 - unat d" for d :: u64
    by (simp add: unat_sub unat_minus_one)
  ultimately show ?thesis
    using unat_bound [of "me_fee_density a"] unat_bound [of "me_fee_density b"] by (simp add: word_le_nat_alt)
qed

lemma verify_order_sorted: "verify_order ks \<longleftrightarrow> sorted_wrt (<) ks"
  by (induction ks rule: verify_order.induct) (auto intro: less_trans)

text \<open>The three ways \<open>add\<close> ends: refused untouched, emptied and full, or inserted after evictions.\<close>

lemma pool_add_cases:
  assumes inv: "pool_inv P"
  obtains (refused) err where "pool_add now e P = Some (Inl err, P)"
    | (full) P' where "pool_add now e P = Some (Inl PoolFull, P')" and "pool_inv P'" and "cp_config P' = cp_config P"
    | (added) P' where "pool_add now e P = Some (Inr (me_tx_id e), pool_insert e P')"
      and "pool_inv (pool_insert e P')" and "bt_ok (cp_by_id P')" and "cp_config P' = cp_config P"
      and "\<And>t x. bt_get (cp_by_id P') t = Some x \<Longrightarrow> bt_get (cp_by_id P) t = Some x"
      and "\<And>u x t' x'. bt_get (cp_by_id P) u = Some x \<Longrightarrow>
        \<not> me_added_at x < sat_sub now (max_age_secs (cp_config P)) \<Longrightarrow> bt_get (cp_by_id P') u = None \<Longrightarrow>
        bt_get (cp_by_id P') t' = Some x' \<Longrightarrow> key_of_entry x' < key_of_entry x"
proof (cases "bt_has (cp_by_id P) (me_tx_id e) \<or> me_fee e < min_fee (cp_config P) \<or>
    (\<exists>err. check_unspent P (entry_outpoints e) = Inl err)")
  case True
  then have "\<exists>err. pool_add now e P = Some (Inl err, P)" by (auto simp: pool_add_def)
  then show ?thesis using refused by blast
next
  case False
  then have new: "bt_get (cp_by_id P) (me_tx_id e) = None" and fee: "\<not> me_fee e < min_fee (cp_config P)"
    and un: "check_unspent P (entry_outpoints e) = Inr ()"
    by (auto, metis (full_types) old.unit.exhaust sum.exhaust)
  obtain n Q where Q: "evict_expired now P = (n, Q)" by (cases "evict_expired now P")
  note ex = evict_expired_inv [OF inv Q]
  have invQ: "pool_inv Q" using ex by blast
  obtain r P' where mk: "make_room (me_size e) Q = Some (r, P')" "pool_inv P'" "cp_config P' = cp_config Q"
    and sub: "\<And>t x. bt_get (cp_by_id P') t = Some x \<Longrightarrow> bt_get (cp_by_id Q) t = Some x"
    and ord: "\<And>t x t' x'. bt_get (cp_by_id Q) t = Some x \<Longrightarrow> bt_get (cp_by_id P') t = None \<Longrightarrow>
       bt_get (cp_by_id P') t' = Some x' \<Longrightarrow> key_of_entry x' < key_of_entry x"
    and res: "case r of Inr _ \<Rightarrow> \<not> over_capacity (me_size e) P'
       | Inl err \<Rightarrow> err = PoolFull \<and> cp_by_id P' = [] \<and> over_capacity (me_size e) P'"
    using make_room_total [OF invQ, of "me_size e"] by blast
  have subP: "bt_get (cp_by_id P) t = Some x" if "bt_get (cp_by_id P') t = Some x" for t x
    using sub [OF that] ex by blast
  have cfg: "cp_config P' = cp_config P" using mk(3) ex by simp
  show ?thesis
  proof (cases r)
    case (Inl err)
    with res mk cfg new fee un Q show ?thesis by (intro full [of P']) (auto simp: pool_add_def)
  next
    case (Inr u)
    have newP': "bt_get (cp_by_id P') (me_tx_id e) = None" using subP new by (metis not_None_eq)
    have "bt_get (cp_spent P') p = None" if "p \<in> set (entry_outpoints e)" for p
      using that un subP pool_invD(6) [OF mk(2), of p] pool_invD(6) [OF inv, of p]
      by (metis check_unspent_Inr not_None_eq)
    then have ins: "pool_inv (pool_insert e P')" using pool_insert_inv [OF mk(2) newP'] res Inr by simp
    show ?thesis
    proof (rule added [OF _ ins pool_invD(1) [OF mk(2)] cfg subP])
      show "pool_add now e P = Some (Inr (me_tx_id e), pool_insert e P')"
        using new fee un Q mk(1) Inr by (simp add: pool_add_def)
    qed (use ord ex in \<open>auto simp: not_less\<close>)
  qed
qed

section \<open>The properties\<close>


text \<open>
  C12. A block producer gets the best transactions. The sorted view lists every pooled transaction
  exactly once, in strictly ascending key order, so fee densities never increase along it, and
  \<open>get_batch n\<close> is its first \<open>n\<close> entries.
\<close>

theorem batch_is_best_first:
  assumes inv: "pool_inv P"
  shows "(\<forall>e. e \<in> set (all_sorted P) \<longleftrightarrow> pool_get P (me_tx_id e) = Some e) \<and>
    length (all_sorted P) = pool_len P \<and>
    sorted_wrt (\<lambda>a b. key_of_entry a < key_of_entry b \<and> me_fee_density b \<le> me_fee_density a) (all_sorted P) \<and>
    get_batch n P = take n (all_sorted P)"
proof (intro conjI allI)
  note i = pool_invD [OF inv]
  have ids: "set (map snd (cp_by_priority P)) = dom (bt_get (cp_by_id P))" using priority_values [OF inv] by blast
  have "e \<in> set (all_sorted P) \<longleftrightarrow> (\<exists>t \<in> set (map snd (cp_by_priority P)). bt_get (cp_by_id P) t = Some e)" for e
    unfolding all_sorted_def List.map_filter_def by force
  then show "e \<in> set (all_sorted P) \<longleftrightarrow> pool_get P (me_tx_id e) = Some e" for e
    unfolding ids pool_get_def using i(4) by blast
  have keys: "map key_of_entry (all_sorted P) = map fst (cp_by_priority P)" by (rule all_sorted_keys [OF inv])
  then show "length (all_sorted P) = pool_len P"
    using priority_length [OF inv] by (metis length_map pool_len_def)
  have "sorted_wrt (<) (map key_of_entry (all_sorted P))" unfolding keys using i(2) by (simp add: bt_ok_def)
  then have "sorted_wrt (\<lambda>a b. key_of_entry a < key_of_entry b) (all_sorted P)" by (simp add: sorted_wrt_map)
  then show "sorted_wrt (\<lambda>a b. key_of_entry a < key_of_entry b \<and> me_fee_density b \<le> me_fee_density a) (all_sorted P)"
    by (rule sorted_wrt_mono_rel [rotated]) (simp add: key_less_density)
  have "\<forall>t \<in> set (map snd (cp_by_priority P)). bt_get (cp_by_id P) t \<noteq> None" unfolding ids by blast
  then show "get_batch n P = take n (all_sorted P)"
    unfolding get_batch_def all_sorted_def by (rule map_filter_take_all)
qed

text \<open>
  The newcomer is never compared with what it evicts. In a pool for one transaction, any
  unexpired entry, whatever its fee density, gives way to any fresh acceptable transaction, however
  low its density.
\<close>

theorem low_fee_evicts_high_fee:
  assumes "pool_inv P" and "max_tx_count (cp_config P) = 1" and "cp_by_id P = [(t, x)]"
    and "me_tx_id e \<noteq> t" and "min_fee (cp_config P) \<le> me_fee e"
    and "set (entry_outpoints e) \<inter> set (entry_outpoints x) = {}"
    and "me_size e \<le> max_pool_bytes (cp_config P)"
  shows "\<exists>P'. pool_add now e P = Some (Inr (me_tx_id e), P') \<and> cp_by_id P' = [(me_tx_id e, e)]"
proof -
  note i = pool_invD [OF assms(1)]
  obtain n Q where Q: "evict_expired now P = (n, Q)" by (cases "evict_expired now P")
  note ex = evict_expired_inv [OF assms(1) Q]
  obtain r P' where mk: "make_room (me_size e) Q = Some (r, P')" "pool_inv P'" "cp_config P' = cp_config Q"
    and sub: "\<And>t e. bt_get (cp_by_id P') t = Some e \<Longrightarrow> bt_get (cp_by_id Q) t = Some e"
    and res: "case r of Inr _ \<Rightarrow> \<not> over_capacity (me_size e) P'
       | Inl err \<Rightarrow> err = PoolFull \<and> cp_by_id P' = [] \<and> over_capacity (me_size e) P'"
    using make_room_total [of Q "me_size e"] ex by blast
  have cfg: "cp_config P' = cp_config P" using mk(3) ex by simp
  have tot: "cp_total_bytes P' = 0" if "cp_by_id P' = []"
    using that pool_invD(7) [OF mk(2)] by (simp add: bt_total_def bt_sum_def word_unat_eq_iff)
  obtain u where r: "r = Inr u"
  proof (cases r)
    case (Inl err)
    then have e0: "cp_by_id P' = []" and over: "over_capacity (me_size e) P'" using res by simp_all
    have "sat_add 0 (me_size e) = me_size e" using unat_bound [of "me_size e"] by (simp add: sat_add_def)
    then show ?thesis using over tot [OF e0] e0 assms(2,7) cfg by (simp add: over_capacity_def not_less)
  qed simp
  then have room: "length (cp_by_id P') < 1" using res cfg assms(2) by (auto simp: over_capacity_def not_le)
  have "check_unspent P (entry_outpoints e) = Inr ()"
    using i(6) assms(3,6) by (fastforce simp: res_simps split: if_splits)
  then have "pool_add now e P = Some (Inr (me_tx_id e), pool_insert e P')"
    using assms(3,4,5) Q mk(1) r by (simp add: pool_add_def not_less)
  then show ?thesis using room by (simp add: pool_insert_def)
qed

text \<open>
  The canonical order is verifiable. Sorting gives every verifier the same sequence, whatever
  order the keys arrived in; the check accepts exactly the canonical order of distinct keys, and
  in it fee densities never increase.
\<close>

theorem canonical_order_verifiable:
  "(mset ks = mset ks' \<longrightarrow> deterministic_sort ks = deterministic_sort ks') \<and>
   (verify_order ks \<longleftrightarrow> ks = deterministic_sort ks \<and> distinct ks) \<and>
   (verify_order (deterministic_sort ks) \<longleftrightarrow> distinct ks)"
proof -
  have "sort ks = sort ks'" if "mset ks = mset ks'"
    using that by (metis properties_for_sort mset_sort sorted_sort)
  moreover have "verify_order ks \<longleftrightarrow> sorted ks \<and> distinct ks" for ks
    by (auto simp: verify_order_sorted strict_sorted_iff)
  moreover have "ks = sort ks \<longleftrightarrow> sorted ks" by (metis sorted_sort sorted_sort_id)
  ultimately show ?thesis unfolding deterministic_sort_def by (metis distinct_sort sorted_sort)
qed

text \<open>A pool with one transaction, for the examples.\<close>

definition mp_config :: clear_pool_config where
  "mp_config = \<lparr>max_tx_count = 1, max_pool_bytes = 100, min_fee = 0, max_age_secs = 300\<rparr>"

definition mp_rich :: mempool_entry where
  "mp_rich = entry_new 1000 (tx_new [tx_input_new (OutPoint hash_zero 0)] []) (Hash256 [1]) 50 10"

definition mp_poor :: mempool_entry where
  "mp_poor = entry_new 1000 (tx_new [tx_input_new (OutPoint hash_zero 1)] []) (Hash256 [2]) 0 10"

lemmas mp_defs = mp_config_def mp_rich_def mp_poor_def entry_new_def tx_new_def tx_input_new_def
  entry_outpoints_def sat_mul_def

lemma mp_inv: "pool_inv (pool_insert mp_rich (pool_new mp_config))"
proof (rule pool_insert_inv)
  show "pool_inv (pool_new mp_config)" by (rule pool_new_inv) (simp add: mp_config_def)
qed (simp_all add: pool_new_def over_capacity_def sat_add_def mp_defs)


theorem batch_is_best_first_witness:
  "get_batch 1 (pool_insert mp_rich (pool_new mp_config)) =
     take 1 (all_sorted (pool_insert mp_rich (pool_new mp_config))) \<and>
   length (all_sorted (pool_insert mp_rich (pool_new mp_config))) = 1"
  using batch_is_best_first [OF mp_inv, of 1]
  by (simp add: pool_len_def pool_insert_def pool_new_def)

theorem low_fee_evicts_high_fee_witness:
  "me_fee_density mp_poor < me_fee_density mp_rich \<and>
   (\<exists>P'. pool_add 1000 mp_poor (pool_insert mp_rich (pool_new mp_config)) = Some (Inr (me_tx_id mp_poor), P') \<and>
      cp_by_id P' = [(me_tx_id mp_poor, mp_poor)])"
proof
  show "me_fee_density mp_poor < me_fee_density mp_rich" by (simp add: mp_defs word_less_nat_alt unat_div)
  show "\<exists>P'. pool_add 1000 mp_poor (pool_insert mp_rich (pool_new mp_config)) = Some (Inr (me_tx_id mp_poor), P') \<and>
      cp_by_id P' = [(me_tx_id mp_poor, mp_poor)]"
    by (rule low_fee_evicts_high_fee [OF mp_inv, of "me_tx_id mp_rich" mp_rich])
      (simp_all add: pool_insert_def pool_new_def mp_defs)
qed

theorem canonical_order_verifiable_witness:
  "deterministic_sort [order_key 1 5 hash_zero, order_key 2 5 hash_zero] =
   deterministic_sort [order_key 2 5 hash_zero, order_key 1 5 hash_zero]"
  using canonical_order_verifiable [of "[order_key 1 5 hash_zero, order_key 2 5 hash_zero]"
      "[order_key 2 5 hash_zero, order_key 1 5 hash_zero]"] by simp

end
