(* ===== verification/QV_Validation.thy ===== *)
theory QV_Validation
  imports QV_Script QV_Rewards QV_StoreProps QV_Mempool
begin

text \<open>
  \<open>qv-node/src/validation.rs\<close>: validation of a transaction against the store, the economic rules
  of a block (fees, coinbase maturity and the coinbase cap) and insertion into the pool. Error
  values carry the error itself where the code carries its printed form. A panic of the script
  interpreter is \<open>None\<close>.
\<close>

section \<open>Data\<close>

datatype script_reason = ScriptErr script_error | FalsyStack

datatype internal_reason = Reason string | MempoolInsertion mempool_error

datatype tx_validation_error =
    StructureInvalid transaction_error
  | InputNotFound outpoint
  | ScriptFailed nat script_reason
  | InsufficientFee u64 u64
  | PoolDoubleSpend outpoint
  | FeeNegative nat
  | ImmatureCoinbase outpoint u64 u64 u64
  | CoinbaseOverclaim u64 u64
  | StorageFailed storage_error
  | HashError transaction_error
  | Internal internal_reason

record validated_tx =
  vt_tx_id :: txid
  vt_fee :: u64
  vt_resolved_inputs :: "tx_output list"

section \<open>One transaction\<close>

fun resolve_inputs ::
  "'z store_env_scheme \<Rightarrow> kv_store \<Rightarrow> tx_input list \<Rightarrow> (tx_validation_error, tx_output list) result" where
  "resolve_inputs E m [] = Inr []"
| "resolve_inputs E m (i # is) =
     bind_res (map_err StorageFailed (utxo_get E m (prev_output i))) (\<lambda>r.
     bind_res (ok_or r (InputNotFound (prev_output i))) (\<lambda>out.
     bind_res (resolve_inputs E m is) (\<lambda>outs. Inr (out # outs))))"

text \<open>The script loop: the first failing input ends it, and a panic ends everything.\<close>

fun run_scripts ::
  "'z store_env_scheme \<Rightarrow> transaction \<Rightarrow> tx_output list \<Rightarrow> slot \<Rightarrow> nat \<Rightarrow> (tx_input \<times> tx_output) list \<Rightarrow>
     (tx_validation_error, unit) result option" where
  "run_scripts E tx resolved s idx [] = Some (Inr ())"
| "run_scripts E tx resolved s idx (x # xs) =
     (case validate_script E (locking_script (snd x)) (in_witness (fst x)) tx resolved s of
        Inl Panic \<Rightarrow> None
      | Inl (Error e) \<Rightarrow> Some (Inl (ScriptFailed idx (ScriptErr e)))
      | Inr r \<Rightarrow>
          if success r then run_scripts E tx resolved s (Suc idx) xs
          else Some (Inl (ScriptFailed idx FalsyStack)))"

definition tx_preconditions ::
  "'z store_env_scheme \<Rightarrow> transaction \<Rightarrow> kv_store \<Rightarrow> u64 \<Rightarrow> (tx_validation_error, validated_tx) result" where
  "tx_preconditions E tx m min_fee_rate =
     bind_res (map_err StructureInvalid (tx_validate_structure tx)) (\<lambda>_.
     bind_res (resolve_inputs E m (tx_inputs tx)) (\<lambda>resolved.
     bind_res (ok_or (amount_checked_sum (map out_value resolved)) (Internal (Reason ''input value overflow''))) (\<lambda>input_sum.
     bind_res (ok_or (amount_checked_sum (map out_value (tx_outputs tx))) (Internal (Reason ''output value overflow''))) (\<lambda>output_sum.
     bind_res (ok_or (amount_checked_sub input_sum output_sum) (Internal (Reason ''outputs exceed inputs''))) (\<lambda>fee.
     bind_res (fail_if (fee < min_fee_rate) (InsufficientFee min_fee_rate fee)) (\<lambda>_.
     bind_res (map_err HashError (tx_id E tx)) (\<lambda>tid.
       Inr \<lparr>vt_tx_id = tid, vt_fee = fee, vt_resolved_inputs = resolved\<rparr>)))))))"

definition validate_transaction ::
  "'z store_env_scheme \<Rightarrow> transaction \<Rightarrow> kv_store \<Rightarrow> slot \<Rightarrow> u64 \<Rightarrow>
     (tx_validation_error, validated_tx) result option" where
  "validate_transaction E tx m s min_fee_rate =
     (case tx_preconditions E tx m min_fee_rate of
        Inl e \<Rightarrow> Some (Inl e)
      | Inr v \<Rightarrow>
          map_option (\<lambda>r. bind_res r (\<lambda>_. Inr v))
            (run_scripts E tx (vt_resolved_inputs v) s 0 (zip (tx_inputs tx) (vt_resolved_inputs v))))"

section \<open>The economic rules of a block\<close>

definition check_maturity ::
  "'z store_env_scheme \<Rightarrow> kv_store \<Rightarrow> height \<Rightarrow> u64 \<Rightarrow> outpoint \<Rightarrow> (tx_validation_error, unit) result" where
  "check_maturity E m h k p =
     bind_res (map_err StorageFailed (utxo_coinbase_height E m p)) (\<lambda>r.
       case r of
         None \<Rightarrow> Inr ()
       | Some created \<Rightarrow> fail_if (h < sat_add created k) (ImmatureCoinbase p created h k))"

text \<open>The value of an input: an output of this block, or a mature output of the store.\<close>

definition input_value ::
  "'z store_env_scheme \<Rightarrow> kv_store \<Rightarrow> height \<Rightarrow> u64 \<Rightarrow> (outpoint, amount \<times> bool) btree \<Rightarrow> outpoint \<Rightarrow>
     (tx_validation_error, amount) result" where
  "input_value E m h k in_block p =
     (case bt_get in_block p of
        Some (v, from_coinbase) \<Rightarrow> if from_coinbase then Inl (ImmatureCoinbase p h h k) else Inr v
      | None \<Rightarrow>
          bind_res (map_err StorageFailed (utxo_get E m p)) (\<lambda>r.
          bind_res (ok_or r (InputNotFound p)) (\<lambda>resolved.
          bind_res (check_maturity E m h k p) (\<lambda>_. Inr (out_value resolved)))))"

fun sum_inputs ::
  "'z store_env_scheme \<Rightarrow> kv_store \<Rightarrow> height \<Rightarrow> u64 \<Rightarrow> (outpoint, amount \<times> bool) btree \<Rightarrow> tx_input list \<Rightarrow> amount \<Rightarrow>
     (tx_validation_error, amount) result" where
  "sum_inputs E m h k in_block [] acc = Inr acc"
| "sum_inputs E m h k in_block (i # is) acc =
     bind_res (input_value E m h k in_block (prev_output i)) (\<lambda>v.
     bind_res (ok_or (amount_checked_add acc v) (Internal (Reason ''input value overflow''))) (\<lambda>acc.
       sum_inputs E m h k in_block is acc))"

fun record_outputs ::
  "txid \<Rightarrow> bool \<Rightarrow> nat \<Rightarrow> tx_output list \<Rightarrow> (outpoint, amount \<times> bool) btree \<Rightarrow>
     (tx_validation_error, (outpoint, amount \<times> bool) btree) result" where
  "record_outputs tid cb idx [] in_block = Inr in_block"
| "record_outputs tid cb idx (out # outs) in_block =
     (if 2 ^ 32 \<le> idx then Inl (Internal (Reason ''output index overflow''))
      else record_outputs tid cb (Suc idx) outs
             (bt_insert (OutPoint tid (of_nat idx)) (out_value out, cb) in_block))"

record reward_acc =
  ra_in_block :: "(outpoint, amount \<times> bool) btree"
  ra_fees :: amount
  ra_claim :: "amount option"

definition reward_tx ::
  "'z store_env_scheme \<Rightarrow> kv_store \<Rightarrow> height \<Rightarrow> u64 \<Rightarrow> nat \<Rightarrow> transaction \<Rightarrow> reward_acc \<Rightarrow>
     (tx_validation_error, reward_acc) result" where
  "reward_tx E m h k tx_index tx a =
     bind_res (map_err HashError (tx_id E tx)) (\<lambda>tid.
     let cb = (tx_index = 0 \<and> tx_inputs tx = []) in
     bind_res (ok_or (amount_checked_sum (map out_value (tx_outputs tx))) (Internal (Reason ''output value overflow''))) (\<lambda>output_sum.
     bind_res
       (if cb then Inr (a\<lparr>ra_claim := Some output_sum\<rparr>)
        else
          bind_res (sum_inputs E m h k (ra_in_block a) (tx_inputs tx) 0) (\<lambda>input_sum.
          bind_res (ok_or (amount_checked_sub input_sum output_sum) (FeeNegative tx_index)) (\<lambda>fee.
          bind_res (ok_or (amount_checked_add (ra_fees a) fee) (Internal (Reason ''fee sum overflow''))) (\<lambda>fees.
            Inr (a\<lparr>ra_fees := fees\<rparr>))))) (\<lambda>a.
     bind_res (record_outputs tid cb 0 (tx_outputs tx) (ra_in_block a)) (\<lambda>ib.
       Inr (a\<lparr>ra_in_block := ib\<rparr>)))))"

fun reward_loop ::
  "'z store_env_scheme \<Rightarrow> kv_store \<Rightarrow> height \<Rightarrow> u64 \<Rightarrow> nat \<Rightarrow> transaction list \<Rightarrow> reward_acc \<Rightarrow>
     (tx_validation_error, reward_acc) result" where
  "reward_loop E m h k idx [] a = Inr a"
| "reward_loop E m h k idx (tx # txs) a =
     bind_res (reward_tx E m h k idx tx a) (\<lambda>a. reward_loop E m h k (Suc idx) txs a)"

text \<open>\<open>None\<close> is the division by a zero halving interval inside \<open>total_block_reward\<close>.\<close>

definition validate_block_rewards ::
  "'z store_env_scheme \<Rightarrow> block \<Rightarrow> kv_store \<Rightarrow> monetary_params \<Rightarrow> u64 \<Rightarrow>
     (tx_validation_error, amount) result option" where
  "validate_block_rewards E b m mon k =
     (let h = bh_height (blk_header b) in
      if h = 0 then Some (Inr 0)
      else case reward_loop E m h k 0 (blk_txs b) \<lparr>ra_in_block = [], ra_fees = 0, ra_claim = None\<rparr> of
        Inl e \<Rightarrow> Some (Inl e)
      | Inr a \<Rightarrow>
          (case ra_claim a of
             None \<Rightarrow> Some (Inr (ra_fees a))
           | Some claimed \<Rightarrow>
               map_option (\<lambda>max_allowed.
                   if max_allowed < claimed then Inl (CoinbaseOverclaim claimed max_allowed)
                   else Inr (ra_fees a))
                 (total_block_reward h (ra_fees a) mon)))"

fun check_inputs_maturity ::
  "'z store_env_scheme \<Rightarrow> tx_input list \<Rightarrow> kv_store \<Rightarrow> height \<Rightarrow> u64 \<Rightarrow> (tx_validation_error, unit) result" where
  "check_inputs_maturity E [] m h k = Inr ()"
| "check_inputs_maturity E (i # is) m h k =
     bind_res (check_maturity E m h k (prev_output i)) (\<lambda>_. check_inputs_maturity E is m h k)"

definition check_coinbase_maturity ::
  "'z store_env_scheme \<Rightarrow> transaction \<Rightarrow> kv_store \<Rightarrow> height \<Rightarrow> u64 \<Rightarrow> (tx_validation_error, unit) result" where
  "check_coinbase_maturity E tx m candidate_height k = check_inputs_maturity E (tx_inputs tx) m candidate_height k"

definition insert_validated_tx ::
  "'z store_env_scheme \<Rightarrow> u64 \<Rightarrow> clear_pool \<Rightarrow> transaction \<Rightarrow> validated_tx \<Rightarrow>
     ((tx_validation_error, txid) result \<times> clear_pool) option" where
  "insert_validated_tx E now pool tx v =
     (let sz = (case tx_canonical_bytes E tx of Inr b \<Rightarrow> of_nat (length b) | Inl _ \<Rightarrow> 0)
      in map_option (\<lambda>(r, pool'). (bind_res (map_err (\<lambda>e. Internal (MempoolInsertion e)) r) (\<lambda>_. Inr (vt_tx_id v)), pool'))
           (pool_add now (entry_new now tx (vt_tx_id v) (vt_fee v) sz) pool))"

section \<open>The value of a ledger\<close>

definition ledger_total :: "ledger \<Rightarrow> nat" where
  "ledger_total s = (\<Sum>p \<in> dom s. unat (out_value (the (s p))))"

lemma ledger_total_drop:
  assumes "finite (dom s)" and "s p = Some out"
  shows "ledger_total s = unat (out_value out) + ledger_total (s(p := None))"
proof -
  have "dom (s(p := None)) = dom s - {p}" by auto
  moreover have "(\<Sum>q \<in> dom s - {p}. unat (out_value (the ((s(p := None)) q)))) =
      (\<Sum>q \<in> dom s - {p}. unat (out_value (the (s q))))" by (rule sum.cong) auto
  ultimately show ?thesis
    using assms unfolding ledger_total_def by (subst sum.remove [of _ p]) auto
qed

lemma ledger_total_add:
  assumes "finite (dom s)" and "s p = None"
  shows "ledger_total (s(p \<mapsto> out)) = ledger_total s + unat (out_value out)"
proof -
  have "(s(p \<mapsto> out))(p := None) = s" using assms(2) by auto
  then show ?thesis using ledger_total_drop [of "s(p \<mapsto> out)" p out] assms(1) by simp
qed

lemma spend_all_total:
  assumes "spend_all ps s = Some s'" and "finite (dom s)"
  shows "finite (dom s') \<and> s' \<subseteq>\<^sub>m s \<and> (\<forall>p \<in> set ps. s p \<noteq> None) \<and>
    ledger_total s = ledger_total s' + (\<Sum>p\<leftarrow>ps. unat (out_value (the (s p))))"
  using assms
proof (induction ps arbitrary: s)
  case (Cons p ps)
  define t where "t = s(p := None)"
  from Cons.prems(1) obtain out where out: "s p = Some out" and run: "spend_all ps t = Some s'"
    by (auto simp: t_def split: if_splits)
  have tq: "t q = (if q = p then None else s q)" for q by (simp add: t_def)
  have fin: "finite (dom t)" using Cons.prems(2) by (simp add: t_def)
  note IH = Cons.IH [OF run fin]
  have old: "q \<noteq> p \<and> s q \<noteq> None \<and> t q = s q" if "q \<in> set ps" for q
  proof -
    have "t q \<noteq> None" using IH that by blast
    then show ?thesis using tq [of q] by (auto split: if_splits)
  qed
  have "(\<Sum>q\<leftarrow>ps. unat (out_value (the (t q)))) = (\<Sum>q\<leftarrow>ps. unat (out_value (the (s q))))"
    by (intro arg_cong [where f = sum_list] map_cong) (simp_all add: old)
  moreover have "s' \<subseteq>\<^sub>m s"
    unfolding map_le_def
  proof
    fix q assume q: "q \<in> dom s'"
    then have "s' q = t q" using IH by (simp add: map_le_def)
    with q show "s' q = s q" using tq [of q] by (auto split: if_splits)
  qed
  ultimately show ?case using IH out old ledger_total_drop [OF Cons.prems(2) out, folded t_def] by simp
qed simp

lemma create_all_total:
  assumes "create_all es s = Some s'" and "finite (dom s)"
  shows "finite (dom s') \<and> s' = s ++ map_of (rev es) \<and>
    ledger_total s' = ledger_total s + (\<Sum>e\<leftarrow>es. unat (out_value (snd e)))"
  using assms
proof (induction es arbitrary: s)
  case (Cons e es)
  define t where "t = s(fst e \<mapsto> snd e)"
  from Cons.prems(1) have new: "s (fst e) = None" and run: "create_all es t = Some s'"
    by (auto simp: t_def split: if_splits)
  have fin: "finite (dom t)" using Cons.prems(2) by (simp add: t_def)
  note IH = Cons.IH [OF run fin]
  have eq: "t ++ map_of (rev es) = s ++ map_of (rev (e # es))"
    by (cases e) (auto simp: t_def map_add_def fun_eq_iff map_of_append split: option.splits)
  have "ledger_total t = ledger_total s + unat (out_value (snd e))"
    unfolding t_def by (rule ledger_total_add [OF Cons.prems(2) new])
  moreover have fin': "finite (dom s')" and s': "s' = t ++ map_of (rev es)"
    and "ledger_total s' = ledger_total t + (\<Sum>e\<leftarrow>es. unat (out_value (snd e)))" using IH by blast+
  ultimately have "ledger_total s' = ledger_total s + (\<Sum>e\<leftarrow>e # es. unat (out_value (snd e)))" by simp
  then show ?case using fin' trans [OF s' eq] by blast
qed simp

lemma indexed_outputs_values:
  "map snd (indexed_outputs tid idx outs) = outs"
  by (simp add: indexed_outputs_def)

lemma ledger_tx_total:
  assumes "ledger_tx E tx s = Some s'" and "finite (dom s)"
  obtains tid s1 where "tx_id E tx = Inr tid" and "s1 \<subseteq>\<^sub>m s"
    and "s' = s1 ++ map_of (rev (indexed_outputs tid 0 (tx_outputs tx)))" and "finite (dom s')"
    and "\<forall>i \<in> set (tx_inputs tx). s (prev_output i) \<noteq> None"
    and "ledger_total s' + (\<Sum>i\<leftarrow>tx_inputs tx. unat (out_value (the (s (prev_output i))))) =
      ledger_total s + total_of (map out_value (tx_outputs tx))"
proof -
  from assms(1) obtain tid s1 where tid: "tx_id E tx = Inr tid"
    and s1: "spend_all (map prev_output (tx_inputs tx)) s = Some s1"
    and s': "create_all (indexed_outputs tid 0 (tx_outputs tx)) s1 = Some s'"
    by (auto simp: ledger_tx_def bind_eq_Some_conv split: sum.splits)
  note sp = spend_all_total [OF s1 assms(2)]
  note cr = create_all_total [OF s' conjunct1 [OF sp]]
  have "(\<Sum>e\<leftarrow>indexed_outputs tid 0 (tx_outputs tx). unat (out_value (snd e))) =
      total_of (map out_value (tx_outputs tx))"
    using arg_cong [OF indexed_outputs_values [of tid 0 "tx_outputs tx"],
        of "\<lambda>xs. sum_list (map (\<lambda>x. unat (out_value x)) xs)"] by (simp add: o_def)
  with sp cr show ?thesis by (intro that [OF tid]) (auto simp: o_def)
qed

section \<open>The reward loop accounts for the ledger\<close>

text \<open>The lookups of the reward check agree with the ledger the block is being applied to.\<close>

definition tracks ::
  "'z store_env_scheme \<Rightarrow> kv_store \<Rightarrow> (outpoint, amount \<times> bool) btree \<Rightarrow> ledger \<Rightarrow> bool" where
  "tracks E m ib s \<longleftrightarrow> bt_ok ib \<and>
     (\<forall>p out. s p = Some out \<longrightarrow>
        (case bt_get ib p of Some (v, _) \<Rightarrow> v = out_value out | None \<Rightarrow> utxo_view E m p = Some out))"

lemma utxo_get_view: "utxo_get E m p = Inr (Some out) \<Longrightarrow> utxo_view E m p = Some out"
  by (auto simp: utxo_get_def utxo_view_def res_simps split: option.splits)

lemma input_value_tracks:
  assumes tr: "tracks E m ib s" and out: "s p = Some out" and v: "input_value E m h k ib p = Inr v"
  shows "v = out_value out"
proof (cases "bt_get ib p")
  case None
  then have "utxo_view E m p = Some out" using tr out unfolding tracks_def by force
  moreover from None v obtain r where "utxo_get E m p = Inr (Some r)" "v = out_value r"
    by (auto simp: input_value_def res_simps)
  ultimately show ?thesis using utxo_get_view by fastforce
next
  case (Some x)
  then have "fst x = out_value out" using tr out unfolding tracks_def by (cases x) force
  then show ?thesis using Some v by (cases x) (simp add: input_value_def split: if_splits)
qed

lemma sum_inputs_total:
  assumes "sum_inputs E m h k ib ins acc = Inr tot" and "tracks E m ib s"
    and "\<forall>i \<in> set ins. s (prev_output i) \<noteq> None"
  shows "unat tot = unat acc + (\<Sum>i\<leftarrow>ins. unat (out_value (the (s (prev_output i)))))"
  using assms
proof (induction ins arbitrary: acc)
  case (Cons i ins)
  from Cons.prems(1) obtain v acc' where v: "input_value E m h k ib (prev_output i) = Inr v"
    and a: "unat acc' = unat acc + unat v" and run: "sum_inputs E m h k ib ins acc' = Inr tot"
    by (auto simp: res_simps int_simps)
  from Cons.prems(3) obtain out where "s (prev_output i) = Some out" by auto
  with input_value_tracks [OF Cons.prems(2) _ v] have "v = out_value (the (s (prev_output i)))" by simp
  with Cons.IH [OF run Cons.prems(2)] Cons.prems(3) a show ?case by simp
qed simp

lemma record_outputs_get:
  assumes "record_outputs tid cb idx outs ib = Inr ib'" and "bt_ok ib"
  shows "bt_ok ib' \<and> bt_get ib' = bt_get ib ++
    (\<lambda>p. map_option (\<lambda>out. (out_value out, cb)) (map_of (rev (indexed_outputs tid idx outs)) p))"
  using assms
proof (induction outs arbitrary: idx ib)
  case Nil
  then show ?case by (simp add: indexed_outputs_def fun_eq_iff map_add_def)
next
  case (Cons out outs)
  let ?p = "OutPoint tid (of_nat idx)"
  let ?ib = "bt_insert ?p (out_value out, cb) ib"
  from Cons.prems have run: "record_outputs tid cb (Suc idx) outs ?ib = Inr ib'" and ok: "bt_ok ?ib"
    by (auto simp: bt_simps split: if_splits)
  from Cons.IH [OF run ok] Cons.prems(2) show ?case
    by (auto simp: bt_simps indexed_outputs_Cons fun_eq_iff map_add_def map_of_append split: option.splits)
qed

lemma tracks_outputs:
  assumes "tracks E m ib s" and "s1 \<subseteq>\<^sub>m s" and "record_outputs tid cb 0 outs ib = Inr ib'"
  shows "tracks E m ib' (s1 ++ map_of (rev (indexed_outputs tid 0 outs)))"
proof -
  have ok: "bt_ok ib" using assms(1) by (simp add: tracks_def)
  note r = record_outputs_get [OF assms(3) ok]
  have s1: "s p = Some out" if "s1 p = Some out" for p out
    using assms(2) that by (metis map_le_def domI)
  show ?thesis
    unfolding tracks_def using r assms(1) s1
    by (auto simp: tracks_def map_add_def split: option.splits)
qed

definition claim_value :: "reward_acc \<Rightarrow> nat" where
  "claim_value a = (case ra_claim a of None \<Rightarrow> 0 | Some v \<Rightarrow> unat v)"

lemma reward_tx_cases:
  assumes "reward_tx E m h k idx tx a = Inr a'"
  obtains (coinbase) tid where "tx_id E tx = Inr tid" and "idx = 0" and "tx_inputs tx = []"
      and "record_outputs tid True 0 (tx_outputs tx) (ra_in_block a) = Inr (ra_in_block a')"
      and "ra_fees a' = ra_fees a" and "claim_value a' = total_of (map out_value (tx_outputs tx))"
    | (spend) tid isum where "tx_id E tx = Inr tid" and "\<not> (idx = 0 \<and> tx_inputs tx = [])"
      and "record_outputs tid False 0 (tx_outputs tx) (ra_in_block a) = Inr (ra_in_block a')"
      and "sum_inputs E m h k (ra_in_block a) (tx_inputs tx) 0 = Inr isum"
      and "unat isum + unat (ra_fees a) = unat (ra_fees a') + total_of (map out_value (tx_outputs tx))"
      and "ra_claim a' = ra_claim a"
proof (cases "idx = 0 \<and> tx_inputs tx = []")
  case True
  then show ?thesis
    using assms coinbase by (auto simp: reward_tx_def Let_def res_simps int_simps claim_value_def)
next
  case False
  then show ?thesis
    using assms spend by (auto simp: reward_tx_def Let_def res_simps int_simps)
qed

lemma reward_tx_accounts:
  assumes rt: "reward_tx E m h k idx tx a = Inr a'" and lt: "ledger_tx E tx s = Some s'"
    and tr: "tracks E m (ra_in_block a) s" and fin: "finite (dom s)"
    and first: "idx = 0 \<Longrightarrow> ra_claim a = None"
  shows "tracks E m (ra_in_block a') s' \<and> finite (dom s') \<and>
    ledger_total s' + unat (ra_fees a') + claim_value a = ledger_total s + unat (ra_fees a) + claim_value a'"
proof -
  obtain tid s1 where tid: "tx_id E tx = Inr tid" and s1: "s1 \<subseteq>\<^sub>m s"
    and s': "s' = s1 ++ map_of (rev (indexed_outputs tid 0 (tx_outputs tx)))" "finite (dom s')"
    and ins: "\<forall>i \<in> set (tx_inputs tx). s (prev_output i) \<noteq> None"
    and tot: "ledger_total s' + (\<Sum>i\<leftarrow>tx_inputs tx. unat (out_value (the (s (prev_output i))))) =
      ledger_total s + total_of (map out_value (tx_outputs tx))"
    using ledger_tx_total [OF lt fin] by blast
  from rt show ?thesis
  proof (cases rule: reward_tx_cases)
    case (coinbase tid')
    have "tracks E m (ra_in_block a') s'"
      unfolding s' using tracks_outputs [OF tr s1 coinbase(4)] coinbase(1) tid by simp
    then show ?thesis using coinbase tot first s'(2) by (simp add: claim_value_def)
  next
    case (spend tid' isum)
    have "tracks E m (ra_in_block a') s'"
      unfolding s' using tracks_outputs [OF tr s1 spend(3)] spend(1) tid by simp
    moreover have "unat isum = (\<Sum>i\<leftarrow>tx_inputs tx. unat (out_value (the (s (prev_output i)))))"
      using sum_inputs_total [OF spend(4) tr ins] by simp
    ultimately show ?thesis using spend(5,6) tot s'(2) by (simp add: claim_value_def)
  qed
qed

lemma reward_tx_claim: "reward_tx E m h k idx tx a = Inr a' \<Longrightarrow> idx \<noteq> 0 \<Longrightarrow> ra_claim a' = ra_claim a"
  by (erule reward_tx_cases) simp_all

lemma reward_loop_accounts:
  assumes "reward_loop E m h k idx txs a = Inr a'" and "ledger_txs E txs s = Some s'"
    and "tracks E m (ra_in_block a) s" and "finite (dom s)" and "idx = 0 \<Longrightarrow> ra_claim a = None"
  shows "ledger_total s' + unat (ra_fees a') + claim_value a = ledger_total s + unat (ra_fees a) + claim_value a'"
  using assms
proof (induction txs arbitrary: idx a s)
  case (Cons tx txs)
  from Cons.prems(1) obtain a1 where a1: "reward_tx E m h k idx tx a = Inr a1"
    "reward_loop E m h k (Suc idx) txs a1 = Inr a'" by (auto simp: res_simps)
  from Cons.prems(2) obtain s1 where s1: "ledger_tx E tx s = Some s1" "ledger_txs E txs s1 = Some s'"
    by (auto simp: bind_eq_Some_conv)
  note step = reward_tx_accounts [OF a1(1) s1(1) Cons.prems(3-5)]
  have "ledger_total s' + unat (ra_fees a') + claim_value a1 = ledger_total s1 + unat (ra_fees a1) + claim_value a'"
    using Cons.IH [OF a1(2) s1(2)] step by simp
  with step show ?case by linarith
qed simp

section \<open>The value rules of a connected block\<close>

lemma finite_utxo_view: "finite (dom (utxo_view E m))"
proof (rule finite_imageD)
  have "key_outpoint ` dom (utxo_view E m) \<subseteq> dom (kv_get m)"
    by (auto simp: utxo_view_def split: option.splits)
  moreover have "finite (dom (kv_get m))" by (simp add: kv_get_fun finite_dom_map_of)
  ultimately show "finite (key_outpoint ` dom (utxo_view E m))" by (rule finite_subset)
  show "inj_on key_outpoint (dom (utxo_view E m))" by (simp add: inj_on_def key_simps)
qed

lemma tracks_start: "tracks E m [] (utxo_view E m)"
  by (simp add: tracks_def bt_ok_def)

text \<open>What a block that passes the economic rules does to the value of the ledger.\<close>

lemma rewards_account:
  assumes "bincode_ok E" and "bt_ok m" and "bh_height (blk_header b) \<noteq> 0"
    and "validate_block_rewards E b m mon k = Some (Inr fees)" and "apply_block E b m = Inr m'"
  obtains claim where
    "ledger_total (utxo_view E m') + unat fees = ledger_total (utxo_view E m) + claim"
    and "claim = 0 \<or> (\<exists>reward. total_block_reward (bh_height (blk_header b)) fees mon = Some reward \<and> claim \<le> unat reward)"
proof -
  let ?a = "\<lparr>ra_in_block = [], ra_fees = 0, ra_claim = None\<rparr>"
  from assms(3,4) obtain a where
    a: "reward_loop E m (bh_height (blk_header b)) k 0 (blk_txs b) ?a = Inr a" "ra_fees a = fees"
    and c: "ra_claim a = None \<or> (\<exists>c r. ra_claim a = Some c \<and>
      total_block_reward (bh_height (blk_header b)) fees mon = Some r \<and> c \<le> r)"
    by (auto simp: validate_block_rewards_def Let_def split: sum.splits option.splits if_splits)
  have "ledger_total (utxo_view E m') + unat fees = ledger_total (utxo_view E m) + claim_value a"
    using reward_loop_accounts [OF a(1) apply_block_view [OF assms(1,2,5)], unfolded reward_acc.simps, OF tracks_start finite_utxo_view]
      a(2) by (simp add: claim_value_def)
  then show ?thesis by (rule that) (use c in \<open>auto simp: claim_value_def word_le_nat_alt\<close>)
qed

text \<open>The value of a ledger grows by at most the capped subsidy.\<close>

lemma rewards_bound:
  assumes "bincode_ok E" and "bt_ok m" and "bh_height (blk_header b) \<noteq> 0"
    and "validate_block_rewards E b m mon k = Some (Inr fees)" and "apply_block E b m = Inr m'"
    and "capped_subsidy (bh_height (blk_header b)) mon = Some s"
  shows "ledger_total (utxo_view E m') \<le> ledger_total (utxo_view E m) + unat s"
proof (rule rewards_account [OF assms(1-5)])
  fix claim
  assume acc: "ledger_total (utxo_view E m') + unat fees = ledger_total (utxo_view E m) + claim"
    and c: "claim = 0 \<or> (\<exists>r. total_block_reward (bh_height (blk_header b)) fees mon = Some r \<and> claim \<le> unat r)"
  have "unat (sat_add s fees) \<le> unat s + unat fees" by (simp add: int_simps)
  then have "claim \<le> unat s + unat fees" using c assms(6) by (auto simp: total_block_reward_def)
  with acc show ?thesis by linarith
qed

text \<open>No input of an accepted block is an immature coinbase output.\<close>

lemma input_value_mature:
  assumes "input_value E m h k ib p = Inr v" and "bt_get ib p = None" and "utxo_coinbase_height E m p = Inr (Some c)"
  shows "sat_add c k \<le> h"
  using assms by (auto simp: input_value_def check_maturity_def res_simps split: if_splits)

lemma sum_inputs_values:
  "sum_inputs E m h k ib ins acc = Inr t \<Longrightarrow> i \<in> set ins \<Longrightarrow> \<exists>v. input_value E m h k ib (prev_output i) = Inr v"
  by (induction ins arbitrary: acc) (auto simp: res_simps)

lemma record_outputs_outpoints:
  "record_outputs tid cb idx outs ib = Inr ib' \<Longrightarrow>
     index_outpoints tid idx outs = Inr (map fst (indexed_outputs tid idx outs))"
proof (induction outs arbitrary: idx ib)
  case Nil
  then show ?case by (simp add: indexed_outputs_def)
next
  case (Cons out outs)
  then show ?case by (auto simp: indexed_outputs_Cons split: if_splits)
qed

lemma record_outputs_dom:
  assumes "record_outputs tid cb 0 (tx_outputs tx) ib = Inr ib'" and "tx_id E tx = Inr tid" and "bt_ok ib"
  shows "bt_ok ib' \<and> dom (bt_get ib') \<subseteq> dom (bt_get ib) \<union> made E [tx]"
proof -
  have m: "made E [tx] = fst ` set (indexed_outputs tid 0 (tx_outputs tx))"
    using record_outputs_outpoints [OF assms(1)] assms(2) by (simp add: tx_outpoints_def)
  note r = record_outputs_get [OF assms(1,3)]
  show ?thesis
  proof (intro conjI subsetI)
    show "bt_ok ib'" using r by blast
    fix p assume "p \<in> dom (bt_get ib')"
    then have "p \<in> dom (bt_get ib) \<or> map_of (rev (indexed_outputs tid 0 (tx_outputs tx))) p \<noteq> None"
      using r by (auto simp: map_add_def split: option.splits)
    then show "p \<in> dom (bt_get ib) \<union> made E [tx]" unfolding m by (force dest: map_of_SomeD)
  qed
qed

text \<open>Every transaction of an accepted block had its inputs priced against this block and the store.\<close>

lemma reward_tx_prices:
  assumes "reward_tx E m h k idx tx a = Inr a'" and "bt_ok (ra_in_block a)"
  shows "bt_ok (ra_in_block a') \<and> dom (bt_get (ra_in_block a')) \<subseteq> dom (bt_get (ra_in_block a)) \<union> made E [tx] \<and>
    (\<exists>t. sum_inputs E m h k (ra_in_block a) (tx_inputs tx) 0 = Inr t)"
  using assms(1)
proof (cases rule: reward_tx_cases)
  case (coinbase tid)
  then show ?thesis using record_outputs_dom [OF coinbase(4,1) assms(2)] by simp
next
  case (spend tid isum)
  then show ?thesis using record_outputs_dom [OF spend(3,1) assms(2)] by blast
qed

lemma reward_loop_prices:
  assumes "reward_loop E m h k idx txs a = Inr a'" and "tx \<in> set txs" and "bt_ok (ra_in_block a)"
  shows "\<exists>ib t. dom (bt_get ib) \<subseteq> dom (bt_get (ra_in_block a)) \<union> made E txs \<and>
    sum_inputs E m h k ib (tx_inputs tx) 0 = Inr t"
  using assms
proof (induction txs arbitrary: idx a)
  case (Cons x xs)
  from Cons.prems(1) obtain a1 where a1: "reward_tx E m h k idx x a = Inr a1"
    "reward_loop E m h k (Suc idx) xs a1 = Inr a'" by (auto simp: res_simps)
  note p = reward_tx_prices [OF a1(1) Cons.prems(3)]
  show ?case
  proof (cases "tx = x")
    case True
    then show ?thesis using p by blast
  next
    case False
    with Cons.prems(2) have "tx \<in> set xs" by simp
    from Cons.IH [OF a1(2) this] p obtain ib t where
      ib: "dom (bt_get ib) \<subseteq> dom (bt_get (ra_in_block a1)) \<union> made E xs"
        "sum_inputs E m h k ib (tx_inputs tx) 0 = Inr t" by blast
    have "dom (bt_get ib) \<subseteq> dom (bt_get (ra_in_block a)) \<union> made E (x # xs)"
      using ib(1) p by (auto split: sum.splits)
    with ib(2) show ?thesis by blast
  qed
qed simp

lemma apply_block_fresh:
  assumes "apply_block E b m = Inr m'" and "p \<in> made E (blk_txs b)"
  shows "kv_get m (key_outpoint p) = None"
proof -
  from assms(1) obtain ops where "apply_ops E b m = Inr ops" by (auto simp: apply_block_def res_simps)
  from apply_opsE [OF this] obtain st cbs where
    "stage_txs E m (bh_height (blk_header b)) 0 (blk_txs b)
       \<lparr>st_spent = [], st_consumed = {}, st_new = []\<rparr> [] = Inr (st, cbs)" by metis
  from stage_txs_refines [OF this stage_start(1)] assms(2) show ?thesis by blast
qed

section \<open>Transaction validation, exactly\<close>

lemma resolve_inputs_Inr:
  "resolve_inputs E m ins = Inr outs \<longleftrightarrow>
     list_all2 (\<lambda>i out. utxo_get E m (prev_output i) = Inr (Some out)) ins outs"
proof (induction ins arbitrary: outs)
  case (Cons i ins)
  then show ?case by (cases outs) (auto simp: res_simps)
qed (auto simp: res_simps)

lemma run_scripts_Inr:
  "run_scripts E tx res s idx xs = Some (Inr ()) \<longleftrightarrow>
     list_all (\<lambda>(i, out). \<exists>r. validate_script E (locking_script out) (in_witness i) tx res s = Inr r \<and> success r) xs"
  by (induction xs arbitrary: idx) (auto split: sum.splits vm_fault.splits)

lemma tx_preconditions_Inr:
  "tx_preconditions E tx m r = Inr v \<longleftrightarrow>
     tx_validate_structure tx = Inr () \<and>
     list_all2 (\<lambda>i out. utxo_get E m (prev_output i) = Inr (Some out)) (tx_inputs tx) (vt_resolved_inputs v) \<and>
     total_of (map out_value (vt_resolved_inputs v)) < 2 ^ 64 \<and>
     total_of (map out_value (vt_resolved_inputs v)) = total_of (map out_value (tx_outputs tx)) + unat (vt_fee v) \<and>
     r \<le> vt_fee v \<and> tx_id E tx = Inr (vt_tx_id v)"
  (is "?L \<longleftrightarrow> ?R")
proof
  assume ?L
  then obtain i w where "tx_validate_structure tx = Inr ()"
      "resolve_inputs E m (tx_inputs tx) = Inr (vt_resolved_inputs v)"
      "unat i = total_of (map out_value (vt_resolved_inputs v))" "unat w = total_of (map out_value (tx_outputs tx))"
      "amount_checked_sub i w = Some (vt_fee v)" "r \<le> vt_fee v" "tx_id E tx = Inr (vt_tx_id v)"
    by (auto simp: tx_preconditions_def res_simps amount_checked_sum_Some)
  then show ?R using unat_bound [of i] by (simp add: resolve_inputs_Inr int_simps)
next
  assume R: ?R
  have ex: "\<exists>i :: u64. unat i = n" if "n < 2 ^ 64" for n
    by (rule exI [of _ "of_nat n"], rule unat_of_nat_small) (use that in simp)
  obtain i w :: u64 where i: "unat i = total_of (map out_value (vt_resolved_inputs v))"
    and w: "unat w = total_of (map out_value (tx_outputs tx))"
    using R ex by (metis add_lessD1)
  have sums: "amount_checked_sum (map out_value (vt_resolved_inputs v)) = Some i"
    "amount_checked_sum (map out_value (tx_outputs tx)) = Some w" "amount_checked_sub i w = Some (vt_fee v)"
    using R i w by (simp_all add: int_simps)
  have "resolve_inputs E m (tx_inputs tx) = Inr (vt_resolved_inputs v)" "\<not> vt_fee v < r"
    using R by (simp_all add: resolve_inputs_Inr not_less)
  with R sums show ?L
    by (simp add: tx_preconditions_def fail_if_def)
qed

text \<open>
  C9. Transaction validation accepts exactly when it should. The result names the id, the fee and the
  resolved inputs: the structure is valid, every input resolves in the store, the inputs fit in 64
  bits and exceed the outputs by the fee, the fee reaches the minimum, and every input's script
  ends with a true top of stack.
\<close>

theorem validate_transaction_iff:
  "validate_transaction E tx m s r = Some (Inr v) \<longleftrightarrow>
     tx_validate_structure tx = Inr () \<and>
     list_all2 (\<lambda>i out. utxo_get E m (prev_output i) = Inr (Some out)) (tx_inputs tx) (vt_resolved_inputs v) \<and>
     total_of (map out_value (vt_resolved_inputs v)) < 2 ^ 64 \<and>
     total_of (map out_value (vt_resolved_inputs v)) = total_of (map out_value (tx_outputs tx)) + unat (vt_fee v) \<and>
     r \<le> vt_fee v \<and> tx_id E tx = Inr (vt_tx_id v) \<and>
     list_all (\<lambda>(i, out). \<exists>res. validate_script E (locking_script out) (in_witness i) tx (vt_resolved_inputs v) s = Inr res \<and>
       success res) (zip (tx_inputs tx) (vt_resolved_inputs v))"
proof -
  have "validate_transaction E tx m s r = Some (Inr v) \<longleftrightarrow> tx_preconditions E tx m r = Inr v \<and>
      run_scripts E tx (vt_resolved_inputs v) s 0 (zip (tx_inputs tx) (vt_resolved_inputs v)) = Some (Inr ())"
    by (auto simp: validate_transaction_def res_simps split: sum.splits)
  then show ?thesis unfolding tx_preconditions_Inr run_scripts_Inr by blast
qed


lemma demo_rewards_from:
  assumes "utxo_get (demo_store_env z) m (OutPoint hash_zero 0) = Inr (Some (tx_output_new 9 [2]))"
    and "check_maturity (demo_store_env z) m 5 k (OutPoint hash_zero 0) = Inr ()"
  shows "validate_block_rewards (demo_store_env z) demo_block m mon k = Some (Inr 2)"
proof -
  have "amount_checked_add 0 9 = Some (9 :: u64)" "amount_checked_sub 9 7 = Some (2 :: u64)"
    "amount_checked_add 0 2 = Some (2 :: u64)" "amount_checked_sum [7] = Some (7 :: u64)"
    by (simp_all add: int_simps)
  then have "reward_tx (demo_store_env z) m 5 k 0 demo_tx \<lparr>ra_in_block = [], ra_fees = 0, ra_claim = None\<rparr> =
    Inr \<lparr>ra_in_block = [(OutPoint demo_id 0, (7, False))], ra_fees = 2, ra_claim = None\<rparr>"
    using assms by (simp add: reward_tx_def demo_store_tx_id demo_tx_parts input_value_def tx_output_new_def)
  then show ?thesis by (simp add: validate_block_rewards_def demo_block_def)
qed

lemma demo_stored_output:
  "kv_get m (key_outpoint p) = Some [9, 0, 0, 0, 0, 0, 0, 0, 2] \<Longrightarrow>
     utxo_get (demo_store_env z) m p = Inr (Some (tx_output_new 9 [2]))"
  by (simp add: utxo_get_def decode_with_def demo_store_env_def demo_env_def)

lemma demo_rewards: "validate_block_rewards (demo_store_env z) demo_block demo_store mon k = Some (Inr 2)"
  by (rule demo_rewards_from, rule demo_stored_output)
    (simp_all add: check_maturity_def utxo_coinbase_height_def demo_store_def kv_get_def key_simps)


text \<open>
  C10. Coinbase maturity is enforced. In a block above genesis that passes the economic rules, every
  input taken from the store that a coinbase created at height \<open>c\<close> is at least \<open>k\<close> blocks deep.
\<close>

theorem coinbase_maturity_enforced:
  assumes "validate_block_rewards E b m mon k = Some (Inr fees)" and "bh_height (blk_header b) \<noteq> 0"
    and "tx \<in> set (blk_txs b)" and "i \<in> set (tx_inputs tx)" and "prev_output i \<notin> made E (blk_txs b)"
    and "utxo_coinbase_height E m (prev_output i) = Inr (Some c)"
  shows "sat_add c k \<le> bh_height (blk_header b)"
proof -
  let ?a = "\<lparr>ra_in_block = [], ra_fees = 0, ra_claim = None\<rparr>"
  from assms(1,2) obtain a where
    a: "reward_loop E m (bh_height (blk_header b)) k 0 (blk_txs b) ?a = Inr a"
    by (auto simp: validate_block_rewards_def Let_def split: sum.splits option.splits if_splits)
  from reward_loop_prices [OF a assms(3)] obtain ib t where ib: "dom (bt_get ib) \<subseteq> made E (blk_txs b)"
    and t: "sum_inputs E m (bh_height (blk_header b)) k ib (tx_inputs tx) 0 = Inr t"
    by (auto simp: bt_ok_def)
  from sum_inputs_values [OF t assms(4)] obtain v where
    "input_value E m (bh_height (blk_header b)) k ib (prev_output i) = Inr v" by blast
  moreover have "bt_get ib (prev_output i) = None" using ib assms(5) by blast
  ultimately show ?thesis using assms(6) by (rule input_value_mature)
qed

definition demo_cb_store :: kv_store where
  "demo_cb_store = [(key_coinbase_height (OutPoint hash_zero 0), [1, 0, 0, 0, 0, 0, 0, 0]),
     (key_outpoint (OutPoint hash_zero 0), [9, 0, 0, 0, 0, 0, 0, 0, 2])]"

theorem coinbase_maturity_enforced_witness:
  "validate_block_rewards (demo_store_env ()) demo_block demo_cb_store monetary_mainnet 3 = Some (Inr 2) \<and>
   utxo_coinbase_height (demo_store_env ()) demo_cb_store (OutPoint hash_zero 0) = Inr (Some 1) \<and>
   sat_add 1 3 \<le> bh_height (blk_header demo_block)"
proof -
  have c: "utxo_coinbase_height (demo_store_env ()) demo_cb_store (OutPoint hash_zero 0) = Inr (Some 1)"
    by (simp add: utxo_coinbase_height_def demo_cb_store_def kv_get_def decode_with_def demo_store_env_def)
  have v: "validate_block_rewards (demo_store_env ()) demo_block demo_cb_store monetary_mainnet 3 = Some (Inr 2)"
    by (rule demo_rewards_from, rule demo_stored_output)
      (use c in \<open>simp_all add: check_maturity_def demo_cb_store_def kv_get_def key_simps sat_add_def fail_if_def\<close>)
  have n: "prev_output (tx_input_new (OutPoint hash_zero 0)) \<notin> made (demo_store_env ()) (blk_txs demo_block)"
    using demo_ids_differ by (simp add: demo_block_def tx_outpoints_def demo_store_tx_id demo_tx_parts)
  have "sat_add 1 3 \<le> bh_height (blk_header demo_block)"
    by (rule coinbase_maturity_enforced [OF v, of demo_tx "tx_input_new (OutPoint hash_zero 0)"])
      (use n c in \<open>simp_all add: demo_block_def demo_tx_parts\<close>)
  with c v show ?thesis by blast
qed

end
