(* ===== verification/QV_BlockStore.thy ===== *)
theory QV_BlockStore
  imports QV_StoreProps QV_Chain QV_Stake
begin

text \<open>
  \<open>qv-storage/src/block_store.rs\<close> and \<open>state_store.rs\<close>: blocks indexed by hash and height, and the
  persisted consensus state, over the same key-value backend as the UTXO store. The \<open>bincode\<close>
  encoders of the stored types are fields of \<open>chain_env\<close>.
\<close>

section \<open>Data\<close>

record ledger_state =
  ls_pools :: "stake_pool list"
  ls_delegations :: "delegation list"
  ls_reward_balances :: "(hash256, amount) btree"

record epoch_snapshot =
  es_epoch :: epoch
  es_stake_distribution :: stake_distribution
  es_tip_hash :: block_hash

record chain_env = store_env +
  ser_block :: "block \<Rightarrow> (string, bytes) result"
  de_block :: "bytes \<Rightarrow> (string, block) result"
  ser_entry :: "chain_entry \<Rightarrow> (string, bytes) result"
  de_entry :: "bytes \<Rightarrow> (string, chain_entry) result"
  ser_ledger :: "ledger_state \<Rightarrow> (string, bytes) result"
  de_ledger :: "bytes \<Rightarrow> (string, ledger_state) result"
  ser_epoch :: "epoch_snapshot \<Rightarrow> (string, bytes) result"
  de_epoch :: "bytes \<Rightarrow> (string, epoch_snapshot) result"

definition BLOCK_BY_HASH_PREFIX :: bytes where
  "BLOCK_BY_HASH_PREFIX = ascii ''block:by_hash:''"

definition BLOCK_HASH_BY_HEIGHT_PREFIX :: bytes where
  "BLOCK_HASH_BY_HEIGHT_PREFIX = ascii ''block:height:''"

definition be_bytes8 :: "u64 \<Rightarrow> bytes" where
  "be_bytes8 n = rev (le_bytes 8 (unat n))"

definition key_block :: "block_hash \<Rightarrow> bytes" where
  "key_block h = BLOCK_BY_HASH_PREFIX @ hbytes h"

definition key_height :: "height \<Rightarrow> bytes" where
  "key_height h = BLOCK_HASH_BY_HEIGHT_PREFIX @ be_bytes8 h"

definition decode_block_hash :: "bytes \<Rightarrow> (storage_error, block_hash) result" where
  "decode_block_hash bs =
     (if length bs \<noteq> 32 then Inl (Corrupted ''invalid block hash length'') else Inr (Hash256 bs))"

section \<open>The block store\<close>

definition get_block :: "'z chain_env_scheme \<Rightarrow> kv_store \<Rightarrow> block_hash \<Rightarrow> (storage_error, block option) result" where
  "get_block E m h =
     (case kv_get m (key_block h) of
        None \<Rightarrow> Inr None
      | Some bs \<Rightarrow> bind_res (decode_with (de_block E) bs) (\<lambda>b. Inr (Some b)))"

definition get_hash_by_height :: "kv_store \<Rightarrow> height \<Rightarrow> (storage_error, block_hash option) result" where
  "get_hash_by_height m h =
     (case kv_get m (key_height h) of
        None \<Rightarrow> Inr None
      | Some bs \<Rightarrow> bind_res (decode_block_hash bs) (\<lambda>x. Inr (Some x)))"

definition get_block_by_height ::
  "'z chain_env_scheme \<Rightarrow> kv_store \<Rightarrow> height \<Rightarrow> (storage_error, block option) result" where
  "get_block_by_height E m h =
     bind_res (get_hash_by_height m h) (\<lambda>r.
       case r of None \<Rightarrow> Inr None | Some x \<Rightarrow> get_block E m x)"

definition get_header_by_height ::
  "'z chain_env_scheme \<Rightarrow> kv_store \<Rightarrow> height \<Rightarrow> (storage_error, block_header option) result" where
  "get_header_by_height E m h = bind_res (get_block_by_height E m h) (\<lambda>r. Inr (map_option blk_header r))"

definition put_block ::
  "'z chain_env_scheme \<Rightarrow> block \<Rightarrow> kv_store \<Rightarrow> (storage_error, block_hash \<times> kv_store) result" where
  "put_block E b m =
     bind_res (map_err BlockErr (block_validate_structure E b)) (\<lambda>_.
     bind_res (map_err BlockErr (block_hash_of E b)) (\<lambda>h.
     bind_res (get_block E m h) (\<lambda>old.
       if old \<noteq> None then Inl (AlreadyExists ''block hash'')
       else bind_res (get_hash_by_height m (bh_height (blk_header b))) (\<lambda>existing.
         case existing of
           Some x \<Rightarrow> if x = h then Inr (h, m) else Inl (AlreadyExists ''block height index'')
         | None \<Rightarrow>
             bind_res (encode_with (ser_block E) b) (\<lambda>bs.
               Inr (h, kv_write_batch [BPut (key_block h) bs, BPut (key_height (bh_height (blk_header b))) (hbytes h)] m))))))"

section \<open>The state store\<close>

definition CHAIN_ENTRY_PREFIX :: bytes where
  "CHAIN_ENTRY_PREFIX = ascii ''state:chain_entry:''"

definition CHAIN_TIP_KEY :: bytes where
  "CHAIN_TIP_KEY = ascii ''state:chain_tip''"

definition LEDGER_STATE_KEY :: bytes where
  "LEDGER_STATE_KEY = ascii ''state:ledger''"

definition EPOCH_SNAPSHOT_PREFIX :: bytes where
  "EPOCH_SNAPSHOT_PREFIX = ascii ''state:epoch_snapshot:''"

definition key_chain_entry :: "block_hash \<Rightarrow> bytes" where
  "key_chain_entry h = CHAIN_ENTRY_PREFIX @ hbytes h"

definition key_epoch_snapshot :: "epoch \<Rightarrow> bytes" where
  "key_epoch_snapshot e = EPOCH_SNAPSHOT_PREFIX @ be_bytes8 e"

definition epoch_from_snapshot_key :: "bytes \<Rightarrow> (storage_error, epoch) result" where
  "epoch_from_snapshot_key key =
     (if \<not> starts_with EPOCH_SNAPSHOT_PREFIX key then Inl (Corrupted ''invalid epoch snapshot key prefix'')
      else let raw = drop (length EPOCH_SNAPSHOT_PREFIX) key in
        if length raw \<noteq> 8 then Inl (Corrupted ''invalid epoch snapshot key length'')
        else Inr (of_nat (le_val (rev raw))))"

text \<open>One typed read and one typed write, as every accessor pair of the store does them.\<close>

definition put_value ::
  "('a \<Rightarrow> (string, bytes) result) \<Rightarrow> bytes \<Rightarrow> 'a \<Rightarrow> kv_store \<Rightarrow> (storage_error, kv_store) result" where
  "put_value ser key x m = bind_res (encode_with ser x) (\<lambda>b. Inr (kv_put key b m))"

definition get_value ::
  "(bytes \<Rightarrow> (string, 'a) result) \<Rightarrow> bytes \<Rightarrow> kv_store \<Rightarrow> (storage_error, 'a option) result" where
  "get_value de key m =
     (case kv_get m key of
        None \<Rightarrow> Inr None
      | Some b \<Rightarrow> bind_res (decode_with de b) (\<lambda>x. Inr (Some x)))"

definition put_chain_entry :: "'z chain_env_scheme \<Rightarrow> chain_entry \<Rightarrow> kv_store \<Rightarrow> (storage_error, kv_store) result" where
  "put_chain_entry E e m = put_value (ser_entry E) (key_chain_entry (ce_hash e)) e m"

definition get_chain_entry ::
  "'z chain_env_scheme \<Rightarrow> kv_store \<Rightarrow> block_hash \<Rightarrow> (storage_error, chain_entry option) result" where
  "get_chain_entry E m h = get_value (de_entry E) (key_chain_entry h) m"

definition set_tip_hash :: "block_hash \<Rightarrow> kv_store \<Rightarrow> kv_store" where
  "set_tip_hash h m = kv_put CHAIN_TIP_KEY (hbytes h) m"

definition get_tip_hash :: "kv_store \<Rightarrow> (storage_error, block_hash option) result" where
  "get_tip_hash m =
     (case kv_get m CHAIN_TIP_KEY of
        None \<Rightarrow> Inr None
      | Some bs \<Rightarrow> bind_res (decode_block_hash bs) (\<lambda>h. Inr (Some h)))"

definition put_ledger_state :: "'z chain_env_scheme \<Rightarrow> ledger_state \<Rightarrow> kv_store \<Rightarrow> (storage_error, kv_store) result" where
  "put_ledger_state E s m = put_value (ser_ledger E) LEDGER_STATE_KEY s m"

definition get_ledger_state :: "'z chain_env_scheme \<Rightarrow> kv_store \<Rightarrow> (storage_error, ledger_state option) result" where
  "get_ledger_state E m = get_value (de_ledger E) LEDGER_STATE_KEY m"

definition put_epoch_snapshot :: "'z chain_env_scheme \<Rightarrow> epoch_snapshot \<Rightarrow> kv_store \<Rightarrow> (storage_error, kv_store) result" where
  "put_epoch_snapshot E s m = put_value (ser_epoch E) (key_epoch_snapshot (es_epoch s)) s m"

definition get_epoch_snapshot ::
  "'z chain_env_scheme \<Rightarrow> kv_store \<Rightarrow> epoch \<Rightarrow> (storage_error, epoch_snapshot option) result" where
  "get_epoch_snapshot E m e = get_value (de_epoch E) (key_epoch_snapshot e) m"

text \<open>The loop of \<open>latest_epoch_snapshot\<close>: the best epoch so far and its snapshot.\<close>

fun latest_loop ::
  "'z chain_env_scheme \<Rightarrow> (bytes \<times> bytes) list \<Rightarrow> (epoch \<times> epoch_snapshot) option \<Rightarrow>
     (storage_error, epoch_snapshot option) result" where
  "latest_loop E [] best = Inr (map_option snd best)"
| "latest_loop E (kv # kvs) best =
     bind_res (epoch_from_snapshot_key (fst kv)) (\<lambda>e.
     bind_res (decode_with (de_epoch E) (snd kv)) (\<lambda>s.
       latest_loop E kvs
         (case best of
            None \<Rightarrow> Some (e, s)
          | Some b \<Rightarrow> if fst b < e then Some (e, s) else best)))"

definition latest_epoch_snapshot ::
  "'z chain_env_scheme \<Rightarrow> kv_store \<Rightarrow> (storage_error, epoch_snapshot option) result" where
  "latest_epoch_snapshot E m =
     (let snapshots = kv_scan_prefix m EPOCH_SNAPSHOT_PREFIX in
      if snapshots = [] then Inr None else latest_loop E snapshots None)"

section \<open>The keys\<close>

lemma be_bytes8_eq [key_simps]: "be_bytes8 a = be_bytes8 b \<longleftrightarrow> a = b"
proof
  assume "be_bytes8 a = be_bytes8 b"
  then have "le_bytes 8 (unat a) = le_bytes 8 (unat b)" by (simp add: be_bytes8_def)
  then have "unat a = unat b"
    by (rule le_bytes_inj [rotated 2]) (use unat_bound [of a] unat_bound [of b] in simp_all)
  then show "a = b" by (simp add: word_unat_eq_iff)
qed simp

lemma block_key_eq [key_simps]:
  "key_block h = key_block h' \<longleftrightarrow> h = h'" "key_height n = key_height n' \<longleftrightarrow> n = n'"
  by (simp_all add: key_block_def key_height_def key_simps hash256.expand)

lemma block_key_class [key_simps]:
  "key_block h ! 0 = 0x62" "key_height n ! 0 = 0x62" "key_block h ! 6 = 0x62" "key_height n ! 6 = 0x68"
  "key_outpoint p ! 0 = 0x75" "key_coinbase_height p ! 0 = 0x75" "key_undo h ! 0 = 0x75"
  by (simp_all add: key_block_def key_height_def key_outpoint_def key_coinbase_height_def key_undo_def
      BLOCK_BY_HASH_PREFIX_def BLOCK_HASH_BY_HEIGHT_PREFIX_def UTXO_ENTRY_PREFIX_def UTXO_UNDO_PREFIX_def
      UTXO_COINBASE_HEIGHT_PREFIX_def ascii_def)

lemma block_key_disjoint [key_simps]:
  "key_block h \<noteq> key_height n" "key_height n \<noteq> key_block h"
  "key_block h \<noteq> key_outpoint p" "key_outpoint p \<noteq> key_block h"
  "key_block h \<noteq> key_coinbase_height p" "key_coinbase_height p \<noteq> key_block h"
  "key_block h \<noteq> key_undo h'" "key_undo h' \<noteq> key_block h"
  "key_height n \<noteq> key_outpoint p" "key_outpoint p \<noteq> key_height n"
  "key_height n \<noteq> key_coinbase_height p" "key_coinbase_height p \<noteq> key_height n"
  "key_height n \<noteq> key_undo h'" "key_undo h' \<noteq> key_height n"
  by (auto dest!: arg_cong [where f = "\<lambda>k. (k ! 0, k ! 6)"] simp: key_simps)

section \<open>What storing a block does\<close>

lemma put_block_effect:
  assumes "put_block E b m = Inr (h, m')" and "bt_ok m"
  shows "block_hash_of E b = Inr h \<and> get_block E m h = Inr None \<and> bt_ok m' \<and>
    (m' = m \<and> get_hash_by_height m (bh_height (blk_header b)) = Inr (Some h) \<or>
     get_hash_by_height m (bh_height (blk_header b)) = Inr None \<and>
     (\<exists>bs. ser_block E b = Inr bs \<and>
       kv_get m' = (kv_get m)(key_block h \<mapsto> bs, key_height (bh_height (blk_header b)) \<mapsto> hbytes h)))"
proof -
  from assms(1) obtain x existing where h: "block_hash_of E b = Inr x" "get_block E m x = Inr None"
    and ex: "get_hash_by_height m (bh_height (blk_header b)) = Inr existing"
    and put: "(case existing of
        Some y \<Rightarrow> if y = x then Inr (x, m) else Inl (AlreadyExists ''block height index'')
      | None \<Rightarrow> bind_res (encode_with (ser_block E) b) (\<lambda>bs.
          Inr (x, kv_write_batch [BPut (key_block x) bs, BPut (key_height (bh_height (blk_header b))) (hbytes x)] m)))
      = Inr (h, m')"
    unfolding put_block_def by (auto simp: res_simps split: if_splits)
  show ?thesis
  proof (cases existing)
    case None
    then show ?thesis
      using put h ex assms(2) by (auto simp: res_simps kv.get_write kv.ok_write batch_effect_def)
  next
    case (Some x)
    then show ?thesis using put h ex assms(2) by (auto split: if_splits)
  qed
qed

lemma put_block_utxo:
  assumes "put_block E b m = Inr (h, m')" and "bt_ok m"
  shows "kv_get m' (key_outpoint p) = kv_get m (key_outpoint p)"
    and "kv_get m' (key_coinbase_height p) = kv_get m (key_coinbase_height p)"
    and "kv_get m' (key_undo x) = kv_get m (key_undo x)"
  using put_block_effect [OF assms] by (auto simp: key_simps)

lemma put_block_store_ok:
  assumes "put_block E b m = Inr (h, m')" and "store_ok E m"
  shows "store_ok E m'" and "utxo_view E m' = utxo_view E m"
proof -
  have bt: "bt_ok m" using assms(2) by (simp add: store_ok_def)
  note u = put_block_utxo [OF assms(1) bt]
  show "store_ok E m'" using assms(2) put_block_effect [OF assms(1) bt] by (simp add: store_ok_def u)
  show "utxo_view E m' = utxo_view E m" by (simp add: utxo_view_def u fun_eq_iff)
qed

text \<open>A block whose hash and height are new is refused only when it cannot be encoded.\<close>

lemma put_block_new:
  assumes "block_validate_structure E b = Inr ()" and "block_hash_of E b = Inr h"
    and "kv_get m (key_block h) = None" and "kv_get m (key_height (bh_height (blk_header b))) = None"
  shows "put_block E b m =
    bind_res (encode_with (ser_block E) b) (\<lambda>bs.
      Inr (h, kv_write_batch [BPut (key_block h) bs, BPut (key_height (bh_height (blk_header b))) (hbytes h)] m))"
  using assms by (simp add: put_block_def get_block_def get_hash_by_height_def)

section \<open>The archive interface\<close>

text \<open>
  What a reader of the block store relies on: storing a block files it under its hash and its
  height, both free before, and disturbs nothing else.
\<close>

locale block_archive =
  fixes ok :: "'s \<Rightarrow> bool"
    and put :: "'b \<Rightarrow> 's \<Rightarrow> ('e, 'k \<times> 's) result"
    and find_block :: "'s \<Rightarrow> 'k \<rightharpoonup> 'b"
    and hash_at :: "'s \<Rightarrow> 'n \<rightharpoonup> 'k"
    and block_height :: "'b \<Rightarrow> 'n"
  assumes ok_put: "ok s \<Longrightarrow> put b s = Inr (k, s') \<Longrightarrow> ok s'"
    and put_new: "ok s \<Longrightarrow> put b s = Inr (k, s') \<Longrightarrow> find_block s k = None \<and> hash_at s (block_height b) = None"
    and find_put: "ok s \<Longrightarrow> put b s = Inr (k, s') \<Longrightarrow> find_block s' = (find_block s)(k \<mapsto> b)"
    and at_put: "ok s \<Longrightarrow> put b s = Inr (k, s') \<Longrightarrow> hash_at s' = (hash_at s)(block_height b \<mapsto> k)"
begin

lemma stored_stays:
  assumes "ok s" and "run_all (\<lambda>b s. bind_res (put b s) (\<lambda>r. Inr (snd r))) bs s = Inr s'"
  shows "ok s' \<and> find_block s \<subseteq>\<^sub>m find_block s' \<and> hash_at s \<subseteq>\<^sub>m hash_at s' \<and>
    (\<forall>b \<in> set bs. \<exists>k. find_block s' k = Some b \<and> hash_at s' (block_height b) = Some k)"
  using assms
proof (induction bs arbitrary: s)
  case (Cons b bs)
  from Cons.prems(2) obtain k s1 where s1: "put b s = Inr (k, s1)"
    and run: "run_all (\<lambda>b s. bind_res (put b s) (\<lambda>r. Inr (snd r))) bs s1 = Inr s'"
    by (auto simp: res_simps)
  note p = ok_put [OF Cons.prems(1) s1] put_new [OF Cons.prems(1) s1] find_put [OF Cons.prems(1) s1]
    at_put [OF Cons.prems(1) s1]
  note IH = Cons.IH [OF p(1) run]
  have le: "find_block s \<subseteq>\<^sub>m find_block s1" "hash_at s \<subseteq>\<^sub>m hash_at s1"
    using p(2-4) by (auto simp: map_le_def)
  have "find_block s1 k = Some b" "hash_at s1 (block_height b) = Some k" using p(3,4) by simp_all
  then have "find_block s' k = Some b" "hash_at s' (block_height b) = Some k"
    using IH by (metis domI map_le_def)+
  moreover have "find_block s \<subseteq>\<^sub>m find_block s'" "hash_at s \<subseteq>\<^sub>m hash_at s'"
    using IH le map_le_trans by blast+
  ultimately show ?case using IH by auto
qed simp

end

definition block_codec_ok :: "'z chain_env_scheme \<Rightarrow> bool" where
  "block_codec_ok E \<longleftrightarrow> (\<forall>b bs. ser_block E b = Inr bs \<longrightarrow> de_block E bs = Inr b) \<and>
     (\<forall>bs. length (sha3_256 E bs) = 32)"

definition archive_ok :: "'z chain_env_scheme \<Rightarrow> kv_store \<Rightarrow> bool" where
  "archive_ok E m \<longleftrightarrow> bt_ok m \<and>
     (\<forall>h bs. kv_get m (key_block h) = Some bs \<longrightarrow> (\<exists>b. ser_block E b = Inr bs)) \<and>
     (\<forall>n v. kv_get m (key_height n) = Some v \<longrightarrow> length v = 32 \<and> kv_get m (key_block (Hash256 v)) \<noteq> None)"

definition stored_block :: "'z chain_env_scheme \<Rightarrow> kv_store \<Rightarrow> block_hash \<rightharpoonup> block" where
  "stored_block E m h = (case get_block E m h of Inl _ \<Rightarrow> None | Inr r \<Rightarrow> r)"

definition indexed_hash :: "kv_store \<Rightarrow> height \<rightharpoonup> block_hash" where
  "indexed_hash m n = (case get_hash_by_height m n of Inl _ \<Rightarrow> None | Inr r \<Rightarrow> r)"

lemma block_hash_length:
  "block_codec_ok E \<Longrightarrow> block_hash_of E b = Inr h \<Longrightarrow> length (hbytes h) = 32"
  by (auto simp: block_codec_ok_def block_hash_of_def header_hash_def res_simps)

text \<open>On a well-formed archive the code's repair branch (index entry without block) never runs.\<close>

lemma archive_put:
  assumes ok: "archive_ok E m" and put: "put_block E b m = Inr (h, m')"
  shows "kv_get m (key_block h) = None \<and> kv_get m (key_height (bh_height (blk_header b))) = None \<and>
    (\<exists>bs. ser_block E b = Inr bs \<and>
       kv_get m' = (kv_get m)(key_block h \<mapsto> bs, key_height (bh_height (blk_header b)) \<mapsto> hbytes h))"
proof -
  have bt: "bt_ok m" using ok by (simp add: archive_ok_def)
  note p = put_block_effect [OF put bt]
  have g: "kv_get m (key_block h) = None"
    using p by (auto simp: get_block_def res_simps split: option.splits)
  have "get_hash_by_height m n \<noteq> Inr (Some h)" for n
    using ok g by (fastforce simp: get_hash_by_height_def decode_block_hash_def archive_ok_def res_simps
        split: option.splits if_splits)
  with p have ex: "\<exists>bs. ser_block E b = Inr bs \<and>
       kv_get m' = (kv_get m)(key_block h \<mapsto> bs, key_height (bh_height (blk_header b)) \<mapsto> hbytes h)"
    and "get_hash_by_height m (bh_height (blk_header b)) = Inr None" by blast+
  then have "kv_get m (key_height (bh_height (blk_header b))) = None"
    by (auto simp: get_hash_by_height_def res_simps split: option.splits)
  with g ex show ?thesis by blast
qed

interpretation ar: block_archive "\<lambda>m. block_codec_ok E \<and> archive_ok E m" "put_block E" "stored_block E"
  indexed_hash "\<lambda>b. bh_height (blk_header b)"
proof unfold_locales
  fix m m' b h
  assume ok: "block_codec_ok E \<and> archive_ok E m" and put: "put_block E b m = Inr (h, m')"
  have bt: "bt_ok m" using ok by (simp add: archive_ok_def)
  have "block_hash_of E b = Inr h" and bt': "bt_ok m'" using put_block_effect [OF put bt] by blast+
  then have len: "length (hbytes h) = 32" using ok block_hash_length by blast
  obtain bs where bs: "ser_block E b = Inr bs" and get: "kv_get m' =
      (kv_get m)(key_block h \<mapsto> bs, key_height (bh_height (blk_header b)) \<mapsto> hbytes h)"
    using archive_put [OF _ put] ok by blast
  show "block_codec_ok E \<and> archive_ok E m'"
    using ok bt' bs len unfolding archive_ok_def get by (auto simp: key_simps)
  show "stored_block E m h = None \<and> indexed_hash m (bh_height (blk_header b)) = None"
    using archive_put [OF _ put] ok by (simp add: stored_block_def indexed_hash_def get_block_def get_hash_by_height_def)
  have "de_block E bs = Inr b" using ok bs by (simp add: block_codec_ok_def)
  then show "stored_block E m' = (stored_block E m)(h \<mapsto> b)"
    by (simp add: fun_eq_iff stored_block_def get_block_def get key_simps decode_with_def)
  show "indexed_hash m' = (indexed_hash m)(bh_height (blk_header b) \<mapsto> h)"
    using len by (simp add: fun_eq_iff indexed_hash_def get_hash_by_height_def get key_simps decode_block_hash_def)
qed


text \<open>A concrete environment: the store encoders of before, and one block that encodes.\<close>

definition demo_chain_env :: chain_env where
  "demo_chain_env = demo_store_env (chain_env.fields
     (\<lambda>b. if b = demo_block then Inr [7] else Inl ''unsupported'')
     (\<lambda>bs. if bs = [7] then Inr demo_block else Inl ''malformed'')
     (\<lambda>_. Inl ''unsupported'') (\<lambda>_. Inl ''malformed'') (\<lambda>_. Inl ''unsupported'') (\<lambda>_. Inl ''malformed'')
     (\<lambda>_. Inl ''unsupported'') (\<lambda>_. Inl ''malformed''))"

lemma demo_block_codec:
  "ser_block demo_chain_env b = (if b = demo_block then Inr [7] else Inl ''unsupported'')"
  "de_block demo_chain_env bs = (if bs = [7] then Inr demo_block else Inl ''malformed'')"
  by (simp_all add: demo_chain_env_def demo_store_env_def chain_env.defs)

lemma demo_codec_ok: "block_codec_ok demo_chain_env"
  by (simp add: block_codec_ok_def demo_block_codec)
    (auto simp: demo_chain_env_def demo_store_env_def demo_env_def min_def)

lemma demo_put_block:
  assumes "kv_get m (key_block (Hash256 (5 # replicate 31 0))) = None" and "kv_get m (key_height 5) = None"
  shows "put_block demo_chain_env demo_block m = Inr (Hash256 (5 # replicate 31 0),
    kv_write_batch [BPut (key_block (Hash256 (5 # replicate 31 0))) [7], BPut (key_height 5) (5 # replicate 31 0)] m)"
proof -
  have h: "bh_height (blk_header demo_block) = 5" by (simp add: demo_block_def)
  have "block_validate_structure demo_chain_env demo_block = Inr ()"
    "block_hash_of demo_chain_env demo_block = Inr (Hash256 (5 # replicate 31 0))"
    unfolding demo_chain_env_def by (rule demo_store_block_valid, rule demo_block_hash)
  from put_block_new [OF this assms(1)] assms(2) show ?thesis
    by (simp add: h encode_with_def demo_block_codec)
qed


section \<open>Epoch snapshots\<close>

lemma epoch_key_round_trip: "epoch_from_snapshot_key (key_epoch_snapshot e) = Inr e"
proof -
  have "of_nat (le_val (le_bytes 8 (unat e))) = e" using unat_bound [of e] by (simp add: le_val_le_bytes)
  then show ?thesis
    by (simp add: epoch_from_snapshot_key_def key_epoch_snapshot_def starts_with_def be_bytes8_def)
qed

text \<open>The loop returns the snapshot of the greatest epoch, the earliest of equal ones.\<close>

lemma latest_loop_best:
  assumes "list_all2 (\<lambda>kv x. epoch_from_snapshot_key (fst kv) = Inr (fst x) \<and> de_epoch E (snd kv) = Inr (snd x)) kvs xs"
  shows "\<exists>r. latest_loop E kvs best = Inr (map_option snd r) \<and>
    (case r of None \<Rightarrow> best = None \<and> xs = []
     | Some x \<Rightarrow> x \<in> set xs \<union> set_option best \<and> (\<forall>y \<in> set xs \<union> set_option best. fst y \<le> fst x))"
  using assms
proof (induction arbitrary: best rule: list_all2_induct)
  case Nil
  show ?case by (rule exI [of _ best]) (cases best; simp)
next
  case (Cons kv kvs x xs)
  let ?best = "case best of None \<Rightarrow> Some x | Some b \<Rightarrow> if fst b < fst x then Some x else best"
  from Cons.IH [of ?best] obtain r where r: "latest_loop E kvs ?best = Inr (map_option snd r)"
    and p: "case r of None \<Rightarrow> ?best = None \<and> xs = []
     | Some z \<Rightarrow> z \<in> set xs \<union> set_option ?best \<and> (\<forall>y \<in> set xs \<union> set_option ?best. fst y \<le> fst z)" by blast
  have "latest_loop E (kv # kvs) best = Inr (map_option snd r)"
    using r Cons.hyps(1) by (cases best) (auto simp: decode_with_def)
  moreover have "case r of None \<Rightarrow> best = None \<and> x # xs = []
     | Some z \<Rightarrow> z \<in> set (x # xs) \<union> set_option best \<and> (\<forall>y \<in> set (x # xs) \<union> set_option best. fst y \<le> fst z)"
    using p by (auto split: option.splits if_splits)
  ultimately show ?case by blast
qed

end
