(* ===== verification/QV_Node.thy ===== *)
theory QV_Node
  imports QV_Validation QV_BlockStore QV_ChainProps
begin

text \<open>
  \<open>qv-node/src/node.rs\<close> and \<open>genesis.rs\<close>: bootstrap from genesis, the block handler, the transaction
  handler and the event loop. The node's shared stores, chain state and pool are one record; the
  locks make each handler run alone, so a handler is a function on it. \<open>None\<close> is a panic or an
  endless loop. Errors carry the error where the code carries its printed form.
\<close>

section \<open>Data\<close>

datatype block_reason =
    BadStructure block_error
  | PrevHashMismatch block_hash block_hash
  | SlotNotIncreasing slot slot
  | HeightMismatch height height
  | RewardRules tx_validation_error
  | CommitmentMismatch utxo_commitment utxo_commitment

datatype node_error =
    NodeStorage storage_error
  | NodeConsensus chain_error
  | BlockValidation block_reason

datatype node_event = BlockReceived block | TxReceived transaction | Shutdown

datatype gossip = GossipBlock block | GossipTx transaction

record node_config =
  nc_enforce_utxo_commitment :: bool
  nc_min_fee_rate :: u64
  nc_params :: protocol_params

record node =
  nd_kv :: kv_store
  nd_chain :: chain_state
  nd_pool :: clear_pool

section \<open>Genesis\<close>

text \<open>The panic of \<open>expect\<close> on a transaction without id is \<open>None\<close>.\<close>

definition build_genesis_block :: "'z block_env_scheme \<Rightarrow> (bytes \<times> u64) list \<Rightarrow> block option" where
  "build_genesis_block E allocations =
     (let outputs = map (\<lambda>(pk, amount). tx_output_new amount (p2pkh_pqc (pubkey_hash E pk))) allocations;
          genesis_tx = tx_genesis outputs
      in case tx_id E genesis_tx of
        Inl _ \<Rightarrow> None
      | Inr tid \<Rightarrow> Some
          \<lparr>blk_header =
             \<lparr>bh_version = BLOCK_VERSION, bh_prev_hash = hash_zero, bh_height = 0, bh_slot = 0, bh_timestamp = 0,
              bh_merkle_root = merkle_root_of (sha3_256 E) [tid], bh_utxo_commitment = hash_zero,
              bh_vrf_proof = [], bh_kes_sig = [], bh_producer_key_hash = hash_zero\<rparr>,
           blk_txs = [genesis_tx]\<rparr>)"

text \<open>The allocation of a network without a built-in genesis: one foundation key.\<close>

definition foundation_allocation :: "bytes \<Rightarrow> (bytes \<times> u64) list" where
  "foundation_allocation pk = [(pk, 2100000000000000)]"

definition maybe_apply_genesis ::
  "'z chain_env_scheme \<Rightarrow> block \<Rightarrow> kv_store \<Rightarrow> (storage_error, kv_store) result" where
  "maybe_apply_genesis E genesis_block m =
     (if 0 < utxo_len m then Inr m
      else bind_res (apply_block E genesis_block m) (\<lambda>m1.
           bind_res (put_block E genesis_block m1) (\<lambda>(_, m2). Inr m2)))"

definition node_new ::
  "'z chain_env_scheme \<Rightarrow> node_config \<Rightarrow> block \<Rightarrow> (storage_error, node) result" where
  "node_new E cfg genesis_block =
     bind_res (maybe_apply_genesis E genesis_block kv_new) (\<lambda>m.
       Inr \<lparr>nd_kv = m, nd_chain = chain_genesis (pp_consensus (nc_params cfg)),
            nd_pool = pool_new pool_config_testnet\<rparr>)"

section \<open>Blocks\<close>

text \<open>The addition is checked in every build profile, so an overflow is a panic.\<close>

definition validate_chain_linkage :: "chain_state \<Rightarrow> block \<Rightarrow> (node_error, unit) result option" where
  "validate_chain_linkage cs b =
     Option.bind (tip_entry cs) (\<lambda>tip.
       if bh_prev_hash (blk_header b) \<noteq> ce_hash tip
       then Some (Inl (BlockValidation (PrevHashMismatch (ce_hash tip) (bh_prev_hash (blk_header b)))))
       else if bh_slot (blk_header b) \<le> ce_slot tip
       then Some (Inl (BlockValidation (SlotNotIncreasing (ce_slot tip) (bh_slot (blk_header b)))))
       else Option.bind (checked_add_w (ce_height tip) 1) (\<lambda>expected_height.
         Some (fail_if (bh_height (blk_header b) \<noteq> expected_height)
           (BlockValidation (HeightMismatch expected_height (bh_height (blk_header b)))))))"

text \<open>A failed roll-back is logged and otherwise ignored.\<close>

definition roll_back :: "'z store_env_scheme \<Rightarrow> block \<Rightarrow> kv_store \<Rightarrow> kv_store" where
  "roll_back E b m = (case revert_block E b m of Inl _ \<Rightarrow> m | Inr m' \<Rightarrow> m')"

definition check_commitment ::
  "'z store_env_scheme \<Rightarrow> node_config \<Rightarrow> block \<Rightarrow> kv_store \<Rightarrow> (node_error, unit) result \<times> kv_store" where
  "check_commitment E cfg b m =
     (if nc_enforce_utxo_commitment cfg
      then case utxo_commitment_root E m of
          Inl e \<Rightarrow> (Inl (NodeStorage e), m)
        | Inr computed \<Rightarrow>
            if computed \<noteq> bh_utxo_commitment (blk_header b)
            then (Inl (BlockValidation (CommitmentMismatch (bh_utxo_commitment (blk_header b)) computed)), roll_back E b m)
            else (Inr (), m)
      else (Inr (), m))"

definition chain_entry_of :: "block_hash \<Rightarrow> block \<Rightarrow> chain_entry" where
  "chain_entry_of h b =
     \<lparr>ce_hash = h, ce_parent_hash = bh_prev_hash (blk_header b), ce_height = bh_height (blk_header b),
      ce_slot = bh_slot (blk_header b), ce_producer = bh_producer_key_hash (blk_header b)\<rparr>"

text \<open>The outpoints a block spends, in the order of the \<open>BTreeSet\<close>.\<close>

definition spent_outpoints :: "block \<Rightarrow> outpoint list" where
  "spent_outpoints b = sort (remdups (concat (map (\<lambda>tx. map prev_output (tx_inputs tx)) (blk_txs b))))"

text \<open>Steps 4 to 6, after the effects on the UTXO set are in place.\<close>

definition commit_block ::
  "'z chain_env_scheme \<Rightarrow> block \<Rightarrow> block_hash \<Rightarrow> node \<Rightarrow> ((node_error, unit) result \<times> node) option" where
  "commit_block E b h N =
     map_option (\<lambda>r.
       case r of
         Inl e \<Rightarrow> (Inl (NodeConsensus e), N\<lparr>nd_kv := roll_back E b (nd_kv N)\<rparr>)
       | Inr (_, cs) \<Rightarrow>
           (case put_block E b (nd_kv N) of
              Inl e \<Rightarrow> (Inl (NodeStorage e), N\<lparr>nd_chain := cs\<rparr>)
            | Inr (_, m) \<Rightarrow>
                (Inr (), N\<lparr>nd_kv := m, nd_chain := cs,
                   nd_pool := (if spent_outpoints b = [] then nd_pool N
                               else snd (remove_confirmed (spent_outpoints b) (nd_pool N)))\<rparr>)))
     (add_block (nd_chain N) (chain_entry_of h b))"

definition handle_block ::
  "'z chain_env_scheme \<Rightarrow> node_config \<Rightarrow> block \<Rightarrow> node \<Rightarrow> ((node_error, unit) result \<times> node) option" where
  "handle_block E cfg b N =
     (case block_validate_structure E b of
        Inl e \<Rightarrow> Some (Inl (BlockValidation (BadStructure e)), N)
      | Inr _ \<Rightarrow>
      (case block_hash_of E b of
         Inl e \<Rightarrow> Some (Inl (BlockValidation (BadStructure e)), N)
       | Inr h \<Rightarrow>
       Option.bind (validate_chain_linkage (nd_chain N) b) (\<lambda>linkage.
       case linkage of
         Inl e \<Rightarrow> Some (Inl e, N)
       | Inr _ \<Rightarrow>
       Option.bind (validate_block_rewards E b (nd_kv N) (pp_monetary (nc_params cfg))
           (k_finality (pp_consensus (nc_params cfg)))) (\<lambda>rewards.
       case rewards of
         Inl e \<Rightarrow> Some (Inl (BlockValidation (RewardRules e)), N)
       | Inr _ \<Rightarrow>
       (case apply_block E b (nd_kv N) of
          Inl e \<Rightarrow> Some (Inl (NodeStorage e), N)
        | Inr m \<Rightarrow>
        (case check_commitment E cfg b m of
           (Inl e, m') \<Rightarrow> Some (Inl e, N\<lparr>nd_kv := m'\<rparr>)
         | (Inr _, m') \<Rightarrow> commit_block E b h (N\<lparr>nd_kv := m'\<rparr>)))))))"

section \<open>Transactions and events\<close>

text \<open>The result says whether the transaction was accepted, and so is relayed.\<close>

definition handle_tx ::
  "'z store_env_scheme \<Rightarrow> node_config \<Rightarrow> u64 \<Rightarrow> transaction \<Rightarrow> node \<Rightarrow> (bool \<times> node) option" where
  "handle_tx E cfg now tx N =
     Option.bind (tip_entry (nd_chain N)) (\<lambda>tip.
       case check_coinbase_maturity E tx (nd_kv N) (height_next (ce_height tip))
           (k_finality (pp_consensus (nc_params cfg))) of
         Inl _ \<Rightarrow> Some (False, N)
       | Inr _ \<Rightarrow>
           Option.bind (validate_transaction E tx (nd_kv N) (ce_slot tip) (nc_min_fee_rate cfg)) (\<lambda>v.
             case v of
               Inl _ \<Rightarrow> Some (False, N)
             | Inr validated \<Rightarrow>
                 map_option (\<lambda>(r, pool). ((case r of Inl _ \<Rightarrow> False | Inr _ \<Rightarrow> True), N\<lparr>nd_pool := pool\<rparr>))
                   (insert_validated_tx E now (nd_pool N) tx validated)))"

text \<open>One round of the event loop with the network attached: the messages relayed and the new state.\<close>

definition node_step ::
  "'z chain_env_scheme \<Rightarrow> node_config \<Rightarrow> u64 \<Rightarrow> node_event \<Rightarrow> node \<Rightarrow> (gossip list \<times> node) option" where
  "node_step E cfg now ev N =
     (case ev of
        BlockReceived b \<Rightarrow> map_option (\<lambda>(_, N'). ([GossipBlock b], N')) (handle_block E cfg b N)
      | TxReceived tx \<Rightarrow>
          map_option (\<lambda>(accepted, N'). (if accepted then [GossipTx tx] else [], N')) (handle_tx E cfg now tx N)
      | Shutdown \<Rightarrow> Some ([], N))"

text \<open>The loop over timed events; it ends at a shutdown.\<close>

fun node_run ::
  "'z chain_env_scheme \<Rightarrow> node_config \<Rightarrow> (u64 \<times> node_event) list \<Rightarrow> node \<Rightarrow> (gossip list \<times> node) option" where
  "node_run E cfg [] N = Some ([], N)"
| "node_run E cfg ((now, ev) # evs) N =
     (if ev = Shutdown then Some ([], N)
      else Option.bind (node_step E cfg now ev N) (\<lambda>(out, N').
           map_option (\<lambda>(outs, N''). (out @ outs, N'')) (node_run E cfg evs N')))"

section \<open>The commitment can always be computed\<close>

text \<open>Every key of the entry space is the key of an outpoint with a 32-byte transaction id.\<close>

definition entry_keys_ok :: "kv_store \<Rightarrow> bool" where
  "entry_keys_ok m \<longleftrightarrow>
     (\<forall>k. kv_get m k \<noteq> None \<and> starts_with UTXO_ENTRY_PREFIX k \<longrightarrow>
        (\<exists>p. k = key_outpoint p \<and> length (hbytes (op_tx_id p)) = 32))"

lemma outpoint_key_round_trip:
  assumes "length (hbytes (op_tx_id p)) = 32"
  shows "outpoint_from_key (key_outpoint p) = Inr p"
proof -
  have "of_nat (le_val (le_bytes 4 (unat (op_index p)))) = op_index p"
    using unat_bound [of "op_index p"] by (simp add: le_val_le_bytes)
  then show ?thesis
    using assms by (simp add: outpoint_from_key_def key_outpoint_def starts_with_def op_canonical_bytes_def)
qed

lemma decode_entries_total:
  assumes "\<forall>e \<in> set es. \<exists>p out. outpoint_from_key (fst e) = Inr p \<and> de_output E (snd e) = Inr out"
  shows "\<exists>r. decode_entries E es = Inr r"
  using assms by (induction es) (auto simp: decode_with_def)

lemma commitment_total:
  assumes "bincode_ok E" and "store_ok E m" and "entry_keys_ok m"
  shows "\<exists>c. utxo_commitment_root E m = Inr c"
proof -
  have bt: "bt_ok m" using assms(2) by (simp add: store_ok_def)
  have "\<exists>p out. outpoint_from_key (fst e) = Inr p \<and> de_output E (snd e) = Inr out"
    if "e \<in> set (kv_scan_prefix m UTXO_ENTRY_PREFIX)" for e
  proof -
    have e: "e \<in> set m" "starts_with UTXO_ENTRY_PREFIX (fst e)"
      using that by (auto simp: kv_scan_prefix_filter [OF bt])
    then have get: "kv_get m (fst e) = Some (snd e)"
      using bt by (simp add: kv_get_def bt_ok_def strict_sorted_iff)
    then obtain p where p: "fst e = key_outpoint p" "length (hbytes (op_tx_id p)) = 32"
      using assms(3) e(2) unfolding entry_keys_ok_def by force
    then obtain out where "ser_output E out = Inr (snd e)"
      using get assms(2) unfolding store_ok_def by fastforce
    then have "de_output E (snd e) = Inr out" using assms(1) by (simp add: bincode_ok_def)
    with p outpoint_key_round_trip show ?thesis by auto
  qed
  then show ?thesis
    using decode_entries_total [of "kv_scan_prefix m UTXO_ENTRY_PREFIX" E]
    by (auto simp: utxo_commitment_root_def utxo_entries_def)
qed

text \<open>Connecting a block writes only keys of the UTXO space, and only well-formed entry keys.\<close>

lemma index_outpoints_txid: "index_outpoints tid idx outs = Inr ps \<Longrightarrow> p \<in> set ps \<Longrightarrow> op_tx_id p = tid"
  by (induction outs arbitrary: idx ps) (auto simp: res_simps split: if_splits)

lemma made_txid_length:
  assumes "block_codec_ok E" and "p \<in> made E txs"
  shows "length (hbytes (op_tx_id p)) = 32"
  using assms(2)
proof (induction txs)
  case (Cons tx txs)
  then show ?case
    using assms(1) by (auto simp: tx_outpoints_def res_simps block_codec_ok_def dest!: index_outpoints_txid split: sum.splits)
qed simp

lemma apply_block_other_key:
  assumes "bt_ok m" and "apply_block E b m = Inr m'" and "k ! 0 \<noteq> 0x75"
  shows "kv_get m' k = kv_get m k"
proof -
  from assms(2) obtain ops where ops: "apply_ops E b m = Inr ops" "m' = kv_write_batch ops m"
    by (auto simp: apply_block_def res_simps)
  from apply_opsE [OF ops(1)] obtain st cbs dels hs puts cbputs bh ub where
    st: "stage_txs E m (bh_height (blk_header b)) 0 (blk_txs b)
       \<lparr>st_spent = [], st_consumed = {}, st_new = []\<rparr> [] = Inr (st, cbs)"
    and sp: "spend_ops E m (st_spent st) = Inr (dels, hs)" and pu: "put_outputs E (st_new st) = Inr puts"
    and cb: "put_heights E (map (\<lambda>p. (p, bh_height (blk_header b))) (filter (bt_has (st_new st)) cbs)) = Inr cbputs"
    and o: "ops = dels @ puts @ cbputs @ [BPut (key_undo bh) ub]" by metis
  have "k \<notin> op_key ` set ops"
    using apply_keys [OF st sp pu cb o] by (rule contra_subsetD) (use assms(3) in \<open>auto simp: touched_def key_simps\<close>)
  then show ?thesis using assms(1) ops(2) by (simp add: kv.get_write effect_other)
qed

lemma entry_prefix_class: "starts_with UTXO_ENTRY_PREFIX k \<Longrightarrow> k ! 5 = 0x65 \<and> k ! 0 = 0x75"
proof -
  assume "starts_with UTXO_ENTRY_PREFIX k"
  then have t: "take (length UTXO_ENTRY_PREFIX) k = UTXO_ENTRY_PREFIX" by (simp add: starts_with_def)
  have "length UTXO_ENTRY_PREFIX = 11" by (simp add: UTXO_ENTRY_PREFIX_def ascii_def)
  then have "k ! 5 = take (length UTXO_ENTRY_PREFIX) k ! 5" "k ! 0 = take (length UTXO_ENTRY_PREFIX) k ! 0" by simp_all
  then show ?thesis unfolding t by (simp add: UTXO_ENTRY_PREFIX_def ascii_def)
qed

lemma apply_block_entry_keys:
  assumes ok: "entry_keys_ok m" and bt: "bt_ok m" and codec: "block_codec_ok E" and ap: "apply_block E b m = Inr m'"
  shows "entry_keys_ok m'"
  unfolding entry_keys_ok_def
proof (intro allI impI, elim conjE)
  fix k assume k: "kv_get m' k \<noteq> None" "starts_with UTXO_ENTRY_PREFIX k"
  from ap obtain ops where ops: "apply_ops E b m = Inr ops" "m' = kv_write_batch ops m"
    by (auto simp: apply_block_def res_simps)
  from apply_opsE [OF ops(1)] obtain st cbs dels hs puts cbputs bh ub where
    st: "stage_txs E m (bh_height (blk_header b)) 0 (blk_txs b)
       \<lparr>st_spent = [], st_consumed = {}, st_new = []\<rparr> [] = Inr (st, cbs)"
    and sp: "spend_ops E m (st_spent st) = Inr (dels, hs)" and pu: "put_outputs E (st_new st) = Inr puts"
    and cb: "put_heights E (map (\<lambda>p. (p, bh_height (blk_header b))) (filter (bt_has (st_new st)) cbs)) = Inr cbputs"
    and o: "ops = dels @ puts @ cbputs @ [BPut (key_undo bh) ub]" by metis
  have get: "kv_get m' = batch_effect ops (kv_get m)" using bt ops(2) by (simp add: kv.get_write)
  have dom: "dom (bt_get (st_new st)) \<subseteq> made E (blk_txs b)"
    using stage_txs_refines [OF st stage_start(1)] by simp
  show "\<exists>p. k = key_outpoint p \<and> length (hbytes (op_tx_id p)) = 32"
  proof (cases "k \<in> op_key ` set ops")
    case True
    then have "k \<in> touched (fst ` set (st_spent st)) (made E (blk_txs b)) (fst ` set hs)
        (made_cb E (bh_height (blk_header b)) 0 (blk_txs b)) bh"
      using apply_keys [OF st sp pu cb o] by blast
    then obtain p where p: "k = key_outpoint p"
      using entry_prefix_class [OF k(2)] by (auto simp: touched_def key_simps)
    show ?thesis
    proof (cases "bt_get (st_new st) p")
      case None
      then have "kv_get m k \<noteq> None"
        using k(1) unfolding get p apply_effect_outpoint [OF ops(1) st] by (simp split: if_splits)
      then show ?thesis using ok k(2) unfolding entry_keys_ok_def by blast
    next
      case (Some out)
      then have "p \<in> made E (blk_txs b)" using dom by blast
      then show ?thesis using made_txid_length [OF codec] p by blast
    qed
  next
    case False
    then have "kv_get m k \<noteq> None" using k(1) get by (simp add: effect_other)
    then show ?thesis using ok k(2) unfolding entry_keys_ok_def by blast
  qed
qed

lemma put_block_entry_keys:
  assumes "put_block E b m = Inr (h, m')" and "bt_ok m" and "entry_keys_ok m"
  shows "entry_keys_ok m'"
proof -
  have "kv_get m' k = kv_get m k" if "starts_with UTXO_ENTRY_PREFIX k" for k
    using put_block_effect [OF assms(1,2)] entry_prefix_class [OF that] by (auto simp: key_simps)
  then show ?thesis using assms(3) unfolding entry_keys_ok_def by metis
qed

section \<open>Extending the tip\<close>

lemma add_tip_child:
  assumes inv: "chain_inv s" and t: "tip_entry s = Some t" and par: "ce_parent_hash e = ce_hash t"
    and ht: "unat (ce_height e) = Suc (unat (ce_height t))"
    and new: "\<not> bt_has (cs_entries s) (ce_hash e)" and nz: "ce_hash e \<noteq> hash_zero"
  shows "\<exists>changed s'. add_block s e = Some (Inr (changed, s')) \<and> chain_inv s' \<and>
    cs_entries s' = bt_insert (ce_hash e) e (cs_entries s) \<and> cs_tip s' = ce_hash e \<and> tip_entry s' = Some e"
proof -
  have tree: "tree_inv s" and fin: "final_inv s" using inv by (simp_all add: chain_inv_def)
  have hash: "ce_hash t = cs_tip s" using tree t by (simp add: tree_inv_def tip_entry_def)
  have link: "linked s e" using nz par hash t ht by (auto simp: linked_def tip_entry_def)
  have "is_anc s (cs_final_hash s) (ce_parent_hash e)" using fin par hash by (simp add: final_inv_def)
  then obtain changed s' where s': "add_block s e = Some (Inr (changed, s'))" "chain_inv s'"
    "cs_entries s' = bt_insert (ce_hash e) e (cs_entries s)"
    using add_block_cases [OF inv link] new by blast
  have bt: "bt_ok (cs_entries s)" using tree by (simp add: tree_inv_def)
  have get: "bt_get (cs_entries s') = (bt_get (cs_entries s))(ce_hash e \<mapsto> e)"
    using bt s'(3) by (simp add: bt_simps fun_eq_iff)
  have "cs_tip s' = ce_hash e"
  proof (rule ccontr)
    assume ne: "cs_tip s' \<noteq> ce_hash e"
    have tip': "bt_has (cs_entries s') (cs_tip s')" and "better s' (cs_tip s') (ce_hash e)"
      using s'(2) get by (auto simp: chain_inv_def final_inv_def)
    then have "height_of s' (ce_hash e) \<le> height_of s' (cs_tip s')" by (auto simp: better_def)
    then have le: "unat (ce_height e) \<le> height_of s (cs_tip s')" using ne by (simp add: height_of_def get)
    have "bt_has (cs_entries s) (cs_tip s')" using tip' ne by (simp add: get)
    then have "better s (cs_tip s) (cs_tip s')" using inv by (simp add: chain_inv_def)
    then have "height_of s (cs_tip s') \<le> unat (ce_height t)"
      using t by (auto simp: better_def height_of_def [of s "cs_tip s"] tip_entry_def)
    with le ht show False by simp
  qed
  then show ?thesis using s' get by (auto simp: tip_entry_def)
qed

section \<open>The node invariant\<close>

text \<open>
  The parts agree: each component satisfies its own invariant, the genesis entry is known, and the
  height index never runs ahead of the tip.
\<close>

definition node_inv :: "'z chain_env_scheme \<Rightarrow> node \<Rightarrow> bool" where
  "node_inv E N \<longleftrightarrow> chain_inv (nd_chain N) \<and> bt_has (cs_entries (nd_chain N)) hash_zero \<and>
     store_ok E (nd_kv N) \<and> entry_keys_ok (nd_kv N) \<and> archive_ok E (nd_kv N) \<and> pool_inv (nd_pool N) \<and>
     (\<forall>n. kv_get (nd_kv N) (key_height n) \<noteq> None \<longrightarrow> unat n \<le> height_of (nd_chain N) (cs_tip (nd_chain N)))"

text \<open>A hash the node has not seen: no chain entry, no undo log and no stored block.\<close>

definition fresh_hash :: "node \<Rightarrow> block_hash \<Rightarrow> bool" where
  "fresh_hash N h \<longleftrightarrow> chain_get (nd_chain N) h = None \<and>
     kv_get (nd_kv N) (key_undo h) = None \<and> kv_get (nd_kv N) (key_block h) = None"

definition env_ok :: "'z chain_env_scheme \<Rightarrow> bool" where
  "env_ok E \<longleftrightarrow> bincode_ok E \<and> block_codec_ok E"

lemma node_invD:
  assumes "node_inv E N"
  shows "chain_inv (nd_chain N)" "bt_has (cs_entries (nd_chain N)) hash_zero" "store_ok E (nd_kv N)"
    "entry_keys_ok (nd_kv N)" "archive_ok E (nd_kv N)" "pool_inv (nd_pool N)" "bt_ok (nd_kv N)"
    "\<And>n. kv_get (nd_kv N) (key_height n) \<noteq> None \<Longrightarrow> unat n \<le> height_of (nd_chain N) (cs_tip (nd_chain N))"
  using assms unfolding node_inv_def store_ok_def by blast+

lemma tip_exists: "chain_inv s \<Longrightarrow> \<exists>t. tip_entry s = Some t \<and> ce_hash t = cs_tip s \<and> height_of s (cs_tip s) = unat (ce_height t)"
  by (auto simp: chain_inv_def final_inv_def tree_inv_def tip_entry_def height_of_def)

definition tip_height :: "node \<Rightarrow> nat" where
  "tip_height N = height_of (nd_chain N) (cs_tip (nd_chain N))"

text \<open>What holds once a block has passed every check that can refuse it.\<close>

definition connects ::
  "'z chain_env_scheme \<Rightarrow> node_config \<Rightarrow> block \<Rightarrow> node \<Rightarrow> block_hash \<Rightarrow> kv_store \<Rightarrow> chain_state \<Rightarrow> bool" where
  "connects E cfg b N h m cs \<longleftrightarrow>
     block_validate_structure E b = Inr () \<and> block_hash_of E b = Inr h \<and>
     bh_prev_hash (blk_header b) = cs_tip (nd_chain N) \<and> unat (bh_height (blk_header b)) = Suc (tip_height N) \<and>
     (\<exists>fees. validate_block_rewards E b (nd_kv N) (pp_monetary (nc_params cfg))
        (k_finality (pp_consensus (nc_params cfg))) = Some (Inr fees)) \<and>
     apply_block E b (nd_kv N) = Inr m \<and>
     (nc_enforce_utxo_commitment cfg \<longrightarrow> utxo_commitment_root E m = Inr (bh_utxo_commitment (blk_header b))) \<and>
     chain_inv cs \<and> cs_entries cs = bt_insert h (chain_entry_of h b) (cs_entries (nd_chain N)) \<and>
     cs_tip cs = h \<and> tip_entry cs = Some (chain_entry_of h b)"

lemma rewards_total:
  assumes "halving_interval_blocks mon \<noteq> 0"
  shows "\<exists>r. validate_block_rewards E b m mon k = Some r"
proof -
  have "\<exists>x. total_block_reward h f mon = Some x" for h f
    using block_subsidy_at [OF assms, of h] by (auto simp: total_block_reward_def capped_subsidy_def)
  then have "total_block_reward h f mon \<noteq> None" for h f by (metis option.distinct(1))
  then show ?thesis by (auto simp: validate_block_rewards_def Let_def split: sum.splits option.splits)
qed

lemma roll_back_restores:
  assumes "env_ok E" and "store_ok E m" and "apply_block E b m = Inr m'" and "block_hash_of E b = Inr h"
    and "kv_get m (key_undo h) = None"
  shows "roll_back E b m' = m"
  using us.undo [of E m b m'] assms by (simp add: roll_back_def env_ok_def undo_logged_def)

text \<open>The commitment check of a fresh block either leaves the applied store or restores the old one.\<close>

lemma check_commitment_cases:
  assumes "env_ok E" and "store_ok E m" and "entry_keys_ok m" and "apply_block E b m = Inr m'"
    and "block_hash_of E b = Inr h" and "kv_get m (key_undo h) = None"
  shows "(\<exists>e. check_commitment E cfg b m' = (Inl e, m)) \<or> check_commitment E cfg b m' = (Inr (), m') \<and>
    (nc_enforce_utxo_commitment cfg \<longrightarrow> utxo_commitment_root E m' = Inr (bh_utxo_commitment (blk_header b)))"
proof -
  have bt: "bt_ok m" using assms(2) by (simp add: store_ok_def)
  obtain c where "utxo_commitment_root E m' = Inr c"
    using commitment_total [OF _ apply_block_store_ok [OF assms(2,4)] apply_block_entry_keys [OF assms(3) bt _ assms(4)]]
      assms(1) by (auto simp: env_ok_def)
  then show ?thesis
    using roll_back_restores [OF assms(1,2,4-6)]
    by (cases "c = bh_utxo_commitment (blk_header b)") (simp_all add: check_commitment_def)
qed

section \<open>The block handler\<close>

lemma linkage_cases:
  assumes "chain_inv cs" and "height_of cs (cs_tip cs) + 1 < 2 ^ 64"
  shows "(\<exists>e. validate_chain_linkage cs b = Some (Inl e)) \<or>
    (validate_chain_linkage cs b = Some (Inr ()) \<and> bh_prev_hash (blk_header b) = cs_tip cs \<and>
     unat (bh_height (blk_header b)) = Suc (height_of cs (cs_tip cs)))"
proof -
  obtain t where t: "tip_entry cs = Some t" "ce_hash t = cs_tip cs" "height_of cs (cs_tip cs) = unat (ce_height t)"
    using tip_exists [OF assms(1)] by blast
  then obtain x where x: "checked_add_w (ce_height t) 1 = Some x" "unat x = Suc (unat (ce_height t))"
    using assms(2) by (cases "checked_add_w (ce_height t) 1") (auto simp: int_simps)
  show ?thesis
    using t x by (auto simp: validate_chain_linkage_def fail_if_def)
qed

text \<open>
  Every run of the handler on a block that is new, or old and at most as high as the tip, ends in one of three ways: refused with the node
  untouched, accepted and stored, or accepted and refused by the block store.
\<close>

lemma handle_block_outcome:
  assumes env: "env_ok E" and inv: "node_inv E N" and halving: "halving_interval_blocks (pp_monetary (nc_params cfg)) \<noteq> 0"
    and room: "tip_height N + 1 < 2 ^ 64" and fresh: "\<And>h. block_hash_of E b = Inr h \<Longrightarrow> fresh_hash N h \<or> unat (bh_height (blk_header b)) \<le> tip_height N"
  obtains (refused) e where "handle_block E cfg b N = Some (Inl e, N)"
    | (committed) h m cs where "connects E cfg b N h m cs" and "fresh_hash N h"
      and "handle_block E cfg b N = Some (case put_block E b m of
         Inl e \<Rightarrow> (Inl (NodeStorage e), N\<lparr>nd_kv := m, nd_chain := cs\<rparr>)
       | Inr (_, m') \<Rightarrow> (Inr (), N\<lparr>nd_kv := m', nd_chain := cs,
           nd_pool := (if spent_outpoints b = [] then nd_pool N
                       else snd (remove_confirmed (spent_outpoints b) (nd_pool N)))\<rparr>))"
proof -
  note i = node_invD [OF inv]
  obtain rw where rw: "validate_block_rewards E b (nd_kv N) (pp_monetary (nc_params cfg))
      (k_finality (pp_consensus (nc_params cfg))) = Some rw" using rewards_total [OF halving] by blast
  note link = linkage_cases [OF i(1), of b, folded tip_height_def, OF room]
  have "(\<exists>e. handle_block E cfg b N = Some (Inl e, N)) \<or>
      (\<exists>h m fees. block_validate_structure E b = Inr () \<and> block_hash_of E b = Inr h \<and>
        validate_chain_linkage (nd_chain N) b = Some (Inr ()) \<and> rw = Inr fees \<and> apply_block E b (nd_kv N) = Inr m)"
    using link rw
    by (cases "block_validate_structure E b"; cases "block_hash_of E b"; cases rw; cases "apply_block E b (nd_kv N)")
      (auto simp: handle_block_def)
  then consider (bad) "\<exists>e. handle_block E cfg b N = Some (Inl e, N)"
    | (good) h m fees where "block_validate_structure E b = Inr ()" "block_hash_of E b = Inr h"
        "validate_chain_linkage (nd_chain N) b = Some (Inr ())" "rw = Inr fees" "apply_block E b (nd_kv N) = Inr m"
    by blast
  then show ?thesis
  proof cases
    case bad
    then show ?thesis using refused by blast
  next
    case (good h m fees)
    have l: "bh_prev_hash (blk_header b) = cs_tip (nd_chain N)" "unat (bh_height (blk_header b)) = Suc (tip_height N)"
      using link good(3) by (auto simp: tip_height_def)
    then have fr: "fresh_hash N h" using fresh [OF good(2)] by simp
    obtain t where t: "tip_entry (nd_chain N) = Some t" "ce_hash t = cs_tip (nd_chain N)" "tip_height N = unat (ce_height t)"
      using tip_exists [OF i(1)] by (auto simp: tip_height_def)
    have "h \<noteq> hash_zero" using fr i(2) by (auto simp: fresh_hash_def chain_get_def)
    then obtain ch cs where add: "add_block (nd_chain N) (chain_entry_of h b) = Some (Inr (ch, cs))" "chain_inv cs"
        "cs_entries cs = bt_insert h (chain_entry_of h b) (cs_entries (nd_chain N))" "cs_tip cs = h"
        "tip_entry cs = Some (chain_entry_of h b)"
      using add_tip_child [OF i(1) t(1), of "chain_entry_of h b"] l t fr
      by (auto simp: chain_entry_of_def fresh_hash_def chain_get_def)
    have handle: "handle_block E cfg b N = (case check_commitment E cfg b m of
        (Inl e, m') \<Rightarrow> Some (Inl e, N\<lparr>nd_kv := m'\<rparr>)
      | (Inr _, m') \<Rightarrow> commit_block E b h (N\<lparr>nd_kv := m'\<rparr>))"
      using good rw by (simp add: handle_block_def)
    have "kv_get (nd_kv N) (key_undo h) = None" using fr by (simp add: fresh_hash_def)
    from check_commitment_cases [OF env i(3,4) good(5,2) this, of cfg] show ?thesis
    proof
      assume "\<exists>e. check_commitment E cfg b m = (Inl e, nd_kv N)"
      then obtain e where "check_commitment E cfg b m = (Inl e, nd_kv N)" ..
      then show ?thesis using handle by (intro refused [of e]) simp
    next
      assume c: "check_commitment E cfg b m = (Inr (), m) \<and> (nc_enforce_utxo_commitment cfg \<longrightarrow>
        utxo_commitment_root E m = Inr (bh_utxo_commitment (blk_header b)))"
      have "connects E cfg b N h m cs" unfolding connects_def using good l rw add c by auto
      then show ?thesis
        using handle c add(1) fr by (intro committed) (auto simp: commit_block_def split: sum.splits)
    qed
  qed
qed

lemma connects_keeps:
  assumes inv: "node_inv E N" and env: "env_ok E" and con: "connects E cfg b N h m cs" and fresh: "fresh_hash N h"
  shows "node_inv E (N\<lparr>nd_kv := m, nd_chain := cs\<rparr>)" and "height_of cs (cs_tip cs) = Suc (tip_height N)"
    and "kv_get m (key_block h) = None" and "kv_get m (key_height (bh_height (blk_header b))) = None"
    and "x \<noteq> h \<Longrightarrow> fresh_hash N x \<Longrightarrow> fresh_hash (N\<lparr>nd_kv := m, nd_chain := cs\<rparr>) x"
proof -
  note i = node_invD [OF inv]
  have ap: "apply_block E b (nd_kv N) = Inr m" and h: "block_hash_of E b = Inr h"
    and ht: "unat (bh_height (blk_header b)) = Suc (tip_height N)"
    and cs: "chain_inv cs" "cs_entries cs = bt_insert h (chain_entry_of h b) (cs_entries (nd_chain N))" "cs_tip cs = h"
      "tip_entry cs = Some (chain_entry_of h b)" using con by (simp_all add: connects_def)
  have bt: "bt_ok (cs_entries (nd_chain N))" using i(1) by (simp add: chain_inv_def tree_inv_def)
  have keep: "kv_get m (key_block k) = kv_get (nd_kv N) (key_block k)"
    "kv_get m (key_height n) = kv_get (nd_kv N) (key_height n)" for k n
    by (rule apply_block_other_key [OF i(7) ap]; simp add: key_simps)+
  show top: "height_of cs (cs_tip cs) = Suc (tip_height N)"
    using cs(3,4) ht by (simp add: height_of_def tip_entry_def chain_entry_of_def)
  have st: "store_ok E m" using apply_block_store_ok [OF i(3) ap] .
  have "archive_ok E m" using i(5) st unfolding archive_ok_def keep by (simp add: store_ok_def)
  moreover have "entry_keys_ok m" using apply_block_entry_keys [OF i(4,7) _ ap] env by (simp add: env_ok_def)
  moreover have "unat n \<le> Suc (tip_height N)" if "kv_get m (key_height n) \<noteq> None" for n
    using i(8) [of n] that unfolding keep tip_height_def by simp
  moreover have "bt_has (cs_entries cs) hash_zero" using cs(2) i(2) bt by (simp add: bt_simps)
  ultimately show "node_inv E (N\<lparr>nd_kv := m, nd_chain := cs\<rparr>)"
    using cs(1) st i(6) top by (simp add: node_inv_def)
  show "kv_get m (key_block h) = None" using fresh unfolding keep by (simp add: fresh_hash_def)
  show "kv_get m (key_height (bh_height (blk_header b))) = None"
    using i(8) [of "bh_height (blk_header b)"] ht unfolding keep tip_height_def by fastforce
  show "fresh_hash (N\<lparr>nd_kv := m, nd_chain := cs\<rparr>) x" if "x \<noteq> h" "fresh_hash N x"
    using that apply_undo_key [OF i(7) ap, of x] h cs(2) bt
    by (simp add: fresh_hash_def keep chain_get_def bt_simps)
qed

lemma stored_keeps:
  assumes inv: "node_inv E N" and env: "env_ok E" and put: "put_block E b (nd_kv N) = Inr (h, m)"
    and ht: "unat (bh_height (blk_header b)) \<le> tip_height N" and pool: "pool_inv P"
  shows "node_inv E (N\<lparr>nd_kv := m, nd_pool := P\<rparr>)" and "utxo_view E m = utxo_view E (nd_kv N)"
    and "get_block E m h = Inr (Some b)"
    and "x \<noteq> h \<Longrightarrow> fresh_hash N x \<Longrightarrow> fresh_hash (N\<lparr>nd_kv := m, nd_pool := P\<rparr>) x"
proof -
  note i = node_invD [OF inv]
  have codec: "block_codec_ok E \<and> archive_ok E (nd_kv N)" using env i(5) by (simp add: env_ok_def)
  obtain bs where bs: "ser_block E b = Inr bs" and get: "kv_get m =
      (kv_get (nd_kv N))(key_block h \<mapsto> bs, key_height (bh_height (blk_header b)) \<mapsto> hbytes h)"
    using archive_put [OF i(5) put] by blast
  have "unat n \<le> tip_height N" if "kv_get m (key_height n) \<noteq> None" for n
    using that i(8) [of n] ht unfolding get by (auto simp: key_simps tip_height_def split: if_splits)
  then show "node_inv E (N\<lparr>nd_kv := m, nd_pool := P\<rparr>)"
    using i(1,2) pool put_block_store_ok(1) [OF put i(3)] put_block_entry_keys [OF put i(7,4)] ar.ok_put [OF codec put]
    by (simp add: node_inv_def tip_height_def)
  show "utxo_view E m = utxo_view E (nd_kv N)" using put_block_store_ok(2) [OF put i(3)] .
  show "get_block E m h = Inr (Some b)"
    using codec bs by (simp add: get_block_def get key_simps decode_with_def block_codec_ok_def)
  show "fresh_hash (N\<lparr>nd_kv := m, nd_pool := P\<rparr>) x" if "x \<noteq> h" "fresh_hash N x"
    using that by (simp add: fresh_hash_def get key_simps)
qed

lemma put_connected:
  assumes "connects E cfg b N h m cs" and "kv_get m (key_block h) = None"
    and "kv_get m (key_height (bh_height (blk_header b))) = None"
  shows "(\<exists>msg. put_block E b m = Inl (EncodeErr msg) \<and> ser_block E b = Inl msg) \<or> (\<exists>m'. put_block E b m = Inr (h, m'))"
proof -
  have "block_validate_structure E b = Inr ()" "block_hash_of E b = Inr h" using assms(1) by (simp_all add: connects_def)
  from put_block_new [OF this assms(2,3)] show ?thesis
    by (cases "ser_block E b") (auto simp: encode_with_def)
qed

text \<open>One block, in the form the properties use.\<close>

lemma handle_block_step:
  assumes env: "env_ok E" and inv: "node_inv E N" and halving: "halving_interval_blocks (pp_monetary (nc_params cfg)) \<noteq> 0"
    and room: "tip_height N + 1 < 2 ^ 64" and fresh: "\<And>h. block_hash_of E b = Inr h \<Longrightarrow> fresh_hash N h \<or> unat (bh_height (blk_header b)) \<le> tip_height N"
  obtains (refused) e where "handle_block E cfg b N = Some (Inl e, N)"
    | (advanced) r N' h m cs where "handle_block E cfg b N = Some (r, N')" and "connects E cfg b N h m cs"
      and "node_inv E N'" and "nd_chain N' = cs" and "utxo_view E (nd_kv N') = utxo_view E m"
      and "tip_height N' = Suc (tip_height N)"
      and "\<And>x. x \<noteq> h \<Longrightarrow> fresh_hash N x \<Longrightarrow> fresh_hash N' x"
      and "r = Inr () \<and> get_block E (nd_kv N') h = Inr (Some b) \<and>
          (\<forall>t e. pool_get (nd_pool N') t = Some e \<longleftrightarrow> pool_get (nd_pool N) t = Some e \<and>
             set (entry_outpoints e) \<inter> set (spent_outpoints b) = {}) \<or>
        (\<exists>msg. r = Inl (NodeStorage (EncodeErr msg)) \<and> ser_block E b = Inl msg)"
proof (rule handle_block_outcome [OF env inv halving room fresh])
  fix e assume "handle_block E cfg b N = Some (Inl e, N)"
  then show ?thesis by (rule refused)
next
  fix h m cs
  assume con: "connects E cfg b N h m cs" and fr: "fresh_hash N h"
    and handle: "handle_block E cfg b N = Some (case put_block E b m of
         Inl e \<Rightarrow> (Inl (NodeStorage e), N\<lparr>nd_kv := m, nd_chain := cs\<rparr>)
       | Inr (_, m') \<Rightarrow> (Inr (), N\<lparr>nd_kv := m', nd_chain := cs,
           nd_pool := (if spent_outpoints b = [] then nd_pool N
                       else snd (remove_confirmed (spent_outpoints b) (nd_pool N)))\<rparr>))"
  let ?N1 = "N\<lparr>nd_kv := m, nd_chain := cs\<rparr>"
  note k = connects_keeps [OF inv env con fr]
  have top: "tip_height ?N1 = Suc (tip_height N)" using k(2) by (simp add: tip_height_def)
  from put_connected [OF con k(3,4)] show ?thesis
  proof (elim disjE exE)
    fix msg assume "put_block E b m = Inl (EncodeErr msg) \<and> ser_block E b = Inl msg"
    with handle k top show ?thesis by (intro advanced [OF _ con k(1)]) auto
  next
    fix m' assume put: "put_block E b m = Inr (h, m')"
    define P where "P = (if spent_outpoints b = [] then nd_pool N
      else snd (remove_confirmed (spent_outpoints b) (nd_pool N)))"
    have pool: "pool_inv P" "\<forall>t e. pool_get P t = Some e \<longleftrightarrow> pool_get (nd_pool N) t = Some e \<and>
        set (entry_outpoints e) \<inter> set (spent_outpoints b) = {}"
      using remove_confirmed_inv [OF node_invD(6) [OF inv] prod.collapse [symmetric], of "spent_outpoints b"]
        node_invD(6) [OF inv] unfolding P_def by (auto split: if_splits)
    have ht: "unat (bh_height (blk_header b)) \<le> tip_height ?N1" using con top by (simp add: connects_def)
    have put1: "put_block E b (nd_kv ?N1) = Inr (h, m')" using put by simp
    note s = stored_keeps [OF k(1) env put1 ht pool(1)]
    have handle': "handle_block E cfg b N = Some (Inr (), ?N1\<lparr>nd_kv := m', nd_pool := P\<rparr>)"
      using handle put by (simp add: P_def)
    show ?thesis
      by (rule advanced [OF handle' con s(1)]) (use s k top pool in \<open>auto simp: tip_height_def\<close>)
  qed
qed

text \<open>
  C2. The block handler is atomic. On a node whose parts agree, a block with a new hash, or one not
  above the tip, is either refused with the node exactly as before, or accepted: it is the new tip one height up, extends the
  old tip, is connected to the UTXO set with the header's commitment (when enforced), can be read
  back, and the pool keeps exactly the transactions that do not conflict with it. The one error that
  comes after acceptance is a block the store cannot encode. The handler always returns and the
  parts still agree.
\<close>

theorem handle_block_atomic:
  assumes "env_ok E" and "node_inv E N" and "halving_interval_blocks (pp_monetary (nc_params cfg)) \<noteq> 0"
    and "tip_height N + 1 < 2 ^ 64" and "\<And>h. block_hash_of E b = Inr h \<Longrightarrow> fresh_hash N h \<or> unat (bh_height (blk_header b)) \<le> tip_height N"
  shows "\<exists>r N'. handle_block E cfg b N = Some (r, N') \<and> node_inv E N' \<and>
    ((\<exists>e. r = Inl e) \<and> N' = N \<or>
     (\<exists>h m. block_hash_of E b = Inr h \<and> bh_prev_hash (blk_header b) = cs_tip (nd_chain N) \<and>
        cs_tip (nd_chain N') = h \<and> tip_height N' = Suc (tip_height N) \<and>
        apply_block E b (nd_kv N) = Inr m \<and> utxo_view E (nd_kv N') = utxo_view E m \<and>
        (nc_enforce_utxo_commitment cfg \<longrightarrow> utxo_commitment_root E m = Inr (bh_utxo_commitment (blk_header b))) \<and>
        (r = Inr () \<and> get_block E (nd_kv N') h = Inr (Some b) \<and>
           (\<forall>t e. pool_get (nd_pool N') t = Some e \<longleftrightarrow> pool_get (nd_pool N) t = Some e \<and>
              set (entry_outpoints e) \<inter> set (spent_outpoints b) = {}) \<or>
         (\<exists>msg. r = Inl (NodeStorage (EncodeErr msg)) \<and> ser_block E b = Inl msg))))"
proof (rule handle_block_step [OF assms])
  fix e assume "handle_block E cfg b N = Some (Inl e, N)"
  then show ?thesis using assms(2) by blast
next
  fix r N' h m cs
  assume a: "handle_block E cfg b N = Some (r, N')" "connects E cfg b N h m cs" "node_inv E N'" "nd_chain N' = cs"
    "utxo_view E (nd_kv N') = utxo_view E m" "tip_height N' = Suc (tip_height N)"
    and r: "r = Inr () \<and> get_block E (nd_kv N') h = Inr (Some b) \<and>
          (\<forall>t e. pool_get (nd_pool N') t = Some e \<longleftrightarrow> pool_get (nd_pool N) t = Some e \<and>
             set (entry_outpoints e) \<inter> set (spent_outpoints b) = {}) \<or>
        (\<exists>msg. r = Inl (NodeStorage (EncodeErr msg)) \<and> ser_block E b = Inl msg)"
  have "block_hash_of E b = Inr h" "bh_prev_hash (blk_header b) = cs_tip (nd_chain N)" "cs_tip (nd_chain N') = h"
    "apply_block E b (nd_kv N) = Inr m"
    "nc_enforce_utxo_commitment cfg \<longrightarrow> utxo_commitment_root E m = Inr (bh_utxo_commitment (blk_header b))"
    using a(2,4) by (auto simp: connects_def)
  with a(1,3,5,6) r show ?thesis by blast
qed

section \<open>Runs of the event loop\<close>

lemma handle_tx_keeps:
  assumes inv: "node_inv E N" and tx: "handle_tx E cfg now tx N = Some (accepted, N')"
  shows "node_inv E N' \<and> nd_kv N' = nd_kv N \<and> nd_chain N' = nd_chain N"
proof -
  obtain t where t: "tip_entry (nd_chain N) = Some t" using tip_exists node_invD(1) [OF inv] by blast
  let ?c = "check_coinbase_maturity E tx (nd_kv N) (height_next (ce_height t)) (k_finality (pp_consensus (nc_params cfg)))"
    and ?v = "validate_transaction E tx (nd_kv N) (ce_slot t) (nc_min_fee_rate cfg)"
  consider "N' = N" | v r P where "insert_validated_tx E now (nd_pool N) tx v = Some (r, P)" "N' = N\<lparr>nd_pool := P\<rparr>"
  proof (cases ?c)
    case (Inl e)
    then show ?thesis using tx t that(1) by (simp add: handle_tx_def)
  next
    case (Inr u)
    with tx t obtain w where w: "?v = Some w" by (auto simp: handle_tx_def bind_eq_Some_conv)
    show ?thesis
    proof (cases w)
      case (Inl e)
      then show ?thesis using tx t Inr w that(1) by (simp add: handle_tx_def)
    next
      case (Inr v)
      then show ?thesis using tx t \<open>?c = Inr u\<close> w that(2) by (auto simp: handle_tx_def)
    qed
  qed
  then show ?thesis
  proof cases
    case (2 v r P)
    then obtain r' e where add: "pool_add now e (nd_pool N) = Some (r', P)" by (auto simp: insert_validated_tx_def)
    have "pool_inv P" using node_invD(6) [OF inv]
      by (cases rule: pool_add_cases [where now = now and e = e]) (use add node_invD(6) [OF inv] in auto)
    then show ?thesis using inv 2(2) by (simp add: node_inv_def)
  qed (use inv in simp)
qed

text \<open>The value emitted up to a height, and its growth by one capped subsidy.\<close>

definition emitted :: "monetary_params \<Rightarrow> nat \<Rightarrow> nat" where
  "emitted mon n = unat (cumulative_emission (of_nat n) mon)"

lemma emitted_Suc:
  assumes "halving_interval_blocks mon \<noteq> 0" and "unat h = Suc n" and "n + 2 < 2 ^ 64"
    and "capped_subsidy h mon = Some s"
  shows "emitted mon (Suc n) = emitted mon n + unat s"
proof -
  let ?S = "\<Sum>i<Suc n. subsidy_at mon i" and ?T = "unat (total_supply mon)"
  have u: "unat (of_nat k :: u64) = k" if "k \<le> Suc n" for k
    by (rule unat_of_nat_small) (use that assms(3) in simp)
  have e: "emitted mon k = min (\<Sum>i<Suc k. subsidy_at mon i) ?T" if "k \<le> Suc n" for k
    using cumulative_emission_value [OF assms(1), of "of_nat k"] u [OF that] that assms(3)
    by (simp add: emitted_def lessThan_Suc_atMost)
  have "unat s = min (subsidy_at mon (Suc n)) (?T - ?S)"
    using capped_subsidy_value [OF assms(1), of h] assms(2-4) by auto
  moreover have "(\<Sum>i<Suc (Suc n). subsidy_at mon i) = ?S + subsidy_at mon (Suc n)" by simp
  ultimately show ?thesis using e [of n] e [of "Suc n"] by simp
qed

lemma emitted_le_supply: "emitted mon n \<le> unat (total_supply mon)"
  unfolding emitted_def cumulative_emission_def by (simp add: unat_mono flip: word_le_nat_alt)

text \<open>The blocks of a run, and what is asked of their hashes: no two blocks of different height share one.\<close>

definition run_blocks :: "(u64 \<times> node_event) list \<Rightarrow> block set" where
  "run_blocks evs = {b. \<exists>now. (now, BlockReceived b) \<in> set evs}"

definition offered_ok :: "'z chain_env_scheme \<Rightarrow> node \<Rightarrow> block set \<Rightarrow> bool" where
  "offered_ok E N B \<longleftrightarrow>
     (\<forall>b \<in> B. \<forall>h. block_hash_of E b = Inr h \<longrightarrow>
        (fresh_hash N h \<or> unat (bh_height (blk_header b)) \<le> tip_height N) \<and>
        (\<forall>c \<in> B. block_hash_of E c = Inr h \<longrightarrow> bh_height (blk_header c) = bh_height (blk_header b)))"

lemma offered_okD:
  assumes "offered_ok E N B" and "b \<in> B" and "block_hash_of E b = Inr h"
  shows "fresh_hash N h \<or> unat (bh_height (blk_header b)) \<le> tip_height N"
    and "\<And>c. c \<in> B \<Longrightarrow> block_hash_of E c = Inr h \<Longrightarrow> bh_height (blk_header c) = bh_height (blk_header b)"
  using assms unfolding offered_ok_def by blast+

text \<open>One event keeps the invariant, and the ledger grows by at most what is emitted.\<close>

lemma node_step_keeps:
  assumes env: "env_ok E" and inv: "node_inv E N" and halving: "halving_interval_blocks (pp_monetary (nc_params cfg)) \<noteq> 0"
    and room: "tip_height N + 2 < 2 ^ 64" and off: "offered_ok E N B" and ev: "\<And>b. ev = BlockReceived b \<Longrightarrow> b \<in> B"
    and step: "node_step E cfg now ev N = Some (out, N')"
  shows "node_inv E N' \<and> offered_ok E N' B \<and> tip_height N \<le> tip_height N' \<and> tip_height N' \<le> Suc (tip_height N) \<and>
    ledger_total (utxo_view E (nd_kv N')) + emitted (pp_monetary (nc_params cfg)) (tip_height N) \<le>
      ledger_total (utxo_view E (nd_kv N)) + emitted (pp_monetary (nc_params cfg)) (tip_height N')"
proof (cases ev)
  case (BlockReceived b)
  have b: "b \<in> B" using ev BlockReceived by blast
  from step BlockReceived obtain r where hb: "handle_block E cfg b N = Some (r, N')"
    by (auto simp: node_step_def)
  have fresh: "fresh_hash N h \<or> unat (bh_height (blk_header b)) \<le> tip_height N" if "block_hash_of E b = Inr h" for h
    using offered_okD(1) [OF off b that] .
  have room': "tip_height N + 1 < 2 ^ 64" using room by simp
  show ?thesis
  proof (rule handle_block_step [OF env inv halving room' fresh])
    fix e assume "handle_block E cfg b N = Some (Inl e, N)"
    then show ?thesis using hb inv off by simp
  next
    fix r' N1 h m cs
    assume "handle_block E cfg b N = Some (r', N1)" and con: "connects E cfg b N h m cs" and "node_inv E N1"
      and view: "utxo_view E (nd_kv N1) = utxo_view E m" and "tip_height N1 = Suc (tip_height N)"
      and fr: "\<And>x. x \<noteq> h \<Longrightarrow> fresh_hash N x \<Longrightarrow> fresh_hash N1 x"
    with hb have N': "N' = N1" "node_inv E N1" "tip_height N1 = Suc (tip_height N)" by simp_all
    obtain fees where ap: "apply_block E b (nd_kv N) = Inr m" "block_hash_of E b = Inr h"
      and ht: "unat (bh_height (blk_header b)) = Suc (tip_height N)"
      and rw: "validate_block_rewards E b (nd_kv N) (pp_monetary (nc_params cfg))
        (k_finality (pp_consensus (nc_params cfg))) = Some (Inr fees)" using con by (auto simp: connects_def)
    obtain s where s: "capped_subsidy (bh_height (blk_header b)) (pp_monetary (nc_params cfg)) = Some s"
      using block_subsidy_at [OF halving, of "bh_height (blk_header b)"] by (auto simp: capped_subsidy_def)
    have nz: "bh_height (blk_header b) \<noteq> 0" using ht by (metis nat.distinct(1) unsigned_0)
    have "ledger_total (utxo_view E m) \<le> ledger_total (utxo_view E (nd_kv N)) + unat s"
      using rewards_bound [OF _ node_invD(7) [OF inv] nz rw ap(1) s] env by (simp add: env_ok_def)
    then have val: "ledger_total (utxo_view E (nd_kv N1)) + emitted (pp_monetary (nc_params cfg)) (tip_height N) \<le>
      ledger_total (utxo_view E (nd_kv N)) + emitted (pp_monetary (nc_params cfg)) (tip_height N1)"
      unfolding view using emitted_Suc [OF halving ht _ s] room N'(3) by simp
    have "offered_ok E N1 B"
      unfolding offered_ok_def
    proof (intro ballI allI impI conjI)
      fix c x assume c: "c \<in> B" "block_hash_of E c = Inr x"
      show "fresh_hash N1 x \<or> unat (bh_height (blk_header c)) \<le> tip_height N1"
      proof (cases "x = h")
        case True
        then have "bh_height (blk_header c) = bh_height (blk_header b)" using offered_okD(2) [OF off b ap(2) c(1)] c(2) by simp
        then show ?thesis using ht N'(3) by simp
      next
        case False
        then show ?thesis using offered_okD(1) [OF off c] fr [OF False] N'(3) by linarith
      qed
    next
      fix b1 x c assume "b1 \<in> B" "block_hash_of E b1 = Inr x" "c \<in> B" "block_hash_of E c = Inr x"
      then show "bh_height (blk_header c) = bh_height (blk_header b1)" using offered_okD(2) [OF off] by blast
    qed
    then show ?thesis using N' val by simp
  qed
next
  case (TxReceived tx)
  with step obtain acc where "handle_tx E cfg now tx N = Some (acc, N')" by (auto simp: node_step_def)
  note k = handle_tx_keeps [OF inv this]
  then have same: "tip_height N' = tip_height N" "fresh_hash N' = fresh_hash N"
    by (simp_all add: tip_height_def fresh_hash_def fun_eq_iff)
  have "offered_ok E N' B" using off unfolding offered_ok_def same .
  with k same(1) show ?thesis by simp
qed (use inv off step in \<open>simp add: node_step_def\<close>)

lemma node_run_keeps:
  assumes "env_ok E" and "halving_interval_blocks (pp_monetary (nc_params cfg)) \<noteq> 0"
    and "node_inv E N" and "tip_height N + length evs + 1 < 2 ^ 64" and "offered_ok E N B" and "run_blocks evs \<subseteq> B"
    and "node_run E cfg evs N = Some (out, N')"
  shows "node_inv E N' \<and> tip_height N \<le> tip_height N' \<and>
    ledger_total (utxo_view E (nd_kv N')) + emitted (pp_monetary (nc_params cfg)) (tip_height N) \<le>
      ledger_total (utxo_view E (nd_kv N)) + emitted (pp_monetary (nc_params cfg)) (tip_height N')"
  using assms(3-)
proof (induction evs arbitrary: N out)
  case (Cons x evs)
  obtain now ev where x: "x = (now, ev)" by (cases x)
  show ?case
  proof (cases "ev = Shutdown")
    case False
    with Cons.prems(5) x obtain o1 N1 o2 where step: "node_step E cfg now ev N = Some (o1, N1)"
      and run: "node_run E cfg evs N1 = Some (o2, N')" by (auto simp: bind_eq_Some_conv)
    have ev: "b \<in> B" if "ev = BlockReceived b" for b using Cons.prems(4) that x by (auto simp: run_blocks_def)
    note k = node_step_keeps [OF assms(1) Cons.prems(1) assms(2) _ Cons.prems(3) ev step]
    have k': "node_inv E N1" "offered_ok E N1 B" "tip_height N \<le> tip_height N1" "tip_height N1 \<le> Suc (tip_height N)"
      "ledger_total (utxo_view E (nd_kv N1)) + emitted (pp_monetary (nc_params cfg)) (tip_height N) \<le>
      ledger_total (utxo_view E (nd_kv N)) + emitted (pp_monetary (nc_params cfg)) (tip_height N1)"
      using k Cons.prems(2) by simp_all
    have "run_blocks evs \<subseteq> B" using Cons.prems(4) by (auto simp: run_blocks_def)
    from Cons.IH [OF k'(1) _ k'(2) this run] k'(3-5) Cons.prems(2) show ?thesis by simp
  qed (use Cons.prems x in simp)
qed simp

text \<open>
  C1. No inflation. Whatever blocks and transactions a node receives, its parts keep agreeing, its
  tip never goes back, and the value of all unspent outputs grows by at most the emission between
  the two tip heights; over any run it grows by at most the total supply.
\<close>

theorem node_supply_bounded:
  assumes "env_ok E" and "node_inv E N" and "halving_interval_blocks (pp_monetary (nc_params cfg)) \<noteq> 0"
    and "tip_height N + length evs + 1 < 2 ^ 64" and "offered_ok E N (run_blocks evs)"
    and "node_run E cfg evs N = Some (out, N')"
  shows "node_inv E N' \<and> tip_height N \<le> tip_height N' \<and>
    ledger_total (utxo_view E (nd_kv N')) + emitted (pp_monetary (nc_params cfg)) (tip_height N) \<le>
      ledger_total (utxo_view E (nd_kv N)) + emitted (pp_monetary (nc_params cfg)) (tip_height N') \<and>
    ledger_total (utxo_view E (nd_kv N')) \<le>
      ledger_total (utxo_view E (nd_kv N)) + unat (total_supply (pp_monetary (nc_params cfg)))"
proof -
  note k = node_run_keeps [OF assms(1,3,2,4,5) subset_refl assms(6)]
  moreover have "ledger_total (utxo_view E (nd_kv N')) \<le>
      ledger_total (utxo_view E (nd_kv N)) + unat (total_supply (pp_monetary (nc_params cfg)))"
    using k emitted_le_supply [of "pp_monetary (nc_params cfg)" "tip_height N'"] by linarith
  ultimately show ?thesis by blast
qed

section \<open>A node started from genesis\<close>

text \<open>
  A node that starts from a genesis block of height 0 satisfies the invariant, and the ledger holds
  exactly the allocations.
\<close>

lemma genesis_ledger:
  assumes "bincode_ok E" and "build_genesis_block E allocations = Some g" and "apply_block E g [] = Inr m"
  shows "ledger_total (utxo_view E m) = total_of (map snd allocations)"
proof -
  let ?tx = "tx_genesis (map (\<lambda>(pk, amount). tx_output_new amount (p2pkh_pqc (pubkey_hash E pk))) allocations)"
  have txs: "blk_txs g = [?tx]" using assms(2) by (auto simp: build_genesis_block_def Let_def split: sum.splits)
  have empty: "utxo_view E [] = Map.empty" by (simp add: utxo_view_def kv_get_def fun_eq_iff)
  have "ledger_tx E ?tx Map.empty = Some (utxo_view E m)"
    using apply_block_view [OF assms(1) _ assms(3)] by (simp add: txs empty bt_ok_def bind_eq_Some_conv)
  then have "ledger_total (utxo_view E m) + (\<Sum>i\<leftarrow>tx_inputs ?tx. unat (out_value (the ((Map.empty :: ledger) (prev_output i))))) =
      ledger_total Map.empty + total_of (map out_value (tx_outputs ?tx))"
    by (rule ledger_tx_total) (simp, assumption)
  then have "ledger_total (utxo_view E m) = total_of (map out_value (tx_outputs ?tx))"
    by (simp add: tx_genesis_def ledger_total_def)
  also have "map out_value (tx_outputs ?tx) = map snd allocations"
    by (simp add: tx_genesis_def tx_output_new_def case_prod_beta o_def)
  finally show ?thesis .
qed

lemma node_new_inv:
  assumes env: "env_ok E" and g: "bh_height (blk_header g) = 0" and new: "node_new E cfg g = Inr N"
  shows "node_inv E N" and "tip_height N = 0"
proof -
  have e: "store_ok E []" "entry_keys_ok []" "archive_ok E []" "bt_ok ([] :: kv_store)"
    by (simp_all add: store_ok_def entry_keys_ok_def archive_ok_def bt_ok_def kv_get_def)
  have "utxo_len [] = 0" by (simp add: utxo_len_def kv_scan_prefix_def)
  with new obtain m1 h m2 where m1: "apply_block E g [] = Inr m1" and m2: "put_block E g m1 = Inr (h, m2)"
    and N: "N = \<lparr>nd_kv = m2, nd_chain = chain_genesis (pp_consensus (nc_params cfg)), nd_pool = pool_new pool_config_testnet\<rparr>"
    by (auto simp: node_new_def maybe_apply_genesis_def kv_new_def res_simps)
  have keep: "kv_get m1 (key_block k) = None" "kv_get m1 (key_height n) = None" for k n
    using apply_block_other_key [OF e(4) m1, of "key_block k"] apply_block_other_key [OF e(4) m1, of "key_height n"]
    by (simp_all add: key_simps kv_get_def)
  have ok1: "store_ok E m1" "entry_keys_ok m1" "bt_ok m1"
    using apply_block_store_ok [OF e(1) m1] apply_block_entry_keys [OF e(2,4) _ m1] env
    by (auto simp: env_ok_def store_ok_def)
  then have ar1: "block_codec_ok E \<and> archive_ok E m1" using env by (simp add: archive_ok_def keep env_ok_def)
  note get = archive_put [OF conjunct2 [OF ar1] m2]
  have idx: "unat n \<le> 0" if "kv_get m2 (key_height n) \<noteq> None" for n
    using that get keep g by (auto simp: key_simps split: if_splits)
  have chain: "chain_inv (nd_chain N)" unfolding N by (simp add: chain_genesis_def chain_new_inv)
  show top: "tip_height N = 0" by (simp add: N tip_height_def chain_genesis_def chain_new_def height_of_def)
  show "node_inv E N"
    using chain idx put_block_store_ok(1) [OF m2 ok1(1)] put_block_entry_keys [OF m2 ok1(3,2)] ar.ok_put [OF ar1 m2]
      pool_new_inv [of pool_config_testnet]
    by (simp add: node_inv_def N chain_genesis_def chain_new_def height_of_def pool_config_testnet_def)
qed

section \<open>Witnesses and findings\<close>

definition demo_cfg :: node_config where
  "demo_cfg = \<lparr>nc_enforce_utxo_commitment = False, nc_min_fee_rate = 0, nc_params = protocol_mainnet\<rparr>"

definition demo_node :: node where
  "demo_node =
     \<lparr>nd_kv = demo_store,
      nd_chain = chain_new \<lparr>ce_hash = hash_zero, ce_parent_hash = hash_zero, ce_height = 4, ce_slot = 0, ce_producer = hash_zero\<rparr>
        (pp_consensus protocol_mainnet),
      nd_pool = pool_new pool_config_testnet\<rparr>"

lemma demo_env_ok: "env_ok demo_chain_env"
  using demo_codec_ok demo_bincode_ok by (simp add: env_ok_def demo_chain_env_def)

lemma demo_node_inv: "node_inv demo_chain_env demo_node" and demo_tip: "tip_height demo_node = 4"
proof -
  have keys: "kv_get demo_store (key_block h) = None" "kv_get demo_store (key_height n) = None" for h n
    by (simp_all add: demo_store_def kv_get_def key_simps)
  have st: "store_ok demo_chain_env demo_store" using demo_store_ok by (simp add: demo_chain_env_def)
  have "entry_keys_ok demo_store"
    by (auto simp: entry_keys_ok_def demo_store_def kv_get_def hash_zero_def split: if_splits
        intro!: exI [of _ "OutPoint hash_zero 0"])
  moreover have "archive_ok demo_chain_env demo_store" using st by (simp add: archive_ok_def keys store_ok_def)
  ultimately show "node_inv demo_chain_env demo_node"
    using st chain_new_inv pool_new_inv [of pool_config_testnet]
    by (simp add: node_inv_def demo_node_def keys pool_config_testnet_def) (simp add: chain_new_def)
  show "tip_height demo_node = 4" by (simp add: demo_node_def tip_height_def chain_new_def height_of_def)
qed

lemma demo_params:
  "pp_monetary (nc_params demo_cfg) = monetary_mainnet" "nc_enforce_utxo_commitment demo_cfg = False"
  "halving_interval_blocks monetary_mainnet \<noteq> 0"
  by (simp_all add: demo_cfg_def protocol_mainnet_def monetary_mainnet_def)

lemma demo_header:
  "bh_height (blk_header demo_block) = 5" "bh_slot (blk_header demo_block) = 1"
  "bh_prev_hash (blk_header demo_block) = hash_zero"
  by (simp_all add: demo_block_def genesis_template_def)

lemma demo_fresh: "block_hash_of demo_chain_env demo_block = Inr h \<Longrightarrow> fresh_hash demo_node h"
proof -
  assume "block_hash_of demo_chain_env demo_block = Inr h"
  then have h: "h = Hash256 (5 # replicate 31 0)" unfolding demo_chain_env_def demo_block_hash by simp
  have "h \<noteq> hash_zero" unfolding h hash_zero_def by (auto dest: arg_cong [where f = hd])
  then show ?thesis
    by (simp add: fresh_hash_def demo_node_def chain_get_def chain_new_def demo_store_def kv_get_def key_simps)
qed

lemma demo_linkage: "validate_chain_linkage (nd_chain demo_node) demo_block = Some (Inr ())"
  by (simp add: validate_chain_linkage_def demo_node_def chain_new_def tip_entry_def demo_header checked_add_w_def fail_if_def)

lemma demo_accepted: "\<exists>N'. handle_block demo_chain_env demo_cfg demo_block demo_node = Some (Inr (), N')"
proof -
  let ?h = "Hash256 (5 # replicate 31 0) :: block_hash"
  have kv: "nd_kv demo_node = demo_store" by (simp add: demo_node_def)
  have steps: "apply_block demo_chain_env demo_block demo_store = Inr demo_store_after"
    "validate_block_rewards demo_chain_env demo_block demo_store mon k = Some (Inr 2)"
    "block_validate_structure demo_chain_env demo_block = Inr ()" "block_hash_of demo_chain_env demo_block = Inr ?h" for mon k
    unfolding demo_chain_env_def by (rule demo_apply demo_rewards demo_store_block_valid demo_block_hash)+
  have fresh: "fresh_hash demo_node ?h" using demo_fresh steps(4) .
  obtain m' where put: "put_block demo_chain_env demo_block demo_store_after = Inr (?h, m')"
    using demo_put_block [of demo_store_after] by (simp add: demo_store_after_def kv_get_def key_simps)
  have "?h \<noteq> hash_zero" using fresh node_invD(2) [OF demo_node_inv] by (auto simp: fresh_hash_def chain_get_def)
  then obtain ch cs where add: "add_block (nd_chain demo_node) (chain_entry_of ?h demo_block) = Some (Inr (ch, cs))"
    using add_tip_child [OF node_invD(1) [OF demo_node_inv], of _ "chain_entry_of ?h demo_block"] fresh
    by (auto simp: demo_node_def chain_new_def tip_entry_def chain_entry_of_def demo_header fresh_hash_def chain_get_def)
  show ?thesis
    using steps put add
    by (simp add: handle_block_def demo_linkage kv demo_params check_commitment_def commit_block_def)
qed

theorem handle_block_atomic_witness:
  "env_ok demo_chain_env \<and> node_inv demo_chain_env demo_node \<and>
   (\<exists>N'. handle_block demo_chain_env demo_cfg demo_block demo_node = Some (Inr (), N') \<and> node_inv demo_chain_env N' \<and>
      tip_height N' = 5)"
proof -
  obtain N' where N': "handle_block demo_chain_env demo_cfg demo_block demo_node = Some (Inr (), N')"
    using demo_accepted by blast
  have "halving_interval_blocks (pp_monetary (nc_params demo_cfg)) \<noteq> 0" "tip_height demo_node + 1 < 2 ^ 64"
    by (simp_all add: demo_params demo_tip)
  from handle_block_atomic [where b = demo_block, OF demo_env_ok demo_node_inv this disjI1 [OF demo_fresh]] N' demo_tip
  have "node_inv demo_chain_env N' \<and> tip_height N' = 5" by auto
  with N' show ?thesis using demo_env_ok demo_node_inv by blast
qed

theorem node_supply_bounded_witness:
  "\<exists>out N'. node_run demo_chain_env demo_cfg [(0, BlockReceived demo_block), (1, BlockReceived demo_block)] demo_node = Some (out, N') \<and>
     tip_height N' \<ge> 4 \<and>
     ledger_total (utxo_view demo_chain_env (nd_kv N')) \<le>
       ledger_total (utxo_view demo_chain_env demo_store) + unat (total_supply monetary_mainnet)"
proof -
  let ?evs = "[(0, BlockReceived demo_block), (1, BlockReceived demo_block)] :: (u64 \<times> node_event) list"
  have B: "run_blocks ?evs = {demo_block}" by (auto simp: run_blocks_def)
  have off: "offered_ok demo_chain_env demo_node (run_blocks ?evs)"
    unfolding offered_ok_def B using demo_fresh by blast
  have h: "halving_interval_blocks (pp_monetary (nc_params demo_cfg)) \<noteq> 0" by (simp add: demo_params)
  obtain N1 where N1: "handle_block demo_chain_env demo_cfg demo_block demo_node = Some (Inr (), N1)"
    using demo_accepted by blast
  then have step: "node_step demo_chain_env demo_cfg 0 (BlockReceived demo_block) demo_node = Some ([GossipBlock demo_block], N1)"
    by (simp add: node_step_def)
  have room: "tip_height demo_node + 2 < 2 ^ 64" by (simp add: demo_tip)
  have ev: "b \<in> run_blocks ?evs" if "BlockReceived demo_block = BlockReceived b" for b using that B by simp
  have k: "node_inv demo_chain_env N1" "offered_ok demo_chain_env N1 (run_blocks ?evs)" "tip_height N1 \<le> 5"
    using node_step_keeps [OF demo_env_ok demo_node_inv h room off ev step] demo_tip by simp_all
  have room1: "tip_height N1 + 1 < 2 ^ 64" using k(3) by simp
  have fr1: "fresh_hash N1 x \<or> unat (bh_height (blk_header demo_block)) \<le> tip_height N1"
    if "block_hash_of demo_chain_env demo_block = Inr x" for x
    using offered_okD(1) [OF k(2) _ that] B by simp
  obtain r N2 where "handle_block demo_chain_env demo_cfg demo_block N1 = Some (r, N2)"
    by (rule handle_block_step [OF demo_env_ok k(1) h room1 fr1])
  then have run: "node_run demo_chain_env demo_cfg ?evs demo_node = Some ([GossipBlock demo_block, GossipBlock demo_block], N2)"
    using N1 by (simp add: node_step_def)
  have "tip_height demo_node + length ?evs + 1 < 2 ^ 64" by (simp add: demo_tip)
  from node_supply_bounded [OF demo_env_ok demo_node_inv h this off run] run show ?thesis
    using demo_tip by (auto simp: demo_params demo_node_def)
qed


text \<open>
  The genesis block allocates the whole supply. The foundation allocation of a network without a
  built-in genesis equals the mainnet total supply, and the emission schedule still grants the full
  subsidy to the first block, so the supply cap limits emission only and not the sum of allocation
  and emission.
\<close>

theorem genesis_allocates_supply:
  "total_of (map snd (foundation_allocation pk)) = unat (total_supply monetary_mainnet) \<and>
   total_block_reward 1 0 monetary_mainnet = Some 5000000000"
proof -
  obtain s where s: "capped_subsidy 1 monetary_mainnet = Some s"
    and v: "unat s = min (subsidy_at monetary_mainnet 1)
      (unat (total_supply monetary_mainnet) - (\<Sum>i<1. subsidy_at monetary_mainnet i))"
    using capped_subsidy_value [of monetary_mainnet 1] demo_params(3) by auto
  have "unat s = 5000000000" unfolding v by (simp add: subsidy_at_def monetary_mainnet_def)
  then have "s = 5000000000" by (simp add: word_unat_eq_iff)
  then show ?thesis using s
    by (simp add: total_block_reward_def foundation_allocation_def monetary_mainnet_def sat_add_def)
qed

end
