(* ===== verification/QV_Amm.thy ===== *)
theory QV_Amm
  imports QV_Types
begin

text \<open>
  \<open>qv-defi/src/amm.rs\<close>: the constant-product market maker. The pool datum and its 90-byte
  canonical layout, the swap quote, the liquidity quotes and the integer square root. The
  128-bit arithmetic is kept at its width with the checks of the code; a panic (overflow of a
  plain \<open>+\<close>, division by zero) and a loop without end are the value \<open>None\<close>.
\<close>

section \<open>Data\<close>

datatype amm_error =
    AmmInsufficientLiquidity hash256
  | AmmSlippageExceeded u64 u64
  | AmmInvalidPool hash256
  | AmmDatumError string
  | AmmLpTokenMismatch u64 u64
  | AmmOverflow
  | AmmInvariantViolated u128 u128
  | AmmInvalidFee u16

record pool_datum =
  token_a_id :: hash256
  token_b_id :: hash256
  reserve_a :: u64
  reserve_b :: u64
  lp_total :: u64
  fee_bps :: u16

definition pool_datum_new :: "hash256 \<Rightarrow> hash256 \<Rightarrow> u64 \<Rightarrow> u64 \<Rightarrow> u16 \<Rightarrow> pool_datum" where
  "pool_datum_new ta tb ra rb fee =
     \<lparr>token_a_id = ta, token_b_id = tb, reserve_a = ra, reserve_b = rb, lp_total = 0, fee_bps = fee\<rparr>"

definition pool_datum_validate :: "pool_datum \<Rightarrow> (amm_error, unit) result" where
  "pool_datum_validate d = fail_if (10000 < fee_bps d) (AmmInvalidFee (fee_bps d))"

definition pool_invariant :: "pool_datum \<Rightarrow> u128" where
  "pool_invariant d = sat_mul (ucast (reserve_a d)) (ucast (reserve_b d))"

subsection \<open>The canonical layout\<close>

definition POOL_DATUM_LEN :: nat where "POOL_DATUM_LEN = 90"
definition POOL_DATUM_TOKEN_A_OFFSET :: nat where "POOL_DATUM_TOKEN_A_OFFSET = 0"
definition POOL_DATUM_TOKEN_B_OFFSET :: nat where "POOL_DATUM_TOKEN_B_OFFSET = 32"
definition POOL_DATUM_RESERVE_A_OFFSET :: nat where "POOL_DATUM_RESERVE_A_OFFSET = 64"
definition POOL_DATUM_RESERVE_B_OFFSET :: nat where "POOL_DATUM_RESERVE_B_OFFSET = 72"
definition POOL_DATUM_LP_TOTAL_OFFSET :: nat where "POOL_DATUM_LP_TOTAL_OFFSET = 80"
definition POOL_DATUM_FEE_BPS_OFFSET :: nat where "POOL_DATUM_FEE_BPS_OFFSET = 88"

lemmas pool_datum_offsets = POOL_DATUM_LEN_def POOL_DATUM_TOKEN_A_OFFSET_def
  POOL_DATUM_TOKEN_B_OFFSET_def POOL_DATUM_RESERVE_A_OFFSET_def POOL_DATUM_RESERVE_B_OFFSET_def
  POOL_DATUM_LP_TOTAL_OFFSET_def POOL_DATUM_FEE_BPS_OFFSET_def

definition pool_datum_to_canonical_bytes :: "pool_datum \<Rightarrow> bytes" where
  "pool_datum_to_canonical_bytes d =
     hbytes (token_a_id d) @ hbytes (token_b_id d) @ le_bytes 8 (unat (reserve_a d)) @
     le_bytes 8 (unat (reserve_b d)) @ le_bytes 8 (unat (lp_total d)) @ le_bytes 2 (unat (fee_bps d))"

text \<open>\<open>bytes.get(offset..offset + n)\<close>: a slice, or nothing when it reaches past the end.\<close>

definition get_slice :: "bytes \<Rightarrow> nat \<Rightarrow> nat \<Rightarrow> bytes option" where
  "get_slice bs off n = (if off + n \<le> length bs then Some (take n (drop off bs)) else None)"

definition read_hash :: "bytes \<Rightarrow> nat \<Rightarrow> string \<Rightarrow> (string, hash256) result" where
  "read_hash bs off msg = ok_or (map_option Hash256 (get_slice bs off 32)) msg"

definition read_uint :: "nat \<Rightarrow> bytes \<Rightarrow> nat \<Rightarrow> string \<Rightarrow> (string, 'a::len word) result" where
  "read_uint n bs off msg = ok_or (map_option (\<lambda>s. of_nat (le_val s)) (get_slice bs off n)) msg"

definition pool_datum_from_canonical_bytes :: "bytes \<Rightarrow> (amm_error, pool_datum) result" where
  "pool_datum_from_canonical_bytes bs =
     (if length bs \<noteq> POOL_DATUM_LEN
      then Inl (AmmDatumError (''canonical pool datum must be '' @ nat_str POOL_DATUM_LEN @
        '' bytes, got '' @ nat_str (length bs)))
      else map_err AmmDatumError
        (bind_res (read_hash bs POOL_DATUM_TOKEN_A_OFFSET ''token id slice out of range'') (\<lambda>ta.
         bind_res (read_hash bs POOL_DATUM_TOKEN_B_OFFSET ''token id slice out of range'') (\<lambda>tb.
         bind_res (read_uint 8 bs POOL_DATUM_RESERVE_A_OFFSET ''u64 slice out of range'') (\<lambda>ra.
         bind_res (read_uint 8 bs POOL_DATUM_RESERVE_B_OFFSET ''u64 slice out of range'') (\<lambda>rb.
         bind_res (read_uint 8 bs POOL_DATUM_LP_TOTAL_OFFSET ''u64 slice out of range'') (\<lambda>lp.
         bind_res (read_uint 2 bs POOL_DATUM_FEE_BPS_OFFSET ''u16 slice out of range'') (\<lambda>fee.
           Inr \<lparr>token_a_id = ta, token_b_id = tb, reserve_a = ra, reserve_b = rb,
                lp_total = lp, fee_bps = fee\<rparr>))))))))"

section \<open>Swaps\<close>

datatype swap_direction = AtoB | BtoA

record pool_state =
  ps_pool_id :: hash256
  ps_datum :: pool_datum

definition pool_state_new :: "hash256 \<Rightarrow> pool_datum \<Rightarrow> pool_state" where
  "pool_state_new pid d = \<lparr>ps_pool_id = pid, ps_datum = d\<rparr>"

text \<open>
  \<open>apply_swap\<close> mutates the state field by field: when the second check fails the first reserve
  is already updated. The result comes with the state the caller is left with.
\<close>

definition apply_swap ::
  "pool_state \<Rightarrow> swap_direction \<Rightarrow> u64 \<Rightarrow> u64 \<Rightarrow> (amm_error, unit) result \<times> pool_state" where
  "apply_swap ps dir ain aout =
     (let d = ps_datum ps in
      case dir of
        AtoB \<Rightarrow> (case checked_add_w (reserve_a d) ain of
            None \<Rightarrow> (Inl AmmOverflow, ps)
          | Some ra \<Rightarrow> (let d = d\<lparr>reserve_a := ra\<rparr> in case checked_sub_w (reserve_b d) aout of
              None \<Rightarrow> (Inl AmmOverflow, ps\<lparr>ps_datum := d\<rparr>)
            | Some rb \<Rightarrow> (Inr (), ps\<lparr>ps_datum := d\<lparr>reserve_b := rb\<rparr>\<rparr>)))
      | BtoA \<Rightarrow> (case checked_add_w (reserve_b d) ain of
            None \<Rightarrow> (Inl AmmOverflow, ps)
          | Some rb \<Rightarrow> (let d = d\<lparr>reserve_b := rb\<rparr> in case checked_sub_w (reserve_a d) aout of
              None \<Rightarrow> (Inl AmmOverflow, ps\<lparr>ps_datum := d\<rparr>)
            | Some ra \<Rightarrow> (Inr (), ps\<lparr>ps_datum := d\<lparr>reserve_a := ra\<rparr>\<rparr>))))"

definition compute_swap_output :: "u64 \<Rightarrow> u64 \<Rightarrow> u64 \<Rightarrow> u16 \<Rightarrow> (u64 \<times> u64) option" where
  "compute_swap_output reserve_in reserve_out amount_in fbps =
     (if reserve_in = 0 \<or> reserve_out = 0 \<or> amount_in = 0 then None
      else Option.bind (checked_mul_w (ucast amount_in :: u128) (ucast fbps)) (\<lambda>p.
        Option.bind (checked_div_w p 10000) (\<lambda>fee.
        if ucast amount_in < fee then None
        else Option.bind (checked_sub_w (ucast amount_in) fee) (\<lambda>net.
        Option.bind (checked_mul_w (ucast reserve_out) net) (\<lambda>numerator.
        Option.bind (checked_add_w (ucast reserve_in) net) (\<lambda>denominator.
        if denominator = 0 then None
        else Option.bind (checked_div_w numerator denominator) (\<lambda>amount_out.
        if ucast (- 1 :: u64) < amount_out then None
        else Some (ucast amount_out, ucast fee))))))))"

section \<open>Liquidity\<close>

text \<open>The \<open>while\<close> loop of \<open>sqrt_u128\<close>.\<close>

partial_function (option) newton_loop :: "u128 \<Rightarrow> u128 \<Rightarrow> u128 \<Rightarrow> u128 option" where
  "newton_loop n x y =
     (if y < x
      then (case checked_div_w n y of
              None \<Rightarrow> None
            | Some q \<Rightarrow> (case checked_add_w y q of
                None \<Rightarrow> None
              | Some s \<Rightarrow> newton_loop n y (s div 2)))
      else Some x)"

text \<open>\<open>n.div_ceil(2)\<close> is the quotient, plus one when there is a remainder.\<close>

definition sqrt_u128 :: "u128 \<Rightarrow> u128 option" where
  "sqrt_u128 n =
     (if n = 0 then Some 0
      else newton_loop n n (if n mod 2 = 0 then n div 2 else n div 2 + 1))"

definition pro_rata :: "u64 \<Rightarrow> u64 \<Rightarrow> u64 \<Rightarrow> (amm_error, u128) result" where
  "pro_rata tot part whole =
     bind_res (ok_or (checked_mul_w (ucast tot :: u128) (ucast part)) AmmOverflow) (\<lambda>p.
       ok_or (checked_div_w p (ucast whole)) AmmOverflow)"

definition lp_shares ::
  "u64 \<Rightarrow> u64 \<Rightarrow> u64 \<Rightarrow> u64 \<Rightarrow> u64 \<Rightarrow> (amm_error, u64) result option" where
  "lp_shares ra rb lp aa ab =
     (if lp = 0
      then (case checked_mul_w (ucast aa :: u128) (ucast ab) of
              None \<Rightarrow> Some (Inl AmmOverflow)
            | Some product \<Rightarrow> map_option (\<lambda>r. Inr (ucast r)) (sqrt_u128 product))
      else Some
        (bind_res (pro_rata lp aa ra) (\<lambda>share_a.
         bind_res (pro_rata lp ab rb) (\<lambda>share_b.
           let l = min share_a share_b in
           if ucast (- 1 :: u64) < l then Inl AmmOverflow else Inr (ucast l)))))"

text \<open>The returned datum has zero token identifiers and a fee of 30: the caller fills them in.\<close>

definition liquidity_datum :: "u64 \<Rightarrow> u64 \<Rightarrow> u64 \<Rightarrow> pool_datum" where
  "liquidity_datum ra rb lp =
     \<lparr>token_a_id = hash_zero, token_b_id = hash_zero, reserve_a = ra, reserve_b = rb,
      lp_total = lp, fee_bps = 30\<rparr>"

definition compute_add_liquidity ::
  "u64 \<Rightarrow> u64 \<Rightarrow> u64 \<Rightarrow> u64 \<Rightarrow> u64 \<Rightarrow> (amm_error, u64 \<times> pool_datum) result option" where
  "compute_add_liquidity ra rb lp aa ab =
     (if aa = 0 \<or> ab = 0 then Some (Inl (AmmInsufficientLiquidity hash_zero))
      else map_option (\<lambda>shares.
        bind_res shares (\<lambda>issued.
        bind_res (ok_or (checked_add_w ra aa) AmmOverflow) (\<lambda>ra'.
        bind_res (ok_or (checked_add_w rb ab) AmmOverflow) (\<lambda>rb'.
        bind_res (ok_or (checked_add_w lp issued) AmmOverflow) (\<lambda>lp'.
          Inr (issued, liquidity_datum ra' rb' lp')))))) (lp_shares ra rb lp aa ab))"

definition compute_remove_liquidity ::
  "u64 \<Rightarrow> u64 \<Rightarrow> u64 \<Rightarrow> u64 \<Rightarrow> (amm_error, u64 \<times> u64 \<times> pool_datum) result" where
  "compute_remove_liquidity ra rb lp burned =
     (if lp = 0 \<or> burned = 0 then Inl (AmmInsufficientLiquidity hash_zero)
      else if lp < burned then Inl (AmmLpTokenMismatch lp burned)
      else bind_res (pro_rata ra burned lp) (\<lambda>a.
        bind_res (pro_rata rb burned lp) (\<lambda>b.
        if ucast (- 1 :: u64) < a \<or> ucast (- 1 :: u64) < b then Inl AmmOverflow
        else bind_res (ok_or (checked_sub_w ra (ucast a)) AmmOverflow) (\<lambda>ra'.
          bind_res (ok_or (checked_sub_w rb (ucast b)) AmmOverflow) (\<lambda>rb'.
          bind_res (ok_or (checked_sub_w lp burned) AmmOverflow) (\<lambda>lp'.
            Inr (ucast a, ucast b, liquidity_datum ra' rb' lp')))))))"

section \<open>The canonical layout is a bijection\<close>

lemma get_slice_drop: "off + n \<le> length bs \<Longrightarrow> get_slice bs off n = Some (take n (drop off bs))"
  by (simp add: get_slice_def)

lemma get_slice_append:
  "get_slice (xs @ bs) off n =
     (if length xs \<le> off then get_slice bs (off - length xs) n
      else if off = 0 \<and> n = length xs then Some xs else get_slice (xs @ bs) off n)"
  by (auto simp: get_slice_def)

lemma of_nat_le_val_unat:
  assumes "LENGTH('a) = 8 * n"
  shows "of_nat (le_val (le_bytes n (unat (x :: 'a::len word)))) = x"
proof -
  have "(256 :: nat) ^ n = 2 ^ LENGTH('a)" using assms by (simp add: power_mult)
  then show ?thesis using unat_bound [of x] by (simp add: le_val_le_bytes)
qed

lemma le_bytes_of_le_val:
  assumes "LENGTH('a::len) = 8 * length bs"
  shows "le_bytes (length bs) (unat (of_nat (le_val bs) :: 'a word)) = bs"
proof -
  have "le_val bs < 2 ^ LENGTH('a)"
    using le_val_bound [of bs] assms by (simp add: power_mult)
  then show ?thesis by (simp add: unat_of_nat_small)
qed

text \<open>Reading one field after another off a byte string takes it apart without loss.\<close>

lemma take_then_drop: "take n (drop k bs) @ drop (k + n) bs = drop k bs"
  by (metis add.commute append_take_drop_id drop_drop)

definition pool_datum_wf :: "pool_datum \<Rightarrow> bool" where
  "pool_datum_wf d \<longleftrightarrow> hash_wf (token_a_id d) \<and> hash_wf (token_b_id d)"

lemma length_pool_datum: "pool_datum_wf d \<Longrightarrow> length (pool_datum_to_canonical_bytes d) = POOL_DATUM_LEN"
  by (simp add: pool_datum_wf_def hash_wf_def pool_datum_to_canonical_bytes_def POOL_DATUM_LEN_def)

lemma pool_datum_fields:
  assumes "pool_datum_wf d"
  shows "get_slice (pool_datum_to_canonical_bytes d) POOL_DATUM_TOKEN_A_OFFSET 32 = Some (hbytes (token_a_id d))"
    and "get_slice (pool_datum_to_canonical_bytes d) POOL_DATUM_TOKEN_B_OFFSET 32 = Some (hbytes (token_b_id d))"
    and "get_slice (pool_datum_to_canonical_bytes d) POOL_DATUM_RESERVE_A_OFFSET 8 =
      Some (le_bytes 8 (unat (reserve_a d)))"
    and "get_slice (pool_datum_to_canonical_bytes d) POOL_DATUM_RESERVE_B_OFFSET 8 =
      Some (le_bytes 8 (unat (reserve_b d)))"
    and "get_slice (pool_datum_to_canonical_bytes d) POOL_DATUM_LP_TOTAL_OFFSET 8 =
      Some (le_bytes 8 (unat (lp_total d)))"
    and "get_slice (pool_datum_to_canonical_bytes d) POOL_DATUM_FEE_BPS_OFFSET 2 =
      Some (le_bytes 2 (unat (fee_bps d)))"
  using assms
  by (simp_all add: get_slice_def pool_datum_to_canonical_bytes_def pool_datum_wf_def hash_wf_def
      pool_datum_offsets)

lemma pool_datum_decode_encode:
  "pool_datum_wf d \<Longrightarrow> pool_datum_from_canonical_bytes (pool_datum_to_canonical_bytes d) = Inr d"
  by (simp add: pool_datum_from_canonical_bytes_def length_pool_datum read_hash_def read_uint_def
      pool_datum_fields of_nat_le_val_unat)

lemma pool_datum_encode_decode:
  assumes "pool_datum_from_canonical_bytes bs = Inr d"
  shows "pool_datum_wf d \<and> pool_datum_to_canonical_bytes d = bs"
proof -
  have len: "length bs = 90"
    using assms by (auto simp: pool_datum_from_canonical_bytes_def POOL_DATUM_LEN_def split: if_splits)
  have d: "d = \<lparr>token_a_id = Hash256 (take 32 bs), token_b_id = Hash256 (take 32 (drop 32 bs)),
      reserve_a = of_nat (le_val (take 8 (drop 64 bs))), reserve_b = of_nat (le_val (take 8 (drop 72 bs))),
      lp_total = of_nat (le_val (take 8 (drop 80 bs))), fee_bps = of_nat (le_val (take 2 (drop 88 bs)))\<rparr>"
    using assms len
    by (simp add: pool_datum_from_canonical_bytes_def read_hash_def read_uint_def get_slice_def
        pool_datum_offsets)
  have u64: "le_bytes 8 (unat (of_nat (le_val s) :: u64)) = s" if "length s = 8" for s
    using le_bytes_of_le_val [where 'a = 64, of s] that by simp
  have u16: "le_bytes 2 (unat (of_nat (le_val s) :: u16)) = s" if "length s = 2" for s
    using le_bytes_of_le_val [where 'a = 16, of s] that by simp
  have "bs = take 32 bs @ take 32 (drop 32 bs) @ take 8 (drop 64 bs) @ take 8 (drop 72 bs) @
      take 8 (drop 80 bs) @ take 2 (drop 88 bs)"
    using take_then_drop [of 32 0 bs] take_then_drop [of 32 32 bs] take_then_drop [of 8 64 bs]
      take_then_drop [of 8 72 bs] take_then_drop [of 8 80 bs] len by simp
  then show ?thesis
    using len by (simp add: d pool_datum_wf_def hash_wf_def pool_datum_to_canonical_bytes_def u64 u16)
qed

text \<open>
  The canonical pool datum is a bijection: decoding succeeds exactly on the encodings of
  well-formed datums and returns the datum that was encoded, so no two datums share an encoding
  and no byte string is read as a datum that would be written differently.
\<close>

theorem pool_datum_round_trip:
  "pool_datum_from_canonical_bytes bs = Inr d \<longleftrightarrow>
     pool_datum_wf d \<and> bs = pool_datum_to_canonical_bytes d"
  using pool_datum_decode_encode [of d] pool_datum_encode_decode [of bs d] by auto

section \<open>Swap quotes\<close>

text \<open>
  What every constant-product quote promises: both reserves and the input are non-zero, the fee
  is taken from the input, and the output is at most \<open>rout * net / (rin + net)\<close>.
\<close>

locale swap_quote =
  fixes quote :: "u64 \<Rightarrow> u64 \<Rightarrow> u64 \<Rightarrow> (u64 \<times> u64) option"
  assumes quote_pos: "quote rin rout dx = Some (dy, fee) \<Longrightarrow> rin \<noteq> 0 \<and> rout \<noteq> 0 \<and> dx \<noteq> 0"
    and quote_fee: "quote rin rout dx = Some (dy, fee) \<Longrightarrow> unat fee \<le> unat dx"
    and quote_out: "quote rin rout dx = Some (dy, fee) \<Longrightarrow>
      unat dy * (unat rin + (unat dx - unat fee)) \<le> unat rout * (unat dx - unat fee)"
begin

lemma out_below_reserve:
  assumes "quote rin rout dx = Some (dy, fee)"
  shows "dy < rout"
proof (rule ccontr)
  let ?net = "unat dx - unat fee"
  assume "\<not> dy < rout"
  then have "unat rout * (unat rin + ?net) \<le> unat dy * (unat rin + ?net)"
    by (simp add: word_less_nat_alt)
  also have "\<dots> \<le> unat rout * ?net" by (rule quote_out [OF assms])
  finally have "unat rout * unat rin = 0" by (simp add: algebra_simps)
  then show False using quote_pos [OF assms] by (simp add: unat_eq_0)
qed

lemma product_kept:
  assumes "quote rin rout dx = Some (dy, fee)"
  shows "unat rin * unat rout \<le> (unat rin + unat dx) * (unat rout - unat dy)"
proof -
  let ?net = "unat dx - unat fee"
  obtain r where r: "unat rout = unat dy + r"
    using out_below_reserve [OF assms] by (metis less_imp_add_positive word_less_nat_alt)
  have "unat dy * (unat rin + ?net) \<le> unat rout * ?net" by (rule quote_out [OF assms])
  then have "unat rin * unat rout \<le> (unat rin + ?net) * (unat rout - unat dy)"
    by (simp add: r algebra_simps)
  also have "\<dots> \<le> (unat rin + unat dx) * (unat rout - unat dy)" by (intro mult_right_mono) auto
  finally show ?thesis .
qed

end

lemma unat_u64_max: "unat (ucast (- 1 :: u64) :: u128) = 2 ^ 64 - 1"
  by (simp add: unat_minus_one)

text \<open>None of the 128-bit checks can fail: the quote is the formula.\<close>

lemma compute_swap_output_eq:
  assumes "rin \<noteq> 0" and "rout \<noteq> 0" and "ain \<noteq> 0"
    and fee: "fee = unat ain * unat f div 10000" and le: "fee \<le> unat ain"
    and out: "out = unat rout * (unat ain - fee) div (unat rin + (unat ain - fee))"
  shows "compute_swap_output rin rout ain f = Some (of_nat out, of_nat fee)"
proof -
  have b: "unat rin < 2 ^ 64" "unat rout < 2 ^ 64" "unat ain < 2 ^ 64" "unat f < 2 ^ 16"
    using unat_bound [of rin] unat_bound [of rout] unat_bound [of ain] unat_bound [of f] by simp_all
  have "unat ain * unat f < 2 ^ 64 * 2 ^ 64" using b by (intro mult_strict_mono) auto
  then have pf: "unat ain * unat f < 2 ^ 128" by simp
  define p :: u128 where "p = ucast ain * ucast f"
  have p: "unat p = unat ain * unat f" using pf by (simp add: p_def unat_mult_small)
  have fe: "unat (p div 10000) = fee" by (simp add: unat_div p fee)
  define net :: u128 where "net = ucast ain - p div 10000"
  have fl: "\<not> ucast ain < p div 10000" using le fe by (simp add: word_less_nat_alt)
  then have net: "unat net = unat ain - fee"
    using fe le by (simp add: net_def unat_sub word_le_nat_alt)
  have "unat rout * unat net < 2 ^ 64 * 2 ^ 64" using b net by (intro mult_strict_mono) auto
  then have nf: "unat rout * unat net < 2 ^ 128" by simp
  have df: "unat rin + unat net < 2 ^ 128" using b net by simp
  have den: "unat (ucast rin + net) = unat rin + unat net"
    using df by (simp add: unat_add_small)
  then have dz: "ucast rin + net \<noteq> 0" using assms(1) by (metis add_is_0 unat_0 unat_eq_0)
  define q :: u128 where "q = (ucast rout * net) div (ucast rin + net)"
  have q: "unat q = out"
    using nf den by (simp add: q_def unat_div unat_mult_small out net)
  have "out \<le> unat rout * (unat rin + (unat ain - fee)) div (unat rin + (unat ain - fee))"
    unfolding out by (intro div_le_mono) simp
  then have "out \<le> unat rout" using assms(1) by (simp add: unat_eq_0)
  then have qs: "unat q < 2 ^ 64" using q b by simp
  have "checked_mul_w (ucast ain :: u128) (ucast f) = Some p"
    using pf by (simp add: checked_mul_w_def p_def)
  moreover have "checked_sub_w (ucast ain) (p div 10000) = Some net"
    using fl by (simp add: checked_sub_w_def net_def)
  moreover have "checked_mul_w (ucast rout) net = Some (ucast rout * net)"
    using nf by (simp add: checked_mul_w_def)
  moreover have "checked_add_w (ucast rin) net = Some (ucast rin + net)"
    using df by (simp add: checked_add_w_def)
  moreover have "checked_div_w (ucast rout * net) (ucast rin + net) = Some q"
    using dz by (simp add: checked_div_w_def q_def)
  moreover have "\<not> ucast (- 1 :: u64) < q"
    using qs by (simp add: word_less_nat_alt unat_minus_one)
  moreover have "ucast q = (of_nat out :: u64)" "ucast (p div 10000) = (of_nat fee :: u64)"
    by (simp_all flip: q fe)
  ultimately show ?thesis
    using assms(1-3) fl dz by (simp add: compute_swap_output_def checked_div_w_def [of p])
qed

lemma compute_swap_output_None:
  "compute_swap_output rin rout ain f = None \<longleftrightarrow>
     rin = 0 \<or> rout = 0 \<or> ain = 0 \<or> unat ain < unat ain * unat f div 10000"
proof (cases "rin = 0 \<or> rout = 0 \<or> ain = 0")
  case False
  show ?thesis
  proof (cases "unat ain * unat f div 10000 \<le> unat ain")
    case True
    then show ?thesis using False compute_swap_output_eq [of rin rout ain] by auto
  next
    case big: False
    have "unat ain * unat f < 2 ^ LENGTH(128)"
    proof -
      have "unat ain * unat f < 2 ^ 64 * 2 ^ 16"
        using unat_bound [of ain] unat_bound [of f] by (intro mult_strict_mono) auto
      then show ?thesis by simp
    qed
    then have "checked_mul_w (ucast ain :: u128) (ucast f) = Some (ucast ain * ucast f)"
      and "unat (ucast ain * ucast f :: u128) = unat ain * unat f"
      by (simp_all add: checked_mul_w_def unat_mult_small)
    then show ?thesis
      using big False
      by (simp add: compute_swap_output_def checked_div_w_def word_less_nat_alt unat_div)
  qed
qed (auto simp: compute_swap_output_def)

lemma compute_swap_output_Some:
  assumes "compute_swap_output rin rout ain f = Some (out, fee)"
  shows "rin \<noteq> 0 \<and> rout \<noteq> 0 \<and> ain \<noteq> 0 \<and> unat fee = unat ain * unat f div 10000 \<and> unat fee \<le> unat ain \<and>
    unat out = unat rout * (unat ain - unat fee) div (unat rin + (unat ain - unat fee))"
proof -
  have nz: "rin \<noteq> 0" "rout \<noteq> 0" "ain \<noteq> 0" and le: "unat ain * unat f div 10000 \<le> unat ain"
    using assms compute_swap_output_None [of rin rout ain f] by auto
  define x where "x = unat ain * unat f div 10000"
  define y where "y = unat rout * (unat ain - x) div (unat rin + (unat ain - x))"
  have "out = of_nat y" "fee = of_nat x"
    using compute_swap_output_eq [OF nz x_def _ y_def] le assms by (auto simp: x_def)
  moreover have "x < 2 ^ 64" using le unat_bound [of ain] by (simp add: x_def)
  moreover have "y \<le> unat rout * (unat rin + (unat ain - x)) div (unat rin + (unat ain - x))"
    unfolding y_def by (intro div_le_mono) simp
  then have "y < 2 ^ 64" using nz(1) unat_bound [of rout] by (simp add: unat_eq_0)
  ultimately show ?thesis using nz le by (simp add: unat_of_nat_small x_def y_def)
qed

interpretation amm: swap_quote "\<lambda>rin rout dx. compute_swap_output rin rout dx f" for f
  by unfold_locales (auto dest!: compute_swap_output_Some simp: div_times_less_eq_dividend)

lemma unat_pool_invariant: "unat (pool_invariant d) = unat (reserve_a d) * unat (reserve_b d)"
  using mult_u64_fits [of "reserve_a d" "reserve_b d"] by (simp add: pool_invariant_def int_simps)

text \<open>Applying a quoted swap, on each outcome of the two checks.\<close>

lemma apply_swap_quoted:
  assumes q: "compute_swap_output rin rout ain f = Some (out, fee)"
    and dir: "(dir, rin, rout) = (AtoB, reserve_a (ps_datum ps), reserve_b (ps_datum ps)) \<or>
      (dir, rin, rout) = (BtoA, reserve_b (ps_datum ps), reserve_a (ps_datum ps))"
  shows "apply_swap ps dir ain out =
    (if 2 ^ 64 \<le> unat rin + unat ain then (Inl AmmOverflow, ps)
     else (Inr (), ps\<lparr>ps_datum := (case dir of
        AtoB \<Rightarrow> (ps_datum ps)\<lparr>reserve_a := rin + ain, reserve_b := rout - out\<rparr>
      | BtoA \<Rightarrow> (ps_datum ps)\<lparr>reserve_b := rin + ain, reserve_a := rout - out\<rparr>)\<rparr>))"
proof -
  have "out \<le> rout" using amm.out_below_reserve [OF q] by simp
  then show ?thesis
    using dir by (auto simp: apply_swap_def Let_def checked_add_w_def checked_sub_w_def)
qed

lemma swapped_product:
  assumes q: "compute_swap_output rin rout ain f = Some (out, fee)"
    and fits: "unat rin + unat ain < 2 ^ 64"
  shows "unat rin * unat rout \<le> unat (rin + ain) * unat (rout - out)"
    and "rin + ain \<noteq> 0" and "rout - out \<noteq> 0"
proof -
  have lt: "out < rout" by (rule amm.out_below_reserve [OF q])
  have add: "unat (rin + ain) = unat rin + unat ain" using fits by (simp add: unat_add_small)
  moreover have sub: "unat (rout - out) = unat rout - unat out" using lt by (simp add: unat_sub)
  ultimately show "unat rin * unat rout \<le> unat (rin + ain) * unat (rout - out)"
    using amm.product_kept [OF q] by simp
  show "rout - out \<noteq> 0" using lt by auto
  show "rin + ain \<noteq> 0"
    using add amm.quote_pos [OF q] by (metis add_is_0 unat_0 unat_eq_0)
qed

text \<open>
  A swap never drains the pool and never lowers the product. Whatever the fee, applying a
  quoted swap either fails on the overflow of the incoming reserve and leaves the pool
  unchanged, or succeeds with both reserves non-zero and the 128-bit product of the datum at
  least what it was; the shares, the fee and the tokens are kept.
\<close>

theorem swap_keeps_product:
  assumes q: "compute_swap_output rin rout ain f = Some (out, fee)"
    and dir: "(dir, rin, rout) = (AtoB, reserve_a (ps_datum ps), reserve_b (ps_datum ps)) \<or>
      (dir, rin, rout) = (BtoA, reserve_b (ps_datum ps), reserve_a (ps_datum ps))"
  shows "case apply_swap ps dir ain out of
      (Inl e, ps') \<Rightarrow> e = AmmOverflow \<and> ps' = ps \<and> 2 ^ 64 \<le> unat rin + unat ain
    | (Inr _, ps') \<Rightarrow> pool_invariant (ps_datum ps) \<le> pool_invariant (ps_datum ps') \<and>
        reserve_a (ps_datum ps') \<noteq> 0 \<and> reserve_b (ps_datum ps') \<noteq> 0 \<and>
        (\<exists>ra rb. ps' = ps\<lparr>ps_datum := (ps_datum ps)\<lparr>reserve_a := ra, reserve_b := rb\<rparr>\<rparr>)"
proof (cases "2 ^ 64 \<le> unat rin + unat ain")
  case True
  then show ?thesis by (simp add: apply_swap_quoted [OF q dir])
next
  case False
  then have fits: "unat rin + unat ain < 2 ^ 64" by simp
  have eq: "d\<lparr>reserve_b := x, reserve_a := y\<rparr> = d\<lparr>reserve_a := y, reserve_b := x\<rparr>" for d :: pool_datum and x y
    by simp
  show ?thesis
    using dir swapped_product [OF q fits] False apply_swap_quoted [OF q dir]
    by (auto simp: word_le_nat_alt unat_pool_invariant mult.commute) (metis eq)+
qed

section \<open>The integer square root\<close>

text \<open>
  The loop invariant of Newton's iteration from above, on natural numbers: the estimate never
  falls below the root, and the next estimate is the mean of the estimate and the quotient.
\<close>

definition newton_inv :: "nat \<Rightarrow> nat \<Rightarrow> nat \<Rightarrow> bool" where
  "newton_inv n x y \<longleftrightarrow> 1 \<le> x \<and> x \<le> n \<and> n < (x + 1) ^ 2 \<and> y = (x + n div x) div 2"

lemma newton_inv_exit:
  assumes "newton_inv n x y" and "\<not> y < x"
  shows "x ^ 2 \<le> n"
proof -
  have "x \<le> n div x" using assms by (auto simp: newton_inv_def)
  then have "x * x \<le> x * (n div x)" by simp
  also have "\<dots> \<le> n" by (simp add: times_div_less_eq_dividend)
  finally show ?thesis by (simp add: power2_eq_square)
qed

lemma newton_inv_above:
  assumes "newton_inv n x y"
  shows "n < (y + 1) ^ 2"
proof -
  let ?q = "n div x"
  have x: "1 \<le> x" and y: "y = (x + ?q) div 2" using assms by (simp_all add: newton_inv_def)
  have "x + (?q + 1) \<le> 2 * (y + 1)" using y by simp
  then have "(x + (?q + 1)) ^ 2 \<le> (2 * (y + 1)) ^ 2" by (rule power_mono) simp
  moreover have "4 * (x * (?q + 1)) \<le> (x + (?q + 1)) ^ 2"
  proof -
    have "0 \<le> (int x - int (?q + 1)) ^ 2" by simp
    then have "4 * (int x * int (?q + 1)) \<le> (int x + int (?q + 1)) ^ 2"
      by (simp add: power2_eq_square algebra_simps)
    then show ?thesis by (metis (mono_tags, lifting) of_nat_add of_nat_le_iff of_nat_mult of_nat_numeral of_nat_power)
  qed
  moreover have "n < x * (?q + 1)"
  proof -
    have "x * ?q + n mod x = n" and "n mod x < x" using x by simp_all
    then have "n < x * ?q + x" by linarith
    then show ?thesis by simp
  qed
  ultimately show ?thesis by (simp add: power2_eq_square algebra_simps)
qed

lemma newton_inv_step:
  assumes inv: "newton_inv n x y" and "y < x"
  shows "newton_inv n y ((y + n div y) div 2)"
proof -
  have "1 \<le> x" "x \<le> n" "y = (x + n div x) div 2" using inv by (simp_all add: newton_inv_def)
  moreover from this have "1 \<le> n div x" by (simp add: div_greater_zero_iff Suc_le_eq)
  ultimately have "1 \<le> y" "y \<le> n" using assms(2) by auto
  then show ?thesis using newton_inv_above [OF inv] by (simp add: newton_inv_def)
qed

text \<open>The sum of the estimate and the quotient stays within the number, or is tiny.\<close>

lemma newton_no_overflow:
  assumes inv: "newton_inv n x y" and "y < x"
  shows "y + n div y \<le> n \<or> y + n div y \<le> 4"
proof -
  have y: "1 \<le> y" "y < n" using newton_inv_step [OF assms] assms by (auto simp: newton_inv_def)
  let ?q = "n div y"
  have q: "y * ?q \<le> n" "1 \<le> ?q"
    using y by (simp_all add: times_div_less_eq_dividend div_greater_zero_iff Suc_le_eq)
  consider "y = 1" | "?q = 1" | "2 \<le> y" "2 \<le> ?q" using y q by linarith
  then show ?thesis
  proof cases
    case 1
    then show ?thesis using newton_inv_above [OF inv] by (simp add: power2_eq_square)
  next
    case 2
    then show ?thesis using y by simp
  next
    case 3
    then obtain a b where "y = a + 2" "?q = b + 2" by (metis add.commute le_Suc_ex)
    then show ?thesis using q(1) by (simp add: algebra_simps)
  qed
qed

lemma newton_loop_root:
  assumes "newton_inv (unat n) (unat x) (unat y)"
  shows "\<exists>r. newton_loop n x y = Some r \<and> unat r ^ 2 \<le> unat n \<and> unat n < (unat r + 1) ^ 2"
  using assms
proof (induction "unat x" arbitrary: x y rule: less_induct)
  case less
  show ?case
  proof (cases "y < x")
    case False
    then show ?thesis
      using less.prems newton_inv_exit [OF less.prems]
      by (subst newton_loop.simps) (auto simp: newton_inv_def word_less_nat_alt)
  next
    case True
    then have yx: "unat y < unat x" by (simp add: word_less_nat_alt)
    have step: "newton_inv (unat n) (unat y) ((unat y + unat n div unat y) div 2)"
      using newton_inv_step [OF less.prems yx] .
    then have "y \<noteq> 0" by (auto simp: newton_inv_def)
    have "unat y + unat (n div y) < 2 ^ LENGTH(128)"
      using newton_no_overflow [OF less.prems yx] unat_bound [of n] by (auto simp: unat_div)
    then have sum: "checked_add_w y (n div y) = Some (y + n div y)"
      "unat (y + n div y) = unat y + unat n div unat y"
      by (simp_all add: checked_add_w_def unat_add_small unat_div)
    then have "newton_inv (unat n) (unat y) (unat ((y + n div y) div 2))"
      using step by (simp add: unat_div)
    from less.hyps [OF yx this] show ?thesis
      using True \<open>y \<noteq> 0\<close> sum by (subst newton_loop.simps) (simp add: checked_div_w_def)
  qed
qed

lemma newton_inv_init:
  assumes "0 < n"
  shows "newton_inv n n (if n mod 2 = 0 then n div 2 else n div 2 + 1)"
proof -
  have "(n + 1) div 2 = (if n mod 2 = 0 then n div 2 else n div 2 + 1)" by presburger
  with assms show ?thesis by (simp add: newton_inv_def power2_eq_square)
qed

lemma sqrt_u128_root:
  "\<exists>r. sqrt_u128 n = Some r \<and> unat r ^ 2 \<le> unat n \<and> unat n < (unat r + 1) ^ 2"
proof (cases "n = 0")
  case False
  then have pos: "0 < unat n" by (simp add: unat_gt_0)
  let ?y = "if n mod 2 = 0 then n div 2 else n div 2 + 1"
  have "unat (n div 2) + 1 < 2 ^ LENGTH(128)" using unat_bound [of n] by (simp add: unat_div)
  then have "unat (n div 2 + 1) = unat n div 2 + 1" by (simp add: unat_add_small unat_div)
  moreover have "unat (n mod 2) = unat n mod 2" by (simp add: unat_mod)
  then have "n mod 2 = 0 \<longleftrightarrow> unat n mod 2 = 0" by (metis unat_eq_0)
  ultimately have "unat ?y = (if unat n mod 2 = 0 then unat n div 2 else unat n div 2 + 1)"
    by (simp add: unat_div)
  then show ?thesis
    using newton_loop_root [of n n ?y] newton_inv_init [OF pos] False by (simp add: sqrt_u128_def)
qed (simp add: sqrt_u128_def)

text \<open>
  C23. The integer square root is total and exact. For every 128-bit argument Newton's loop ends,
  without a division by zero or an overflow of the plain addition, in the unique \<open>r\<close> with
  \<open>r * r \<le> n < (r + 1) * (r + 1)\<close>.
\<close>

theorem sqrt_u128_exact:
  "\<exists>r. sqrt_u128 n = Some r \<and> unat r ^ 2 \<le> unat n \<and> unat n < (unat r + 1) ^ 2"
  by (rule sqrt_u128_root)

section \<open>Liquidity\<close>

lemma pro_rata_Inr:
  "pro_rata t p w = Inr r \<longleftrightarrow> w \<noteq> 0 \<and> unat r = unat t * unat p div unat w"
proof -
  have m: "checked_mul_w (ucast t :: u128) (ucast p) = Some (ucast t * ucast p)"
    "unat (ucast t * ucast p :: u128) = unat t * unat p"
    using mult_u64_fits [of t p] by (simp_all add: checked_mul_w_def unat_mult_small)
  have "(ucast w = (0 :: u128)) = (w = 0)" by (metis unat_eq_0 unat_widen(1))
  moreover have "r = (ucast t * ucast p) div ucast w \<longleftrightarrow> unat r = unat t * unat p div unat w"
    by (simp add: word_unat_eq_iff unat_div m)
  ultimately show ?thesis by (auto simp: pro_rata_def m res_simps int_simps)
qed

lemma pro_rata_Inl: "pro_rata t p w = Inl e \<longleftrightarrow> w = 0 \<and> e = AmmOverflow"
proof -
  have "(ucast w = (0 :: u128)) = (w = 0)" by (metis unat_eq_0 unat_widen(1))
  then show ?thesis
    using mult_u64_fits [of t p] by (auto simp: pro_rata_def res_simps checked_mul_w_def checked_div_w_def)
qed

lemma above_u64_max: "ucast (- 1 :: u64) < (x :: u128) \<longleftrightarrow> 2 ^ 64 \<le> unat x"
  by (auto simp: word_less_nat_alt unat_minus_one)

lemma add_liquidity_Inr:
  assumes "compute_add_liquidity ra rb lp aa ab = Some (Inr (l, d))"
  shows "aa \<noteq> 0" "ab \<noteq> 0"
    "unat (reserve_a d) = unat ra + unat aa" "unat (reserve_b d) = unat rb + unat ab"
    "unat (lp_total d) = unat lp + unat l"
    "lp \<noteq> 0 \<Longrightarrow> ra \<noteq> 0 \<and> rb \<noteq> 0 \<and>
       unat l = min (unat lp * unat aa div unat ra) (unat lp * unat ab div unat rb)"
    "lp = 0 \<Longrightarrow> unat l ^ 2 \<le> unat aa * unat ab \<and> unat aa * unat ab < (unat l + 1) ^ 2"
proof -
  from assms show nz: "aa \<noteq> 0" "ab \<noteq> 0"
    by (auto simp: compute_add_liquidity_def split: if_splits)
  then have sh: "lp_shares ra rb lp aa ab = Some (Inr l)"
    and fields: "unat (reserve_a d) = unat ra + unat aa" "unat (reserve_b d) = unat rb + unat ab"
      "unat (lp_total d) = unat lp + unat l"
    using assms by (auto simp: compute_add_liquidity_def res_simps int_simps liquidity_datum_def)
  from fields show "unat (reserve_a d) = unat ra + unat aa" "unat (reserve_b d) = unat rb + unat ab"
    "unat (lp_total d) = unat lp + unat l" .
  show "ra \<noteq> 0 \<and> rb \<noteq> 0 \<and> unat l = min (unat lp * unat aa div unat ra) (unat lp * unat ab div unat rb)"
    if "lp \<noteq> 0"
  proof -
    obtain x y where xy: "pro_rata lp aa ra = Inr x" "pro_rata lp ab rb = Inr y"
      and l: "l = ucast (min x y)" and fit: "unat (min x y) < 2 ^ 64"
      using sh \<open>lp \<noteq> 0\<close>
      by (auto simp: lp_shares_def res_simps Let_def above_u64_max not_le split: if_splits)
    have "unat (min x y) = min (unat x) (unat y)" by (simp add: min_def word_le_nat_alt)
    then show ?thesis using xy fit l by (simp add: pro_rata_Inr unat_narrow_u64)
  qed
  show "unat l ^ 2 \<le> unat aa * unat ab \<and> unat aa * unat ab < (unat l + 1) ^ 2" if "lp = 0"
  proof -
    define p :: u128 where "p = ucast aa * ucast ab"
    have p: "checked_mul_w (ucast aa) (ucast ab) = Some p" "unat p = unat aa * unat ab"
      using mult_u64_fits [of aa ab] by (simp_all add: checked_mul_w_def unat_mult_small p_def)
    obtain r where r: "sqrt_u128 p = Some r" "unat r ^ 2 \<le> unat p" "unat p < (unat r + 1) ^ 2"
      using sqrt_u128_root by blast
    have "unat r < 2 ^ 64"
    proof (rule ccontr)
      assume "\<not> unat r < 2 ^ 64"
      then have "(2 ^ 64) ^ 2 \<le> unat r ^ 2" by (intro power_mono) auto
      then show False using r(2) unat_bound [of p] by simp
    qed
    moreover have "l = ucast r" using sh that p r(1) by (simp add: lp_shares_def)
    ultimately show ?thesis using r p by (simp add: unat_narrow_u64)
  qed
qed

lemma remove_liquidity_Inr:
  assumes "compute_remove_liquidity ra rb lp b = Inr (oa, ob, d)"
  shows "b \<noteq> 0" "b \<le> lp" "unat oa = unat ra * unat b div unat lp" "unat ob = unat rb * unat b div unat lp"
    "unat ra = unat (reserve_a d) + unat oa" "unat rb = unat (reserve_b d) + unat ob"
    "unat lp = unat (lp_total d) + unat b"
proof -
  obtain x y where b: "b \<noteq> 0" "b \<le> lp"
    and xy: "pro_rata ra b lp = Inr x" "pro_rata rb b lp = Inr y" "unat x < 2 ^ 64" "unat y < 2 ^ 64"
      "oa = ucast x" "ob = ucast y"
    and fields: "unat ra = unat (reserve_a d) + unat oa" "unat rb = unat (reserve_b d) + unat ob"
      "unat lp = unat (lp_total d) + unat b"
    using assms
    by (auto simp: compute_remove_liquidity_def res_simps int_simps liquidity_datum_def not_less
        above_u64_max split: if_splits)
  show "b \<noteq> 0" "b \<le> lp" by (rule b)+
  show "unat oa = unat ra * unat b div unat lp" "unat ob = unat rb * unat b div unat lp"
    using xy by (simp_all only: unat_narrow_u64 pro_rata_Inr)
  show "unat ra = unat (reserve_a d) + unat oa" "unat rb = unat (reserve_b d) + unat ob"
    "unat lp = unat (lp_total d) + unat b" by (rule fields)+
qed

text \<open>
  A pro-rata amount, rounded down, never takes more than its share: the cross products of the
  two rounding directions.
\<close>

lemma add_share:
  assumes "l \<le> L * a div R" shows "(R :: nat) * (L + l) \<le> (R + a) * L"
proof -
  have "R * l \<le> R * (L * a div R)" using assms by (rule mult_left_mono) simp
  also have "\<dots> \<le> L * a" by (rule times_div_less_eq_dividend)
  finally show ?thesis by (simp add: algebra_simps)
qed

lemma remove_share:
  assumes "R = R' + (R * b) div L" and "L = L' + b" shows "(R :: nat) * L' \<le> R' * L"
proof -
  have "L * (R * b div L) \<le> R * b" by (rule times_div_less_eq_dividend)
  moreover have "R * L = R' * L + (R * b div L) * L" by (metis add_mult_distrib assms(1))
  moreover have "R * L = R * L' + R * b" using assms(2) by (simp add: algebra_simps)
  moreover have "(R * b div L) * L = L * (R * b div L)" by (rule mult.commute)
  ultimately show ?thesis by linarith
qed

text \<open>
  Adding liquidity and taking it out again never profits. Whoever adds to a pool and burns
  exactly the shares the pool issued gets back at most what was put in of each token, in a
  pool that has shares and in one that starts empty.
\<close>

theorem add_remove_no_profit:
  assumes add: "compute_add_liquidity ra rb lp aa ab = Some (Inr (l, d))"
    and start: "lp \<noteq> 0 \<or> ra = 0 \<and> rb = 0"
    and rem: "compute_remove_liquidity (reserve_a d) (reserve_b d) (lp_total d) l = Inr (oa, ob, d')"
  shows "oa \<le> aa \<and> ob \<le> ab"
proof -
  note A = add_liquidity_Inr [OF add] and R = remove_liquidity_Inr [OF rem]
  have pos: "0 < unat (lp_total d)" using A(5) R(1) by (simp add: unat_gt_0)
  have one: "R' * unat l div unat (lp_total d) \<le> a"
    if "R' = r + a" "lp \<noteq> 0 \<Longrightarrow> unat l \<le> unat lp * a div r" "lp = 0 \<Longrightarrow> r = 0" for r a R' :: nat
  proof -
    have "R' * unat l \<le> a * unat (lp_total d)"
    proof (cases "lp = 0")
      case True
      then show ?thesis using that A(5) by simp
    next
      case False
      from add_share [OF that(2) [OF False]] show ?thesis
        using that(1) A(5) by (simp add: algebra_simps)
    qed
    then have "R' * unat l div unat (lp_total d) \<le> a * unat (lp_total d) div unat (lp_total d)"
      by (rule div_le_mono)
    then show ?thesis using pos by simp
  qed
  have "unat oa \<le> unat aa"
    unfolding R(3) by (rule one [OF A(3)]) (use A(6) start in auto)
  moreover have "unat ob \<le> unat ab"
    unfolding R(4) by (rule one [OF A(4)]) (use A(6) start in auto)
  ultimately show ?thesis by (simp add: word_le_nat_alt)
qed

section \<open>The life of a pool\<close>

text \<open>
  One operation on a live pool: a quoted swap, an addition or a removal, as the callers combine
  the quotes with the state. The liquidity quotes return the reserves and the shares; the token
  identifiers and the fee are the caller's. A removal that burns the last share ends the pool.
\<close>

definition with_liquidity :: "pool_state \<Rightarrow> pool_datum \<Rightarrow> pool_state" where
  "with_liquidity ps d = ps\<lparr>ps_datum := (ps_datum ps)
     \<lparr>reserve_a := reserve_a d, reserve_b := reserve_b d, lp_total := lp_total d\<rparr>\<rparr>"

inductive amm_step :: "pool_state \<Rightarrow> pool_state \<Rightarrow> bool" where
  SwapAB: "compute_swap_output (reserve_a (ps_datum ps)) (reserve_b (ps_datum ps)) ain
      (fee_bps (ps_datum ps)) = Some (out, fee) \<Longrightarrow> apply_swap ps AtoB ain out = (Inr u, ps') \<Longrightarrow> amm_step ps ps'"
| SwapBA: "compute_swap_output (reserve_b (ps_datum ps)) (reserve_a (ps_datum ps)) ain
      (fee_bps (ps_datum ps)) = Some (out, fee) \<Longrightarrow> apply_swap ps BtoA ain out = (Inr u, ps') \<Longrightarrow> amm_step ps ps'"
| Add: "lp_total (ps_datum ps) \<noteq> 0 \<Longrightarrow>
    compute_add_liquidity (reserve_a (ps_datum ps)) (reserve_b (ps_datum ps)) (lp_total (ps_datum ps))
      aa ab = Some (Inr (l, d)) \<Longrightarrow> amm_step ps (with_liquidity ps d)"
| Remove: "compute_remove_liquidity (reserve_a (ps_datum ps)) (reserve_b (ps_datum ps))
      (lp_total (ps_datum ps)) l = Inr (oa, ob, d) \<Longrightarrow> lp_total d \<noteq> 0 \<Longrightarrow> amm_step ps (with_liquidity ps d)"

text \<open>The value of a share: the product of the reserves over the square of the shares.\<close>

definition share_value_le :: "pool_state \<Rightarrow> pool_state \<Rightarrow> bool" where
  "share_value_le ps ps' \<longleftrightarrow>
     unat (pool_invariant (ps_datum ps)) * unat (lp_total (ps_datum ps')) ^ 2 \<le>
     unat (pool_invariant (ps_datum ps')) * unat (lp_total (ps_datum ps)) ^ 2"

lemma share_value_trans:
  assumes "share_value_le p q" and "share_value_le q r" and "lp_total (ps_datum q) \<noteq> 0"
  shows "share_value_le p r"
proof -
  define P Q R L M N where "P = unat (pool_invariant (ps_datum p))"
    and "Q = unat (pool_invariant (ps_datum q))" and "R = unat (pool_invariant (ps_datum r))"
    and "L = unat (lp_total (ps_datum p)) ^ 2" and "M = unat (lp_total (ps_datum q)) ^ 2"
    and "N = unat (lp_total (ps_datum r)) ^ 2"
  note defs = P_def Q_def R_def L_def M_def N_def
  have "P * M \<le> Q * L" "Q * N \<le> R * M" "0 < M"
    using assms by (simp_all add: share_value_le_def defs unat_gt_0)
  have "M * (P * N) = (P * M) * N" by simp
  also have "\<dots> \<le> (Q * L) * N" using \<open>P * M \<le> Q * L\<close> by (rule mult_right_mono) simp
  also have "\<dots> = (Q * N) * L" by simp
  also have "\<dots> \<le> (R * M) * L" using \<open>Q * N \<le> R * M\<close> by (rule mult_right_mono) simp
  finally have "M * (P * N) \<le> M * (R * L)" by (simp add: mult.assoc mult.left_commute)
  then show ?thesis using \<open>0 < M\<close> by (simp add: share_value_le_def defs)
qed

lemma cross_square:
  assumes "(A :: nat) * L' \<le> A' * L" and "B * L' \<le> B' * L"
  shows "A * B * L' ^ 2 \<le> A' * B' * L ^ 2"
proof -
  have "(A * L') * (B * L') \<le> (A' * L) * (B' * L)" using assms by (rule mult_mono) simp_all
  then show ?thesis by (simp add: power2_eq_square algebra_simps)
qed

lemma swap_step_value:
  assumes q: "compute_swap_output rin rout ain f = Some (out, fee)"
    and dir: "(dir, rin, rout) = (AtoB, reserve_a (ps_datum ps), reserve_b (ps_datum ps)) \<or>
      (dir, rin, rout) = (BtoA, reserve_b (ps_datum ps), reserve_a (ps_datum ps))"
    and ap: "apply_swap ps dir ain out = (Inr u, ps')"
  shows "share_value_le ps ps' \<and> lp_total (ps_datum ps') = lp_total (ps_datum ps)"
proof -
  have fits: "unat rin + unat ain < 2 ^ 64"
    using apply_swap_quoted [OF q dir] ap by (auto split: if_splits)
  show ?thesis
    using dir swapped_product(1) [OF q fits] apply_swap_quoted [OF q dir] ap fits
    by (auto simp: share_value_le_def unat_pool_invariant mult.commute)
qed

lemma amm_step_value:
  assumes "amm_step ps ps'" and "lp_total (ps_datum ps) \<noteq> 0"
  shows "share_value_le ps ps' \<and> lp_total (ps_datum ps') \<noteq> 0"
  using assms
proof (cases rule: amm_step.cases)
  case (SwapAB ain out fee u)
  from swap_step_value [OF SwapAB(1) _ SwapAB(2)] show ?thesis using assms(2) by simp
next
  case (SwapBA ain out fee u)
  from swap_step_value [OF SwapBA(1) _ SwapBA(2)] show ?thesis using assms(2) by simp
next
  case (Add aa ab l d)
  note A = add_liquidity_Inr [OF Add(3)]
  have l: "unat l \<le> unat (lp_total (ps_datum ps)) * unat aa div unat (reserve_a (ps_datum ps))"
    "unat l \<le> unat (lp_total (ps_datum ps)) * unat ab div unat (reserve_b (ps_datum ps))"
    using A(6) [OF Add(2)] by simp_all
  have "share_value_le ps ps'"
    using cross_square [OF add_share [OF l(1)] add_share [OF l(2)]]
    by (simp add: share_value_le_def Add(1) with_liquidity_def unat_pool_invariant A(3-5))
  moreover have "lp_total d \<noteq> 0" using A(5) Add(2) by (metis add_is_0 unat_0 unat_eq_0)
  ultimately show ?thesis by (simp add: Add(1) with_liquidity_def)
next
  case (Remove l oa ob d)
  note R = remove_liquidity_Inr [OF Remove(2)]
  have s: "unat (reserve_a (ps_datum ps)) * unat (lp_total d) \<le>
      unat (reserve_a d) * unat (lp_total (ps_datum ps))"
    "unat (reserve_b (ps_datum ps)) * unat (lp_total d) \<le>
      unat (reserve_b d) * unat (lp_total (ps_datum ps))"
    by (rule remove_share [OF _ R(7)], use R(3-6) in metis)+
  from cross_square [OF s] show ?thesis
    using Remove(3) by (simp add: share_value_le_def Remove(1) with_liquidity_def unat_pool_invariant)
qed

text \<open>
  C14. A share never loses value. Along every sequence of swaps, additions and removals of a live
  pool, in any order and by anyone, the product of the reserves over the square of the
  outstanding shares does not fall, so no trader and no other provider can dilute a provider.
\<close>

theorem share_value_never_falls:
  assumes "amm_step\<^sup>*\<^sup>* ps ps'" and "lp_total (ps_datum ps) \<noteq> 0"
  shows "unat (pool_invariant (ps_datum ps)) * unat (lp_total (ps_datum ps')) ^ 2 \<le>
    unat (pool_invariant (ps_datum ps')) * unat (lp_total (ps_datum ps)) ^ 2"
proof -
  have "share_value_le ps ps' \<and> lp_total (ps_datum ps') \<noteq> 0"
    using assms
  proof (induction rule: rtranclp_induct)
    case base
    then show ?case by (simp add: share_value_le_def)
  next
    case (step q r)
    then show ?case using amm_step_value [OF step.hyps(2)] share_value_trans by blast
  qed
  then show ?thesis by (simp add: share_value_le_def)
qed

section \<open>Instances\<close>

definition demo_amm_pool :: pool_state where
  "demo_amm_pool = pool_state_new hash_zero
     ((pool_datum_new hash_zero hash_zero 10000 10000 30)\<lparr>lp_total := 10000\<rparr>)"

lemma demo_amm_pool_sel [simp]:
  "reserve_a (ps_datum demo_amm_pool) = 10000" "reserve_b (ps_datum demo_amm_pool) = 10000"
  "lp_total (ps_datum demo_amm_pool) = 10000" "fee_bps (ps_datum demo_amm_pool) = 30"
  by (simp_all add: demo_amm_pool_def pool_state_new_def pool_datum_new_def)

lemma demo_quote: "compute_swap_output 10000 10000 1000 30 = Some (906, 3)"
  by (subst compute_swap_output_eq [where fee = 3 and out = 906]) simp_all

theorem swap_keeps_product_witness:
  "pool_invariant (ps_datum demo_amm_pool) \<le> pool_invariant (ps_datum (snd (apply_swap demo_amm_pool AtoB 1000 906)))"
  using swap_keeps_product [OF demo_quote, of AtoB demo_amm_pool]
  by (simp split: prod.splits sum.splits)

lemma demo_add: "compute_add_liquidity 10000 10000 10000 500 700 =
    Some (Inr (500, liquidity_datum 10500 10700 10500))"
  by (simp add: compute_add_liquidity_def lp_shares_def pro_rata_def checked_mul_w_def checked_div_w_def
      checked_add_w_def above_u64_max unat_div unat_mult_small min_def word_le_nat_alt)

lemma demo_remove: "compute_remove_liquidity 10500 10700 10500 500 =
    Inr (500, 509, liquidity_datum 10000 10191 10000)"
  by (simp add: compute_remove_liquidity_def pro_rata_def checked_mul_w_def checked_div_w_def
      checked_sub_w_def above_u64_max unat_div unat_mult_small)

theorem add_remove_no_profit_witness:
  "\<exists>oa ob d'. compute_remove_liquidity 10500 10700 10500 500 = Inr (oa, ob, d') \<and> oa \<le> 500 \<and> ob \<le> 700"
  using add_remove_no_profit [OF demo_add, of 500 509 "liquidity_datum 10000 10191 10000"] demo_remove
  by (simp add: liquidity_datum_def)

theorem share_value_never_falls_witness:
  "unat (pool_invariant (ps_datum demo_amm_pool)) * unat (10500 :: u64) ^ 2 \<le>
     unat (pool_invariant (liquidity_datum 10500 10700 10500)) * unat (10000 :: u64) ^ 2"
proof -
  have "amm_step demo_amm_pool (with_liquidity demo_amm_pool (liquidity_datum 10500 10700 10500))"
    by (rule amm_step.Add [where aa = 500 and ab = 700 and l = 500]) (simp_all add: demo_add)
  then show ?thesis
    using share_value_never_falls [OF r_into_rtranclp]
    by (fastforce simp: with_liquidity_def liquidity_datum_def unat_pool_invariant)
qed

end
