(* ===== verification/QV_Batcher.thy ===== *)
theory QV_Batcher
  imports QV_Amm QV_Mempool "HOL-Library.Sublist"
begin

text \<open>
  \<open>qv-mempool/src/batcher.rs\<close>: the slot leader's batch of swap orders against one pool, and the
  evidence against a leader who reorders. The batch is a fold over the sorted keys; its laws are
  proved once for any quote that meets the contract \<open>swap_quote\<close>.
\<close>

section \<open>Data and operations\<close>

record order_intent =
  order_tx_id :: txid
  oi_pool_id :: hash256
  oi_direction :: swap_direction
  offer_amount :: amount
  min_receive :: amount
  oi_fee_density :: u64
  oi_timestamp_ms :: u64

definition intent_key :: "order_intent \<Rightarrow> priority_key" where
  "intent_key o1 = order_key (oi_fee_density o1) (oi_timestamp_ms o1) (order_tx_id o1)"

record batch_result =
  br_pool_id :: hash256
  matched_orders :: "txid list"
  new_reserve_a :: amount
  new_reserve_b :: amount
  total_fees :: amount

text \<open>The batcher's own snapshot of a pool, without datum.\<close>

record batch_pool =
  bp_pool_id :: hash256
  bp_reserve_a :: amount
  bp_reserve_b :: amount

definition batch_swap_output :: "u64 \<Rightarrow> u64 \<Rightarrow> u64 \<Rightarrow> (u64 \<times> u64) option" where
  "batch_swap_output reserve_in reserve_out dx =
     (if reserve_in = 0 \<or> reserve_out = 0 \<or> dx = 0 then None
      else Option.bind (checked_mul_w dx 3) (\<lambda>p.
        Option.bind (checked_div_w p 1000) (\<lambda>dx_fee.
        Option.bind (checked_sub_w dx dx_fee) (\<lambda>dx_net.
        Option.bind (checked_mul_w (ucast reserve_out :: u128) (ucast dx_net)) (\<lambda>numerator.
        Option.bind (checked_add_w (ucast reserve_in) (ucast dx_net)) (\<lambda>denominator.
        if denominator = 0 then None
        else Option.bind (checked_div_w numerator denominator) (\<lambda>dy.
        if ucast (- 1 :: u64) < dy then None else Some (ucast dy, dx_fee))))))))"

text \<open>The loop variables: both reserves, the matched orders and the fees.\<close>

record batch_acc =
  ba_reserve_a :: u64
  ba_reserve_b :: u64
  ba_matched :: "txid list"
  ba_fees :: u64

text \<open>One turn of the loop once the order is found; \<open>quote\<close> is \<open>compute_swap_output\<close> in the code.\<close>

definition match_order ::
  "(u64 \<Rightarrow> u64 \<Rightarrow> u64 \<Rightarrow> (u64 \<times> u64) option) \<Rightarrow> hash256 \<Rightarrow> order_intent \<Rightarrow> batch_acc \<Rightarrow> batch_acc" where
  "match_order quote pid o1 acc =
     (if oi_pool_id o1 \<noteq> pid then acc
      else case (case oi_direction o1 of
          AtoB \<Rightarrow> quote (ba_reserve_a acc) (ba_reserve_b acc) (offer_amount o1)
        | BtoA \<Rightarrow> quote (ba_reserve_b acc) (ba_reserve_a acc) (offer_amount o1)) of
        None \<Rightarrow> acc
      | Some (out, fee) \<Rightarrow>
          if out < min_receive o1 then acc
          else case oi_direction o1 of
            AtoB \<Rightarrow> \<lparr>ba_reserve_a = sat_add (ba_reserve_a acc) (offer_amount o1),
                ba_reserve_b = sat_sub (ba_reserve_b acc) out,
                ba_matched = ba_matched acc @ [order_tx_id o1], ba_fees = sat_add (ba_fees acc) fee\<rparr>
          | BtoA \<Rightarrow> \<lparr>ba_reserve_a = sat_sub (ba_reserve_a acc) out,
                ba_reserve_b = sat_add (ba_reserve_b acc) (offer_amount o1),
                ba_matched = ba_matched acc @ [order_tx_id o1], ba_fees = sat_add (ba_fees acc) fee\<rparr>)"

definition match_key ::
  "(u64 \<Rightarrow> u64 \<Rightarrow> u64 \<Rightarrow> (u64 \<times> u64) option) \<Rightarrow> hash256 \<Rightarrow> (txid, order_intent) btree \<Rightarrow>
     priority_key \<Rightarrow> batch_acc \<Rightarrow> batch_acc" where
  "match_key quote pid orders k acc =
     (case bt_get orders (pk_tx_id k) of None \<Rightarrow> acc | Some o1 \<Rightarrow> match_order quote pid o1 acc)"

text \<open>Collecting pairs into a \<open>BTreeMap\<close>: a later pair replaces an earlier one with the same key.\<close>

definition order_map :: "order_intent list \<Rightarrow> (txid, order_intent) btree" where
  "order_map orders = fold (\<lambda>o1. bt_insert (order_tx_id o1) o1) orders []"

definition batch_start :: "batch_pool \<Rightarrow> batch_acc" where
  "batch_start pool =
     \<lparr>ba_reserve_a = bp_reserve_a pool, ba_reserve_b = bp_reserve_b pool, ba_matched = [], ba_fees = 0\<rparr>"

definition batch_run :: "batch_pool \<Rightarrow> order_intent list \<Rightarrow> batch_acc" where
  "batch_run pool orders =
     fold (match_key batch_swap_output (bp_pool_id pool) (order_map orders))
       (deterministic_sort (map intent_key orders)) (batch_start pool)"

definition build_amm_batch ::
  "batch_pool \<Rightarrow> order_intent list \<Rightarrow> (mempool_error, batch_result) result" where
  "build_amm_batch pool orders =
     (let acc = batch_run pool orders in
      Inr \<lparr>br_pool_id = bp_pool_id pool, matched_orders = ba_matched acc,
           new_reserve_a = ba_reserve_a acc, new_reserve_b = ba_reserve_b acc, total_fees = ba_fees acc\<rparr>)"

section \<open>Slashing evidence\<close>

record slashing_evidence =
  se_block_hash :: block_hash
  se_slot :: u64
  canonical_order :: "txid list"
  actual_order :: "txid list"
  producer_key_hash :: hash256

definition evidence_is_valid :: "slashing_evidence \<Rightarrow> bool" where
  "evidence_is_valid e \<longleftrightarrow> canonical_order e \<noteq> actual_order e \<and> canonical_order e \<noteq> [] \<and>
     length (canonical_order e) = length (actual_order e)"

section \<open>The quote\<close>

lemma batch_swap_output_eq:
  assumes nz: "rin \<noteq> 0" "rout \<noteq> 0" "dx \<noteq> 0" and fit: "unat dx * 3 < 2 ^ 64"
    and fee: "fee = unat dx * 3 div 1000"
    and out: "out = unat rout * (unat dx - fee) div (unat rin + (unat dx - fee))"
  shows "batch_swap_output rin rout dx = Some (of_nat out, of_nat fee)"
proof -
  have p: "checked_mul_w dx 3 = Some (dx * 3)" "unat (dx * 3) = unat dx * 3"
    using fit by (simp_all add: checked_mul_w_def unat_mult_small)
  have fe: "unat (dx * 3 div 1000) = fee" by (simp add: unat_div p fee)
  define net where "net = dx - dx * 3 div 1000"
  have "fee \<le> unat dx" by (simp add: fee)
  then have net: "checked_sub_w dx (dx * 3 div 1000) = Some net" "unat net = unat dx - fee"
    using fe by (simp_all add: checked_sub_w_def net_def unat_sub word_le_nat_alt)
  have nu: "checked_mul_w (ucast rout :: u128) (ucast net) = Some (ucast rout * ucast net)"
    "unat (ucast rout * ucast net :: u128) = unat rout * unat net"
    using mult_u64_fits [of rout net] by (simp_all add: checked_mul_w_def unat_mult_small)
  have "unat rin + unat net < 2 ^ LENGTH(128)" using unat_bound [of rin] unat_bound [of net] by simp
  then have de: "checked_add_w (ucast rin :: u128) (ucast net) = Some (ucast rin + ucast net)"
    "unat (ucast rin + ucast net :: u128) = unat rin + unat net"
    by (simp_all add: checked_add_w_def unat_add_small)
  then have dz: "(ucast rin + ucast net :: u128) \<noteq> 0" using nz by (metis add_is_0 unat_0 unat_eq_0)
  define q where "q = (ucast rout * ucast net) div (ucast rin + ucast net :: u128)"
  have q: "unat q = out" using nu de by (simp add: q_def unat_div out net)
  have "out \<le> unat rout * (unat rin + (unat dx - fee)) div (unat rin + (unat dx - fee))"
    unfolding out by (intro div_le_mono) simp
  then have "out < 2 ^ 64" using nz(1) unat_bound [of rout] by (simp add: unat_eq_0)
  then have "\<not> ucast (- 1 :: u64) < q" by (simp add: above_u64_max q)
  moreover have "ucast q = (of_nat out :: u64)" "dx * 3 div 1000 = (of_nat fee :: u64)"
    by (simp_all flip: q fe)
  ultimately show ?thesis
    using nz p net nu de dz by (simp add: batch_swap_output_def checked_div_w_def q_def)
qed

lemma batch_quote_eq:
  "batch_swap_output rin rout dx =
     (if unat dx * 3 < 2 ^ 64 then compute_swap_output rin rout dx 30 else None)"
proof (cases "rin = 0 \<or> rout = 0 \<or> dx = 0 \<or> \<not> unat dx * 3 < 2 ^ 64")
  case True
  then show ?thesis
    by (auto simp: batch_swap_output_def compute_swap_output_def checked_mul_w_def)
next
  case False
  then have nz: "rin \<noteq> 0" "rout \<noteq> 0" "dx \<noteq> 0" and fit: "unat dx * 3 < 2 ^ 64" by auto
  have fe: "unat dx * 3 div 1000 = unat dx * unat (30 :: u16) div 10000"
    using div_mult_mult1 [of 10 "unat dx * 3" 1000] by simp
  have le: "unat dx * 3 div 1000 \<le> unat dx" by simp
  show ?thesis
    using batch_swap_output_eq [OF nz fit refl refl] compute_swap_output_eq [OF nz fe le refl] fit by simp
qed

lemma batch_quote_amm:
  "batch_swap_output rin rout dx = Some r \<Longrightarrow> compute_swap_output rin rout dx 30 = Some r"
  by (simp add: batch_quote_eq split: if_splits)

interpretation batch: swap_quote batch_swap_output
  by unfold_locales (drule batch_quote_amm, erule amm.quote_pos amm.quote_fee amm.quote_out)+

text \<open>
  The two constant-product quotes of the repository agree. The batcher's quote is the market
  maker's quote at a fee of 30 basis points for every input below a third of the 64-bit range, and
  refuses every larger one.
\<close>

theorem batcher_quote_is_amm_quote:
  "batch_swap_output rin rout dx =
     (if unat dx * 3 < 2 ^ 64 then compute_swap_output rin rout dx 30 else None)"
  by (rule batch_quote_eq)

section \<open>The batch\<close>

definition acc_product :: "batch_acc \<Rightarrow> nat" where
  "acc_product acc = unat (ba_reserve_a acc) * unat (ba_reserve_b acc)"

text \<open>Neither reserve would overflow if it received \<open>n\<close> more.\<close>

definition room_for :: "nat \<Rightarrow> batch_acc \<Rightarrow> bool" where
  "room_for n acc \<longleftrightarrow> unat (ba_reserve_a acc) + n < 2 ^ 64 \<and> unat (ba_reserve_b acc) + n < 2 ^ 64"

definition key_offer :: "(txid, order_intent) btree \<Rightarrow> priority_key \<Rightarrow> nat" where
  "key_offer m k = (case bt_get m (pk_tx_id k) of None \<Rightarrow> 0 | Some o1 \<Rightarrow> unat (offer_amount o1))"

lemma match_order_matched:
  "ba_matched (match_order quote pid o1 acc) = ba_matched acc \<or>
   oi_pool_id o1 = pid \<and> ba_matched (match_order quote pid o1 acc) = ba_matched acc @ [order_tx_id o1]"
  by (auto simp: match_order_def split: option.splits prod.splits swap_direction.splits)

context swap_quote
begin

lemma match_order_law:
  assumes "room_for (unat (offer_amount o1) + n) acc"
  shows "acc_product acc \<le> acc_product (match_order quote pid o1 acc) \<and>
    room_for n (match_order quote pid o1 acc)"
proof -
  have fit: "unat (ba_reserve_a acc) + unat (offer_amount o1) < 2 ^ 64"
    "unat (ba_reserve_b acc) + unat (offer_amount o1) < 2 ^ 64"
    using assms by (simp_all add: room_for_def)
  show ?thesis
    using assms fit product_kept [of "ba_reserve_a acc" "ba_reserve_b acc" "offer_amount o1"]
      product_kept [of "ba_reserve_b acc" "ba_reserve_a acc" "offer_amount o1"]
    by (auto simp: match_order_def acc_product_def room_for_def int_simps mult.commute
        split: option.splits swap_direction.splits)
qed

lemma match_fold_law:
  assumes "room_for (sum_list (map (key_offer m) ks) + n) acc"
  shows "acc_product acc \<le> acc_product (fold (match_key quote pid m) ks acc) \<and>
    room_for n (fold (match_key quote pid m) ks acc)"
  using assms
proof (induction ks arbitrary: acc)
  case (Cons k ks)
  have "acc_product acc \<le> acc_product (match_key quote pid m k acc) \<and>
      room_for (sum_list (map (key_offer m) ks) + n) (match_key quote pid m k acc)"
    using Cons.prems match_order_law [where n = "sum_list (map (key_offer m) ks) + n"]
    by (auto simp: match_key_def key_offer_def [of m k] add.assoc split: option.splits)
  with Cons.IH show ?case by fastforce
qed simp

text \<open>The orders a batch matches are a selection of the keys it was given.\<close>

lemma match_fold_matched:
  "\<exists>us. ba_matched (fold (match_key quote pid m) ks acc) = ba_matched acc @ us \<and>
     (\<exists>ks'. subseq ks' ks \<and> (\<forall>k \<in> set ks'. \<exists>o1. bt_get m (pk_tx_id k) = Some o1 \<and> oi_pool_id o1 = pid) \<and>
       us = map (\<lambda>k. order_tx_id (the (bt_get m (pk_tx_id k)))) ks')"
proof (induction ks arbitrary: acc)
  case (Cons k ks)
  let ?acc = "match_key quote pid m k acc"
  obtain us ks' where IH: "ba_matched (fold (match_key quote pid m) ks ?acc) = ba_matched ?acc @ us"
    "subseq ks' ks" "\<forall>k \<in> set ks'. \<exists>o1. bt_get m (pk_tx_id k) = Some o1 \<and> oi_pool_id o1 = pid"
    "us = map (\<lambda>k. order_tx_id (the (bt_get m (pk_tx_id k)))) ks'"
    using Cons.IH by blast
  consider "ba_matched ?acc = ba_matched acc"
    | o1 where "bt_get m (pk_tx_id k) = Some o1" "oi_pool_id o1 = pid"
      "ba_matched ?acc = ba_matched acc @ [order_tx_id o1]"
    using match_order_matched [of quote pid _ acc]
    by (cases "bt_get m (pk_tx_id k)") (auto simp: match_key_def)
  then show ?case
  proof cases
    case 1
    then show ?thesis using IH by auto
  next
    case 2
    then show ?thesis using IH by (intro exI [of _ "order_tx_id o1 # us"] conjI exI [of _ "k # ks'"]) auto
  qed
qed (auto intro: exI [of _ "[]"])

end

lemma order_map_fold:
  assumes "bt_ok m"
  shows "bt_ok (fold (\<lambda>o1. bt_insert (order_tx_id o1) o1) os m) \<and>
    bt_get (fold (\<lambda>o1. bt_insert (order_tx_id o1) o1) os m) =
      bt_get m ++ map_of (rev (map (\<lambda>o1. (order_tx_id o1, o1)) os))"
  using assms by (induction os arbitrary: m) (simp_all add: bt_simps)

lemma order_map_ok: "bt_ok (order_map os)"
  and order_map_get: "bt_get (order_map os) = map_of (rev (map (\<lambda>o1. (order_tx_id o1, o1)) os))"
  using order_map_fold [OF bt.ok_empty, of os] by (simp_all add: order_map_def)

lemma order_map_lookup:
  assumes "distinct (map order_tx_id os)"
  shows "bt_get (order_map os) t = Some o1 \<longleftrightarrow> o1 \<in> set os \<and> order_tx_id o1 = t"
proof -
  have "distinct (map fst (rev (map (\<lambda>o1. (order_tx_id o1, o1)) os)))"
  proof -
    have "map fst (rev (map (\<lambda>o1. (order_tx_id o1, o1)) os)) = rev (map order_tx_id os)"
      by (simp add: rev_map comp_def)
    then show ?thesis using assms by simp
  qed
  then show ?thesis by (auto simp: order_map_get)
qed

lemma intent_key_id [simp]: "pk_tx_id (intent_key o1) = order_tx_id o1"
  by (simp add: intent_key_def order_key_def)

lemma order_map_ext:
  assumes "mset os = mset os'" and "distinct (map order_tx_id os)"
  shows "order_map os = order_map os'"
proof (rule bt.items_ext [OF order_map_ok order_map_ok])
  have "distinct (map order_tx_id os')" using assms by (metis mset_map mset_eq_imp_distinct_iff)
  moreover have "set os = set os'" using assms(1) by (metis set_mset_mset)
  ultimately have "bt_get (order_map os) t = Some o1 \<longleftrightarrow> bt_get (order_map os') t = Some o1" for t o1
    using assms(2) by (simp add: order_map_lookup)
  then show "bt_get (order_map os) = bt_get (order_map os')"
    by (intro ext) (metis option.exhaust)
qed

text \<open>
  The batch does not depend on the order in which the leader collected the intents: any two
  lists with the same orders, one order per identifier, give the same matched sequence, the same
  reserves and the same fees.
\<close>

theorem batch_order_independent:
  assumes "mset os = mset os'" and "distinct (map order_tx_id os)"
  shows "build_amm_batch pool os = build_amm_batch pool os'"
proof -
  have "mset (map intent_key os) = mset (map intent_key os')" using assms(1) by simp
  then have "deterministic_sort (map intent_key os) = deterministic_sort (map intent_key os')"
    unfolding deterministic_sort_def by (intro properties_for_sort) simp_all
  then show ?thesis
    using order_map_ext [OF assms] by (simp add: build_amm_batch_def batch_run_def)
qed

lemma sum_key_offer:
  assumes "distinct (map order_tx_id os)"
  shows "sum_list (map (key_offer (order_map os)) (deterministic_sort (map intent_key os))) =
    sum_list (map (\<lambda>o1. unat (offer_amount o1)) os)"
proof -
  have "sum_list (map (key_offer (order_map os)) (sort (map intent_key os))) =
      sum_list (map (key_offer (order_map os)) (map intent_key os))"
    by (metis mset_map mset_sort sum_mset_sum_list)
  also have "\<dots> = sum_list (map (\<lambda>o1. unat (offer_amount o1)) os)"
  proof -
    have "key_offer (order_map os) (intent_key o1) = unat (offer_amount o1)" if "o1 \<in> set os" for o1
      using that order_map_lookup [OF assms, of "order_tx_id o1" o1] by (simp add: key_offer_def)
    then show ?thesis by (simp cong: map_cong add: comp_def)
  qed
  finally show ?thesis by (simp add: deterministic_sort_def)
qed

lemma distinct_subseq: "subseq xs ys \<Longrightarrow> distinct ys \<Longrightarrow> distinct xs"
  by (induction rule: list_emb.induct) (auto dest: list_emb_set)

lemma matched_distinct:
  assumes d: "distinct (map order_tx_id os)"
  shows "distinct (ba_matched (batch_run pool os)) \<and>
    set (ba_matched (batch_run pool os)) \<subseteq> {order_tx_id o1 |o1. o1 \<in> set os \<and> oi_pool_id o1 = bp_pool_id pool}"
proof -
  let ?m = "order_map os" and ?ks = "deterministic_sort (map intent_key os)"
  obtain ks' where ks': "subseq ks' ?ks"
    "\<forall>k \<in> set ks'. \<exists>o1. bt_get ?m (pk_tx_id k) = Some o1 \<and> oi_pool_id o1 = bp_pool_id pool"
    and mt: "ba_matched (batch_run pool os) = map (\<lambda>k. order_tx_id (the (bt_get ?m (pk_tx_id k)))) ks'"
    using batch.match_fold_matched [of "bp_pool_id pool" ?m ?ks "batch_start pool"]
    by (auto simp: batch_run_def batch_start_def)
  have ids: "map (\<lambda>k. order_tx_id (the (bt_get ?m (pk_tx_id k)))) ks' = map pk_tx_id ks'"
    using ks'(2) order_map_lookup [OF d] by (intro map_cong refl) fastforce
  have "distinct (map pk_tx_id ?ks)"
  proof -
    have "mset (map pk_tx_id ?ks) = mset (map order_tx_id os)"
      by (simp add: deterministic_sort_def image_mset.compositionality comp_def)
    then show ?thesis using d by (metis mset_eq_imp_distinct_iff)
  qed
  moreover have "subseq (map pk_tx_id ks') (map pk_tx_id ?ks)" using ks'(1) by (rule subseq_map)
  ultimately have "distinct (map pk_tx_id ks')" by (rule distinct_subseq [rotated])
  moreover have "pk_tx_id k \<in> {order_tx_id o1 |o1. o1 \<in> set os \<and> oi_pool_id o1 = bp_pool_id pool}"
    if k: "k \<in> set ks'" for k
  proof -
    obtain o1 where "bt_get ?m (pk_tx_id k) = Some o1" "oi_pool_id o1 = bp_pool_id pool"
      using ks'(2) k by blast
    then show ?thesis using order_map_lookup [OF d, of "pk_tx_id k" o1] by (auto intro!: exI [of _ o1])
  qed
  ultimately show ?thesis unfolding mt ids by auto
qed

text \<open>
  A batch keeps the pool's product. When each order has its own identifier and the offers fit
  beside either reserve, the batch is built, the product of the new reserves is at least the old
  one, no order is matched twice and every matched order targets this pool.
\<close>

theorem batch_keeps_product:
  assumes d: "distinct (map order_tx_id os)"
    and fit: "unat (bp_reserve_a pool) + sum_list (map (\<lambda>o1. unat (offer_amount o1)) os) < 2 ^ 64"
      "unat (bp_reserve_b pool) + sum_list (map (\<lambda>o1. unat (offer_amount o1)) os) < 2 ^ 64"
  shows "\<exists>r. build_amm_batch pool os = Inr r \<and>
    unat (bp_reserve_a pool) * unat (bp_reserve_b pool) \<le> unat (new_reserve_a r) * unat (new_reserve_b r) \<and>
    distinct (matched_orders r) \<and>
    set (matched_orders r) \<subseteq> {order_tx_id o1 |o1. o1 \<in> set os \<and> oi_pool_id o1 = bp_pool_id pool}"
proof -
  have "room_for (sum_list (map (key_offer (order_map os)) (deterministic_sort (map intent_key os))) + 0)
      (batch_start pool)"
    using fit by (simp add: sum_key_offer [OF d] room_for_def batch_start_def)
  from batch.match_fold_law [OF this, of "bp_pool_id pool"] show ?thesis
    using matched_distinct [OF d, of pool]
    by (simp add: build_amm_batch_def Let_def batch_run_def acc_product_def)
      (simp add: batch_start_def)
qed

text \<open>
  The side conditions are needed. Two orders under one identifier leave two keys but one map entry,
  so the later order runs twice and the earlier one never; and a reserve that saturates keeps
  less than it was given, so the product can fall.
\<close>

definition demo_order :: "u8 \<Rightarrow> u64 \<Rightarrow> order_intent" where
  "demo_order m offer =
     \<lparr>order_tx_id = Hash256 (replicate 32 m), oi_pool_id = hash_zero, oi_direction = AtoB,
      offer_amount = offer, min_receive = 0, oi_fee_density = 5, oi_timestamp_ms = 9\<rparr>"

definition demo_batch_pool :: "u64 \<Rightarrow> batch_pool" where
  "demo_batch_pool r = \<lparr>bp_pool_id = hash_zero, bp_reserve_a = r, bp_reserve_b = r\<rparr>"

lemma duplicate_order_runs_twice:
  "build_amm_batch (demo_batch_pool 10000) [demo_order 1 500, demo_order 1 1000] =
     Inr \<lparr>br_pool_id = hash_zero, matched_orders = [Hash256 (replicate 32 1), Hash256 (replicate 32 1)],
          new_reserve_a = 12000, new_reserve_b = 8339, total_fees = 6\<rparr>"
proof -
  have q: "batch_swap_output 10000 10000 1000 = Some (906, 3)"
    "batch_swap_output 11000 9094 1000 = Some (755, 3)"
    by (simp_all add: batch_swap_output_eq)
  show ?thesis
    by (simp add: build_amm_batch_def batch_run_def deterministic_sort_def intent_key_def order_key_def
        demo_order_def demo_batch_pool_def order_map_def batch_start_def match_key_def match_order_def q
        sat_add_def sat_sub_def)
qed

lemma saturated_batch_loses_product:
  "\<exists>r. build_amm_batch (demo_batch_pool (- 1)) [demo_order 1 1000000] = Inr r \<and>
     new_reserve_a r = - 1 \<and> new_reserve_b r < - 1"
proof -
  have q: "batch_swap_output (- 1) (- 1) 1000000 = Some (996999, 3000)"
    by (simp add: batch_swap_output_eq unat_minus_one)
  show ?thesis
    by (simp add: build_amm_batch_def batch_run_def deterministic_sort_def intent_key_def order_key_def
        demo_order_def demo_batch_pool_def order_map_def batch_start_def match_key_def match_order_def q
        sat_add_def sat_sub_def unat_minus_one)
qed

section \<open>Instances\<close>

theorem batch_order_independent_witness:
  "build_amm_batch (demo_batch_pool 10000) [demo_order 1 500, demo_order 2 1000] =
   build_amm_batch (demo_batch_pool 10000) [demo_order 2 1000, demo_order 1 500]"
  by (rule batch_order_independent) (simp_all add: demo_order_def)

theorem batch_keeps_product_witness:
  "\<exists>r. build_amm_batch (demo_batch_pool 10000) [demo_order 1 500, demo_order 2 1000] = Inr r \<and>
     100000000 \<le> unat (new_reserve_a r) * unat (new_reserve_b r)"
  using batch_keeps_product [of "[demo_order 1 500, demo_order 2 1000]" "demo_batch_pool 10000"]
  by (auto simp: demo_order_def demo_batch_pool_def)

end
