(* ===== verification/QV_Straight.thy ===== *)
theory QV_Straight
  imports QV_Script
begin

text \<open>
  Symbolic execution for the covenant proofs. On straight-line code the gas of the interpreter is the
  sum of the costs and the stack evolves on its own, so a fragment can be run on a symbolic stack
  once and the runs of a script are composed from the runs of its fragments.
\<close>

named_theorems stack_steps \<open>one instruction on a symbolic stack\<close>

definition straight :: "instruction \<Rightarrow> bool" where
  "straight i \<longleftrightarrow> i_op i \<notin> {OpIf, OpElse, OpEndIf, OpCheckMultiSigPqc}"

definition step_stack ::
  "'z crypto_env_scheme \<Rightarrow> script_context \<Rightarrow> instruction \<Rightarrow> vm_stack \<Rightarrow> vm_stack vm_result" where
  "step_stack E ctx i s = bind_res (exec_op E ctx i s (gas_new 0)) (\<lambda>(s', _). Inr s')"

fun run_stack ::
  "'z crypto_env_scheme \<Rightarrow> script_context \<Rightarrow> instruction list \<Rightarrow> vm_stack \<Rightarrow> vm_stack vm_result" where
  "run_stack E ctx [] s = Inr s"
| "run_stack E ctx (i # is) s = bind_res (step_stack E ctx i s) (run_stack E ctx is)"

definition code_cost :: "instruction list \<Rightarrow> nat" where
  "code_cost is = sum_list (map (\<lambda>i. unat (gas_cost (i_op i))) is)"

lemma code_cost_simps [simp]:
  "code_cost [] = 0" "code_cost (i # is) = unat (gas_cost (i_op i)) + code_cost is"
  "code_cost (is @ js) = code_cost is + code_cost js"
  by (simp_all add: code_cost_def)

lemma run_stack_append:
  "run_stack E ctx (is @ js) s = bind_res (run_stack E ctx is s) (run_stack E ctx js)"
proof (induction "is" arbitrary: s)
  case (Cons i "is")
  show ?case by (cases "step_stack E ctx i s") (simp_all add: Cons)
qed simp

lemma exec_straight:
  assumes "straight i"
  shows "exec_op E ctx i s g = bind_res (step_stack E ctx i s) (\<lambda>s'. Inr (s', g))"
proof (cases "i_op i \<in> crypto_ops")
  case True
  then have "i_op i \<in> {OpCheckSigPqc, OpHashSha3, OpHashBlake3}"
    using assms by (auto simp: straight_def crypto_ops_def)
  then show ?thesis
    by (auto simp: step_stack_def exec_op_def exec_crypto_def crypto_ops_def bind_res_assoc
        case_prod_bind_res split_def)
next
  case False
  then show ?thesis by (simp add: step_stack_def exec_op_def bind_res_assoc)
qed

lemma charge_enough:
  assumes "unat (gas_cost c) \<le> unat r"
  shows "charge_op \<lparr>gas_remaining = r, gas_consumed = u\<rparr> c =
    Inr \<lparr>gas_remaining = r - gas_cost c, gas_consumed = u + gas_cost c\<rparr>"
  using assms by (simp add: charge_op_def gas_charge_def gas_consume_def word_le_nat_alt)

text \<open>Gas after spending \<open>n\<close> units.\<close>

definition spent :: "nat \<Rightarrow> gas_meter \<Rightarrow> gas_meter" where
  "spent n g = \<lparr>gas_remaining = gas_remaining g - of_nat n, gas_consumed = gas_consumed g + of_nat n\<rparr>"

lemma spent_0 [simp]: "spent 0 g = g"
  by (simp add: spent_def)

lemma spent_spent [simp]: "spent m (spent n g) = spent (n + m) g"
  by (simp add: spent_def algebra_simps)

lemma spent_remaining:
  assumes "n \<le> unat (gas_remaining g)"
  shows "unat (gas_remaining (spent n g)) = unat (gas_remaining g) - n"
proof -
  have "unat (of_nat n :: u64) = n"
    using assms unat_bound [of "gas_remaining g"] by (intro unat_of_nat_small) simp
  then show ?thesis using assms by (simp add: spent_def unat_sub word_le_nat_alt)
qed

lemma charge_spent:
  "unat (gas_cost c) \<le> unat (gas_remaining g) \<Longrightarrow> charge_op g c = Inr (spent (unat (gas_cost c)) g)"
  by (cases g) (simp add: charge_enough spent_def)

lemma charge_all_spent:
  "code_cost is \<le> unat (gas_remaining g) \<Longrightarrow> charge_all g is = Inr (spent (code_cost is) g)"
proof (induction "is" arbitrary: g)
  case (Cons i "is")
  then show ?case by (simp add: charge_spent spent_remaining)
qed simp

text \<open>Straight-line code as a structured program, in front of the rest.\<close>

fun basics :: "instruction list \<Rightarrow> prog \<Rightarrow> prog" where
  "basics [] p = p"
| "basics (i # is) p = Basic i (basics is p)"

lemma flat_basics [simp]: "flat (basics is p) = is @ flat p"
  by (induction "is") auto

lemma prog_wf_basics: "list_all straight is \<Longrightarrow> prog_wf (basics is p) = prog_wf p"
  by (induction "is") (auto simp: straight_def)

lemma denote_basics:
  assumes "list_all straight is" and "code_cost is \<le> unat (gas_remaining g)"
  shows "denote E ctx (basics is p) s g =
    bind_res (run_stack E ctx is s) (\<lambda>s'. denote E ctx p s' (spent (code_cost is) g))"
  using assms
proof (induction "is" arbitrary: s g)
  case (Cons i "is")
  then show ?case
    by (cases "step_stack E ctx i s")
      (simp_all add: exec_straight charge_spent spent_remaining)
qed simp

lemma run_straight:
  assumes "list_all straight is" and "code_cost is \<le> unat lim"
  shows "execute_instructions E is ctx (gas_new lim) =
    bind_res (run_stack E ctx is []) (\<lambda>s. Inr
      \<lparr>success = (case s of [] \<Rightarrow> False | v # _ \<Rightarrow> is_truthy v), gas_used = of_nat (code_cost is),
       final_stack = rev s\<rparr>)"
proof -
  have "prog_wf (basics is Done)" using prog_wf_basics [OF assms(1)] by simp
  then have "run_instrs E ctx is (mk_vm [] [] (gas_new lim)) =
      bind_res (denote E ctx (basics is Done) [] (gas_new lim)) (\<lambda>(s, g). Inr (mk_vm s [] g))"
    using run_taken [of "basics is Done" "[]"] by simp
  then show ?thesis
    using assms
    by (simp add: execute_instructions_def vm_init_def denote_basics gas_new_def bind_res_assoc
        vm_finish_def spent_def cong: bind_res_cong)
qed

text \<open>
  A script with one conditional between straight-line parts: both branches are charged, one runs.
\<close>

definition cond_prog ::
  "instruction list \<Rightarrow> instruction list \<Rightarrow> instruction list \<Rightarrow> instruction list \<Rightarrow> prog" where
  "cond_prog as ts es cs = basics as (Cond (basics ts Done) (basics es Done) (basics cs Done))"

definition branch ::
  "'z crypto_env_scheme \<Rightarrow> script_context \<Rightarrow> instruction list \<Rightarrow> instruction list \<Rightarrow> vm_stack \<Rightarrow> vm_stack vm_result" where
  "branch E ctx ts es s =
     bind_res (vm_pop s) (\<lambda>(v, s). if is_truthy v then run_stack E ctx ts s else run_stack E ctx es s)"

lemma flat_cond_prog:
  "flat (cond_prog as ts es cs) = as @ instr_simple OpIf # ts @ instr_simple OpElse # es @ instr_simple OpEndIf # cs"
  by (simp add: cond_prog_def)

lemma cond_costs [simp]: "gas_cost OpIf = 2" "gas_cost OpElse = 2" "gas_cost OpEndIf = 2"
  by (simp_all add: gas_cost_def)

lemma denote_cond:
  assumes "list_all straight as" "list_all straight ts" "list_all straight es" "list_all straight cs"
    and "code_cost as + code_cost ts + code_cost es + code_cost cs + 6 \<le> unat (gas_remaining g)"
  shows "denote E ctx (cond_prog as ts es cs) s g =
    bind_res (run_stack E ctx as s) (\<lambda>s. bind_res (branch E ctx ts es s) (\<lambda>s.
    bind_res (run_stack E ctx cs s) (\<lambda>s.
      Inr (s, spent (code_cost as + code_cost ts + code_cost es + code_cost cs + 6) g))))"
  using assms
  by (simp add: cond_prog_def denote_basics branch_def charge_spent charge_all_spent spent_remaining
      bind_res_assoc case_prod_bind_res split_def if_distrib [where f = "\<lambda>m. bind_res m _"]
      algebra_simps cong: bind_res_cong if_cong)
    (simp add: eval_nat_numeral cong: if_cong)

lemma run_cond:
  assumes "list_all straight as" "list_all straight ts" "list_all straight es" "list_all straight cs"
    and "code_cost as + code_cost ts + code_cost es + code_cost cs + 6 \<le> unat lim"
  shows "execute_instructions E (flat (cond_prog as ts es cs)) ctx (gas_new lim) =
    bind_res (run_stack E ctx as []) (\<lambda>s. bind_res (branch E ctx ts es s) (\<lambda>s.
    bind_res (run_stack E ctx cs s) (\<lambda>s. Inr
      \<lparr>success = (case s of [] \<Rightarrow> False | v # _ \<Rightarrow> is_truthy v),
       gas_used = of_nat (code_cost as + code_cost ts + code_cost es + code_cost cs + 6),
       final_stack = rev s\<rparr>)))"
proof -
  have "prog_wf (cond_prog as ts es cs)" using assms by (simp add: cond_prog_def prog_wf_basics)
  then have "run_instrs E ctx (flat (cond_prog as ts es cs)) (mk_vm [] [] (gas_new lim)) =
      bind_res (denote E ctx (cond_prog as ts es cs) [] (gas_new lim)) (\<lambda>(s, g). Inr (mk_vm s [] g))"
    using run_taken [of "cond_prog as ts es cs" "[]"] by simp
  moreover have "code_cost as + code_cost ts + code_cost es + code_cost cs + 6 \<le> unat (gas_remaining (gas_new lim))"
    using assms(5) by (simp add: gas_new_def)
  note denote_cond [OF assms(1-4) this, of E ctx "[]"]
  ultimately show ?thesis
    by (simp add: execute_instructions_def vm_init_def bind_res_assoc vm_finish_def cong: bind_res_cong)
      (simp add: spent_def gas_new_def)
qed

section \<open>One instruction\<close>

lemma bind_res_return [simp]: "bind_res m Inr = m"
  by (cases m) auto

lemma step_push [stack_steps]:
  "step_stack E ctx (push_int n) s = vm_push s (VInt n)"
  "step_stack E ctx (push_bytes d) s = vm_push s (VBytes d)"
  by (simp_all add: step_stack_def exec_push_bytes exec_push_int bind_res_assoc)

lemma step_op [stack_steps]:
  "step_stack E ctx (instr_simple Op0) s = vm_push s (VInt 0)"
  "step_stack E ctx (instr_simple Op1) s = vm_push s (VInt 1)"
  "step_stack E ctx (instr_simple OpDup) (a # s) = vm_push (a # s) a"
  "step_stack E ctx (instr_simple OpDrop) (a # s) = Inr s"
  "step_stack E ctx (instr_simple OpSwap) (b # a # s) = bind_res (vm_push s b) (\<lambda>s. vm_push s a)"
  "step_stack E ctx (instr_simple OpOver) (b # a # s) = vm_push (b # a # s) a"
  "step_stack E ctx (instr_simple OpRot) (c # b # a # s) = vm_push (c # b # s) a"
  "step_stack E ctx (instr_simple OpEq) (b # a # s) = vm_push s (value_of_bool (a = b))"
  "step_stack E ctx (instr_simple OpGe) (VInt y # VInt x # s) = vm_push s (value_of_bool (sint y \<le> sint x))"
  "step_stack E ctx (instr_simple OpLe) (VInt y # VInt x # s) = vm_push s (value_of_bool (sint x \<le> sint y))"
  "step_stack E ctx (instr_simple OpSub) (VInt y # VInt x # s) = vm_push s (VInt (x - y))"
  "step_stack E ctx (instr_simple OpMul) (VInt y # VInt x # s) = vm_push s (VInt (x * y))"
  "step_stack E ctx (instr_simple OpMulU128) (VInt y # VInt x # s) =
     vm_push s (VBytes (le_bytes 16 (unat ((ucast x :: u128) * ucast y))))"
  "step_stack E ctx (instr_simple OpGeU128) (VBytes d' # VBytes d # s) =
     (if length d \<noteq> 16 \<or> length d' \<noteq> 16 then Inl (Error TypeError)
      else vm_push s (value_of_bool (le_val d' \<le> le_val d)))"
  "step_stack E ctx (instr_simple OpVerify) (a # s) =
     (if is_truthy a then Inr s else Inl (Error VerifyFailed))"
  "step_stack E ctx (instr_simple OpHashSha3) (a # s) = vm_push s (VBytes (sha3_256 E (to_canonical_bytes a)))"
  "step_stack E ctx (instr_simple OpCat) (b # a # s) =
     vm_push s (VBytes (to_canonical_bytes a @ to_canonical_bytes b))"
  "step_stack E ctx (instr_simple OpLen) (VBytes d # s) = vm_push s (VInt (of_nat (length d)))"
  "step_stack E ctx (instr_simple OpSlice) (VInt n # VInt off # VBytes d # s) =
     (if length d < unat (sat_add off n) then Inl (Error SliceOutOfBounds)
      else vm_push s (VBytes (take (unat (sat_add off n) - unat off) (drop (unat off) d))))"
  "step_stack E ctx (instr_simple OpBytesToInt) (VInt n # VBytes d # s) =
     (if \<not> (1 \<le> sint n \<and> sint n \<le> 8) then Inl (Error TypeError)
      else if length d \<noteq> unat n then Inl (Error TypeError) else vm_push s (VInt (of_nat (le_val d))))"
  "step_stack E ctx (instr_simple OpCheckSigPqc) (c # b # a # s) = vm_push s (value_of_bool
     (checksig_pqc E (to_canonical_bytes c) (to_canonical_bytes b) (to_canonical_bytes a)))"
  "step_stack E ctx (instr_simple OpSelfScriptHash) s = vm_push s (VBytes (locking_script_hash ctx))"
  "step_stack E ctx (instr_simple OpSlotNumber) s = vm_push s (VInt (current_slot ctx))"
  by (simp_all add: step_stack_def exec_op_def op_groups exec_const_def
      exec_stack_op_def exec_arith_def exec_compare_def exec_control_def exec_crypto_def
      exec_introspect_def exec_data_def bin_int_op_def cmp_int_op_def remove_nth_def numeral_2_eq_2
      bind_res_assoc Let_def)

lemma vm_push_room [stack_steps]: "length s < MAX_STACK_DEPTH \<Longrightarrow> vm_push s v = Inr (v # s)"
  by (simp add: vm_push_def)

lemma straight_ops [simp]:
  "straight (push_int n)" "straight (push_bytes d)"
  "straight (instr_simple c) \<longleftrightarrow> c \<notin> {OpIf, OpElse, OpEndIf, OpCheckMultiSigPqc}"
  by (auto simp: straight_def push_bytes_def)

end
