(* ===== verification/QV_Covenant.thy ===== *)
theory QV_Covenant
  imports QV_Straight QV_Amm
begin

text \<open>
  The pool covenants of \<open>qv-script/src/templates.rs\<close>: the scripts that lock a market-maker pool.
  The builder fragments are functions on the builder, as in the code; the proofs run each
  fragment once on a symbolic stack and compose the runs.
\<close>

section \<open>The builder fragments\<close>

definition sb_seq :: "script_builder \<Rightarrow> (script_builder \<Rightarrow> script_builder) list \<Rightarrow> script_builder" where
  "sb_seq b fs = fold (\<lambda>f b. f b) fs b"

definition POOL_INPUT_INDEX :: i64 where "POOL_INPUT_INDEX = 0"
definition POOL_OUTPUT_INDEX :: i64 where "POOL_OUTPUT_INDEX = 0"
definition POOL_DATUM_RESERVE_LEN :: nat where "POOL_DATUM_RESERVE_LEN = 8"

definition assert_pool_datum_len :: "script_builder \<Rightarrow> opcode \<Rightarrow> script_builder" where
  "assert_pool_datum_len b read_op =
     sb_seq b [sb_push_int POOL_INPUT_INDEX, sb_op read_op, sb_op OpLen,
       sb_push_int (of_nat POOL_DATUM_LEN), sb_op OpEq, sb_op OpVerify]"

definition assert_pool_datum_field ::
  "script_builder \<Rightarrow> opcode \<Rightarrow> nat \<Rightarrow> bytes \<Rightarrow> script_builder" where
  "assert_pool_datum_field b read_op off expected =
     sb_seq b [sb_push_int POOL_INPUT_INDEX, sb_op read_op, sb_push_int (of_nat off),
       sb_push_int (of_nat (length expected)), sb_op OpSlice, sb_push_bytes expected, sb_op OpEq,
       sb_op OpVerify]"

definition push_pool_reserve :: "script_builder \<Rightarrow> opcode \<Rightarrow> nat \<Rightarrow> script_builder" where
  "push_pool_reserve b read_op off =
     sb_seq b [sb_push_int POOL_INPUT_INDEX, sb_op read_op, sb_push_int (of_nat off),
       sb_push_int (of_nat POOL_DATUM_RESERVE_LEN), sb_op OpSlice,
       sb_push_int (of_nat POOL_DATUM_RESERVE_LEN), sb_op OpBytesToInt]"

definition amm_pool_lock :: "bytes \<Rightarrow> bytes \<Rightarrow> u16 \<Rightarrow> bytes" where
  "amm_pool_lock ta tb fee =
     (let fee_le = le_bytes 2 (unat fee);
          b = sb_new;
          b = assert_pool_datum_len b OpReadInputDatum;
          b = assert_pool_datum_len b OpReadOutputDatum;
          b = assert_pool_datum_field b OpReadInputDatum POOL_DATUM_TOKEN_A_OFFSET ta;
          b = assert_pool_datum_field b OpReadOutputDatum POOL_DATUM_TOKEN_A_OFFSET ta;
          b = assert_pool_datum_field b OpReadInputDatum POOL_DATUM_TOKEN_B_OFFSET tb;
          b = assert_pool_datum_field b OpReadOutputDatum POOL_DATUM_TOKEN_B_OFFSET tb;
          b = assert_pool_datum_field b OpReadInputDatum POOL_DATUM_FEE_BPS_OFFSET fee_le;
          b = assert_pool_datum_field b OpReadOutputDatum POOL_DATUM_FEE_BPS_OFFSET fee_le;
          b = push_pool_reserve b OpReadOutputDatum POOL_DATUM_RESERVE_A_OFFSET;
          b = push_pool_reserve b OpReadOutputDatum POOL_DATUM_RESERVE_B_OFFSET;
          b = sb_op OpMulU128 b;
          b = push_pool_reserve b OpReadInputDatum POOL_DATUM_RESERVE_A_OFFSET;
          b = push_pool_reserve b OpReadInputDatum POOL_DATUM_RESERVE_B_OFFSET;
          b = sb_op OpMulU128 b;
          b = sb_seq b [sb_op OpGeU128, sb_op OpVerify]
      in sb_build (sb_seq b [sb_push_int POOL_OUTPUT_INDEX, sb_op OpSelfScriptHash,
           sb_op OpAssertOutputScriptHash, sb_op Op1]))"

section \<open>The fragments as instruction lists\<close>

definition read_datum :: "script_context \<Rightarrow> opcode \<Rightarrow> bytes option" where
  "read_datum ctx c =
     (if c = OpReadInputDatum
      then (case resolved_inputs ctx of [] \<Rightarrow> None | out # _ \<Rightarrow> Some (datum_bytes out))
      else (case tx_outputs (ctx_tx ctx) of [] \<Rightarrow> None | out # _ \<Rightarrow> Some (datum_bytes out)))"

abbreviation is_read :: "opcode \<Rightarrow> bool" where
  "is_read c \<equiv> c \<in> {OpReadInputDatum, OpReadOutputDatum}"

definition num :: "nat \<Rightarrow> instruction" where
  "num n = (if n = 0 then instr_simple Op0 else if n = 1 then instr_simple Op1 else push_int (of_nat n))"

lemma sb_push_num: "n < 2 ^ 64 \<Longrightarrow> sb_push_int (of_nat n) b = b @ [num n]"
proof -
  assume n: "n < 2 ^ 64"
  have u: "unat (of_nat n :: i64) = n" using n by (intro unat_of_nat_small) simp
  have "(of_nat n = (0 :: i64)) = (n = 0)" by (simp only: word_unat_eq_iff u unat_0)
  moreover have "(of_nat n = (1 :: i64)) = (n = 1)" by (simp only: word_unat_eq_iff u unsigned_1)
  ultimately show ?thesis by (simp add: sb_push_int_def num_def)
qed

lemma step_num [stack_steps]: "step_stack E ctx (num n) s = vm_push s (VInt (of_nat n))"
  by (simp add: num_def stack_steps)

lemma num_simps [simp]: "straight (num n)" "instr_wf (num n)"
  by (auto simp: num_def simple_wf is_push_def)

lemma num_cost: "unat (gas_cost (i_op (num n))) \<le> 10"
  by (simp add: num_def)

lemma length_encode_num: "length (instr_encode (num n)) \<le> 9"
  by (auto simp: num_def length_encode_push_int length_encode_simple is_push_def)

text \<open>Reading the datum of input or output 0.\<close>

lemma step_read [stack_steps]:
  assumes "is_read c"
  shows "step_stack E ctx (instr_simple c) (VInt 0 # s) =
    (case read_datum ctx c of None \<Rightarrow> Inl (Error (IndexOutOfRange 0 0)) | Some d \<Rightarrow> vm_push s (VBytes d))"
  using assms
  by (auto simp: step_stack_def exec_op_def op_groups exec_introspect_def pop_indexed_def read_datum_def
      bind_res_assoc split: list.splits)


lemma sb_seq_simps [simp]:
  "sb_seq b [] = b" "sb_seq b (f # fs) = sb_seq (f b) fs"
  by (simp_all add: sb_seq_def)

lemma sb_op_append: "sb_op c b = b @ [instr_simple c]"
  by (simp add: sb_op_def)

lemma sb_push_bytes_append: "sb_push_bytes d b = b @ [push_bytes d]"
  by (simp add: sb_push_bytes_def)

lemma sb_push_zero: "sb_push_int 0 b = b @ [num 0]"
  using sb_push_num [of 0] by simp

lemmas sb_append = sb_op_append sb_push_bytes_append sb_push_num sb_push_zero

definition len_code :: "opcode \<Rightarrow> nat \<Rightarrow> instruction list" where
  "len_code c n = [num 0, instr_simple c, instr_simple OpLen, num n, instr_simple OpEq, instr_simple OpVerify]"

definition field_code :: "opcode \<Rightarrow> nat \<Rightarrow> bytes \<Rightarrow> instruction list" where
  "field_code c off e = [num 0, instr_simple c, num off, num (length e), instr_simple OpSlice, push_bytes e,
     instr_simple OpEq, instr_simple OpVerify]"

definition u64_code :: "opcode \<Rightarrow> nat \<Rightarrow> instruction list" where
  "u64_code c off = [num 0, instr_simple c, num off, num 8, instr_simple OpSlice, num 8, instr_simple OpBytesToInt]"

definition continuity_code :: "instruction list" where
  "continuity_code = [num 0, instr_simple OpSelfScriptHash, instr_simple OpAssertOutputScriptHash, instr_simple Op1]"

lemmas code_defs = len_code_def field_code_def u64_code_def continuity_code_def

lemma fragment_code:
  "assert_pool_datum_len b c = b @ len_code c POOL_DATUM_LEN"
  "off < 2 ^ 64 \<Longrightarrow> length e < 2 ^ 64 \<Longrightarrow> assert_pool_datum_field b c off e = b @ field_code c off e"
  "off < 2 ^ 64 \<Longrightarrow> push_pool_reserve b c off = b @ u64_code c off"
  by (simp_all add: assert_pool_datum_len_def assert_pool_datum_field_def push_pool_reserve_def code_defs
      POOL_INPUT_INDEX_def POOL_DATUM_LEN_def POOL_DATUM_RESERVE_LEN_def sb_append
      del: of_nat_numeral)

section \<open>Running the fragments\<close>

text \<open>What a fragment leaves when the datum it reads has the expected shape.\<close>

lemma unat_slice_end:
  assumes "off + n < 2 ^ 63"
  shows "unat (sat_add (of_nat off) (of_nat n) :: i64) = off + n" "unat (of_nat off :: i64) = off"
proof -
  have "unat (of_nat off :: i64) = off" "unat (of_nat n :: i64) = n"
    using assms by (auto intro!: unat_of_nat_small)
  then show "unat (sat_add (of_nat off) (of_nat n) :: i64) = off + n" "unat (of_nat off :: i64) = off"
    using assms by (simp_all add: int_simps)
qed

lemma run_len_code:
  assumes "is_read c" and "length s + 4 \<le> MAX_STACK_DEPTH" and "n < 2 ^ 63"
    and "read_datum ctx c = Some d" and "length d < 2 ^ 63"
  shows "run_stack E ctx (len_code c n) s =
    (if length d = n then Inr s else Inl (Error VerifyFailed))"
proof -
  have "(of_nat (length d) = (of_nat n :: i64)) = (length d = n)"
  proof
    assume "of_nat (length d) = (of_nat n :: i64)"
    then have "unat (of_nat (length d) :: i64) = unat (of_nat n :: i64)" by simp
    then show "length d = n" using assms(3,5) by (simp add: unat_of_nat_small)
  qed simp
  then show ?thesis using assms(1,2,4) by (simp add: len_code_def stack_steps)
qed

lemma run_field_code:
  assumes "is_read c" and "length s + 4 \<le> MAX_STACK_DEPTH" and "read_datum ctx c = Some d"
    and "off + length e \<le> length d" and "length d < 2 ^ 63"
  shows "run_stack E ctx (field_code c off e) s =
    (if take (length e) (drop off d) = e then Inr s else Inl (Error VerifyFailed))"
  using assms unat_slice_end [of off "length e"]
  by (simp add: field_code_def stack_steps del: of_nat_numeral unsigned_of_nat)

lemma run_u64_code:
  assumes "is_read c" and "length s + 4 \<le> MAX_STACK_DEPTH" and "read_datum ctx c = Some d"
    and "off + 8 \<le> length d" and "length d < 2 ^ 63"
  shows "run_stack E ctx (u64_code c off) s = Inr (VInt (of_nat (le_val (take 8 (drop off d)))) # s)"
  using assms unat_slice_end [of off 8]
  by (simp add: u64_code_def stack_steps)

lemma step_continuity:
  assumes "length s + 3 \<le> MAX_STACK_DEPTH"
  shows "run_stack E ctx continuity_code s =
    (case tx_outputs (ctx_tx ctx) of
       [] \<Rightarrow> Inl (Error (IndexOutOfRange 0 0))
     | out # _ \<Rightarrow>
         if hbytes (script_hash_of E (locking_script out)) = locking_script_hash ctx then Inr (VInt 1 # s)
         else Inl (Error (CovenantFailed ''output script hash mismatch'')))"
  using assms
  by (auto simp: continuity_code_def stack_steps)
    (auto simp: step_stack_def exec_op_def op_groups exec_covenant_def pop_indexed_def bind_res_assoc
      exec_const_def vm_push_def split: list.splits)

lemma frag_costs:
  "is_read c \<Longrightarrow> code_cost (len_code c n) \<le> 54" "is_read c \<Longrightarrow> code_cost (field_code c off e) \<le> 64"
  "is_read c \<Longrightarrow> code_cost (u64_code c off) \<le> 70" "code_cost continuity_code \<le> 41"
  using num_cost [of 0] num_cost [of n] num_cost [of off] num_cost [of "length e"] num_cost [of 8]
  by (auto simp: code_defs gas_push_bytes) (simp_all add: gas_cost_def)

lemma frag_straight [simp]:
  "is_read c \<Longrightarrow> list_all straight (len_code c n)" "is_read c \<Longrightarrow> list_all straight (field_code c off e)"
  "is_read c \<Longrightarrow> list_all straight (u64_code c off)" "list_all straight continuity_code"
  by (auto simp: code_defs)

lemma frag_wf:
  "is_read c \<Longrightarrow> \<forall>i \<in> set (len_code c n). instr_wf i"
  "is_read c \<Longrightarrow> e \<noteq> [] \<Longrightarrow> length e < 2 ^ 32 \<Longrightarrow> \<forall>i \<in> set (field_code c off e). instr_wf i"
  "is_read c \<Longrightarrow> \<forall>i \<in> set (u64_code c off). instr_wf i"
  "\<forall>i \<in> set continuity_code. instr_wf i"
  by (auto simp: code_defs simple_wf is_push_def push_bytes_wf)

lemma length_encode_append:
  "length (encode_instructions (is @ js)) = length (encode_instructions is) + length (encode_instructions js)"
  "length (encode_instructions (i # is)) = length (instr_encode i) + length (encode_instructions is)"
  "length (encode_instructions []) = 0"
  by (simp_all add: encode_instructions_def)

lemma frag_size:
  "is_read c \<Longrightarrow> length (encode_instructions (len_code c n)) \<le> 22"
  "is_read c \<Longrightarrow> length (encode_instructions (field_code c off e)) \<le> 36 + length e"
  "is_read c \<Longrightarrow> length (encode_instructions (u64_code c off)) \<le> 39"
  "length (encode_instructions continuity_code) \<le> 12"
  using length_encode_num [of 0] length_encode_num [of n] length_encode_num [of off]
    length_encode_num [of "length e"] length_encode_num [of 8] length_encode_push_bytes [of e]
  by (auto simp: code_defs length_encode_append length_encode_simple is_push_def)

text \<open>Code that is straight-line, well formed, and within \<open>n\<close> bytes and \<open>k\<close> gas units.\<close>

definition code_ok :: "nat \<Rightarrow> nat \<Rightarrow> instruction list \<Rightarrow> bool" where
  "code_ok n k is \<longleftrightarrow> list_all straight is \<and> (\<forall>i \<in> set is. instr_wf i) \<and> code_cost is \<le> k \<and>
     length (encode_instructions is) \<le> n"

lemma code_ok_append:
  "code_ok n k is \<Longrightarrow> code_ok n' k' js \<Longrightarrow> code_ok (n + n') (k + k') (is @ js)"
  by (auto simp: code_ok_def length_encode_append)

lemma code_ok_mono: "code_ok n k is \<Longrightarrow> n \<le> n' \<Longrightarrow> k \<le> k' \<Longrightarrow> code_ok n' k' is"
  by (auto simp: code_ok_def)

lemma code_ok_simple:
  assumes "straight (instr_simple c)" and "\<not> is_push c"
  shows "code_ok 1 500 [instr_simple c]"
proof -
  have "unat (gas_cost c) \<le> 500" using assms(1) by (cases c) (simp_all add: gas_cost_def)
  then show ?thesis
    using assms by (simp add: code_ok_def length_encode_append length_encode_simple simple_wf)
qed

lemma code_ok_push: "e \<noteq> [] \<Longrightarrow> length e < 2 ^ 32 \<Longrightarrow> code_ok (length e + 5) 10 [push_bytes e]"
  using length_encode_push_bytes [of e]
  by (simp add: code_ok_def length_encode_append push_bytes_wf gas_push_bytes)

lemma code_ok_num: "code_ok 9 10 [num n]"
  using length_encode_num [of n] num_cost [of n] by (simp add: code_ok_def length_encode_append)

lemma code_ok_Cons: "code_ok n k [i] \<Longrightarrow> code_ok n' k' is \<Longrightarrow> code_ok (n + n') (k + k') (i # is)"
  using code_ok_append [of n k "[i]" n' k' "is"] by simp

lemma code_ok_frag:
  "is_read c \<Longrightarrow> code_ok 22 54 (len_code c n)"
  "is_read c \<Longrightarrow> e \<noteq> [] \<Longrightarrow> length e < 2 ^ 32 \<Longrightarrow> code_ok (36 + length e) 64 (field_code c off e)"
  "is_read c \<Longrightarrow> code_ok 39 70 (u64_code c off)"
  "code_ok 12 41 continuity_code"
  unfolding code_ok_def
  by (intro conjI frag_costs frag_straight frag_wf frag_size; assumption)+

lemmas code_ok_intros = code_ok_frag code_ok_simple code_ok_push code_ok_num code_ok_append code_ok_Cons

text \<open>Running a lock that is well within the limits, behind a witness of the same kind.\<close>

lemma validate_straight:
  assumes "code_ok n k ls" and "n \<le> MAX_SCRIPT_SIZE" and "k \<le> unat DEFAULT_GAS_LIMIT"
  shows "validate_script E (encode_instructions ls) [] tx ins sl =
    bind_res (run_stack E (with_locking_script E (context_new E tx ins sl) (encode_instructions ls)) ls [])
      (\<lambda>s. Inr \<lparr>success = (case s of [] \<Rightarrow> False | v # _ \<Rightarrow> is_truthy v), gas_used = of_nat (code_cost ls),
        final_stack = rev s\<rparr>)"
  using assms validate_script_compiled [of "[]" ls E tx ins sl DEFAULT_GAS_LIMIT]
  by (simp add: validate_script_def code_ok_def run_straight encode_instructions_def)

lemma validate_straight_ok:
  assumes "code_ok n k ls" and "n \<le> MAX_SCRIPT_SIZE" and "k \<le> unat DEFAULT_GAS_LIMIT"
  shows "(\<exists>r. validate_script E (encode_instructions ls) [] tx ins sl = Inr r \<and> success r) \<longleftrightarrow>
    (\<exists>v s. run_stack E (with_locking_script E (context_new E tx ins sl) (encode_instructions ls)) ls [] =
       Inr (v # s) \<and> is_truthy v)"
  unfolding validate_straight [OF assms]
  by (cases "run_stack E (with_locking_script E (context_new E tx ins sl) (encode_instructions ls)) ls []")
    (auto split: list.splits)

lemma lock_ctx [simp]:
  "resolved_inputs (with_locking_script E (context_new E tx ins sl) l) = ins"
  "ctx_tx (context_new E tx ins sl) = tx"
  "current_slot (with_locking_script E (context_new E tx ins sl) l) = sl"
  by (simp_all add: with_locking_script_def context_new_def)

section \<open>The market-maker covenant\<close>

definition amm_code :: "bytes \<Rightarrow> bytes \<Rightarrow> u16 \<Rightarrow> instruction list" where
  "amm_code ta tb fee =
     len_code OpReadInputDatum POOL_DATUM_LEN @ len_code OpReadOutputDatum POOL_DATUM_LEN @
     field_code OpReadInputDatum POOL_DATUM_TOKEN_A_OFFSET ta @
     field_code OpReadOutputDatum POOL_DATUM_TOKEN_A_OFFSET ta @
     field_code OpReadInputDatum POOL_DATUM_TOKEN_B_OFFSET tb @
     field_code OpReadOutputDatum POOL_DATUM_TOKEN_B_OFFSET tb @
     field_code OpReadInputDatum POOL_DATUM_FEE_BPS_OFFSET (le_bytes 2 (unat fee)) @
     field_code OpReadOutputDatum POOL_DATUM_FEE_BPS_OFFSET (le_bytes 2 (unat fee)) @
     u64_code OpReadOutputDatum POOL_DATUM_RESERVE_A_OFFSET @
     u64_code OpReadOutputDatum POOL_DATUM_RESERVE_B_OFFSET @ [instr_simple OpMulU128] @
     u64_code OpReadInputDatum POOL_DATUM_RESERVE_A_OFFSET @
     u64_code OpReadInputDatum POOL_DATUM_RESERVE_B_OFFSET @ [instr_simple OpMulU128] @
     [instr_simple OpGeU128, instr_simple OpVerify] @ continuity_code"

lemma amm_pool_lock_code:
  assumes "length ta = 32" and "length tb = 32"
  shows "amm_pool_lock ta tb fee = encode_instructions (amm_code ta tb fee)"
  using assms
  by (simp add: amm_pool_lock_def amm_code_def Let_def fragment_code pool_datum_offsets sb_op_append
      sb_new_def sb_build_def POOL_OUTPUT_INDEX_def sb_push_zero continuity_code_def)

lemma amm_code_ok:
  assumes "length ta = 32" and "length tb = 32"
  shows "code_ok 1000 3000 (amm_code ta tb fee)"
proof -
  have "ta \<noteq> []" "tb \<noteq> []" using assms by auto
  moreover have "le_bytes 2 (unat fee) \<noteq> []"
    by (metis length_le_bytes list.size(3) zero_neq_numeral)
  moreover note assms
  ultimately show ?thesis
    unfolding amm_code_def
    by - (rule code_ok_mono, (rule code_ok_intros | simp add: is_push_def)+)
qed


lemma pool_decode_total: "length bs = POOL_DATUM_LEN \<Longrightarrow> \<exists>d. pool_datum_from_canonical_bytes bs = Inr d"
  by (simp add: pool_datum_from_canonical_bytes_def read_hash_def read_uint_def get_slice_def
      pool_datum_offsets)

lemma pool_slices:
  assumes "pool_datum_from_canonical_bytes bs = Inr d"
  shows "length bs = 90" "take 32 (drop POOL_DATUM_TOKEN_A_OFFSET bs) = hbytes (token_a_id d)"
    "take 32 (drop POOL_DATUM_TOKEN_B_OFFSET bs) = hbytes (token_b_id d)"
    "take 8 (drop POOL_DATUM_RESERVE_A_OFFSET bs) = le_bytes 8 (unat (reserve_a d))"
    "take 8 (drop POOL_DATUM_RESERVE_B_OFFSET bs) = le_bytes 8 (unat (reserve_b d))"
    "take 2 (drop POOL_DATUM_FEE_BPS_OFFSET bs) = le_bytes 2 (unat (fee_bps d))"
  using pool_datum_encode_decode [OF assms] pool_datum_fields [of d] length_pool_datum [of d]
  by (auto simp: get_slice_def POOL_DATUM_LEN_def split: if_splits)

lemma le_bytes_word_inj:
  assumes "LENGTH('a) = 8 * n"
  shows "le_bytes n (unat (x :: 'a::len word)) = le_bytes n (unat y) \<longleftrightarrow> x = y"
  by (metis of_nat_le_val_unat [OF assms])

text \<open>
  What the script decides: both datums decode, carry the committed tokens and fee, the product
  does not fall, and output 0 is locked by the same script.
\<close>

definition amm_transition ::
  "'z crypto_env_scheme \<Rightarrow> bytes \<Rightarrow> bytes \<Rightarrow> u16 \<Rightarrow> bytes \<Rightarrow> tx_output list \<Rightarrow> tx_output list \<Rightarrow> bool" where
  "amm_transition E ta tb fee lock ins outs \<longleftrightarrow>
     (\<exists>i0 ins' o0 outs' d d'. ins = i0 # ins' \<and> outs = o0 # outs' \<and>
        pool_datum_from_canonical_bytes (datum_bytes i0) = Inr d \<and>
        pool_datum_from_canonical_bytes (datum_bytes o0) = Inr d' \<and>
        hbytes (token_a_id d) = ta \<and> hbytes (token_a_id d') = ta \<and>
        hbytes (token_b_id d) = tb \<and> hbytes (token_b_id d') = tb \<and>
        fee_bps d = fee \<and> fee_bps d' = fee \<and> pool_invariant d \<le> pool_invariant d' \<and>
        hbytes (script_hash_of E (locking_script o0)) = sha3_256 E lock)"

definition small_datums :: "tx_output list \<Rightarrow> bool" where
  "small_datums outs \<longleftrightarrow> (\<forall>out \<in> set outs. length (datum_bytes out) < 2 ^ 63)"

lemma run_amm_code:
  assumes len: "length ta = 32" "length tb = 32"
    and di: "read_datum ctx OpReadInputDatum = Some bi" "pool_datum_from_canonical_bytes bi = Inr d"
    and do: "read_datum ctx OpReadOutputDatum = Some bo" "pool_datum_from_canonical_bytes bo = Inr d'"
  shows "run_stack E ctx (amm_code ta tb fee) [] =
    (if hbytes (token_a_id d) = ta \<and> hbytes (token_a_id d') = ta \<and>
        hbytes (token_b_id d) = tb \<and> hbytes (token_b_id d') = tb \<and>
        fee_bps d = fee \<and> fee_bps d' = fee \<and> pool_invariant d \<le> pool_invariant d'
     then run_stack E ctx continuity_code [] else Inl (Error VerifyFailed))"
proof -
  note si = pool_slices [OF di(2)] and so = pool_slices [OF do(2)]
  have max: "MAX_STACK_DEPTH = 1024" by (simp add: MAX_STACK_DEPTH_def)
  have offs: "POOL_DATUM_TOKEN_A_OFFSET = 0" "POOL_DATUM_TOKEN_B_OFFSET = 32"
    "POOL_DATUM_RESERVE_A_OFFSET = 64" "POOL_DATUM_RESERVE_B_OFFSET = 72" "POOL_DATUM_FEE_BPS_OFFSET = 88"
    "POOL_DATUM_LEN = 90" by (simp_all add: pool_datum_offsets)
  have field: "run_stack E ctx (field_code OpReadInputDatum off e) [] =
        (if take (length e) (drop off bi) = e then Inr [] else Inl (Error VerifyFailed))"
      "run_stack E ctx (field_code OpReadOutputDatum off e) [] =
        (if take (length e) (drop off bo) = e then Inr [] else Inl (Error VerifyFailed))"
    if "off + length e \<le> 90" for off e
    using that run_field_code [of OpReadInputDatum "[]" ctx bi off e E]
      run_field_code [of OpReadOutputDatum "[]" ctx bo off e E]
      di(1) do(1) si(1) so(1) max by simp_all
  have u64: "run_stack E ctx (u64_code OpReadInputDatum off) s = Inr (VInt (of_nat (le_val (take 8 (drop off bi)))) # s)"
      "run_stack E ctx (u64_code OpReadOutputDatum off) s = Inr (VInt (of_nat (le_val (take 8 (drop off bo)))) # s)"
    if "off + 8 \<le> 90" "length s \<le> 10" for off s
    using that run_u64_code [of OpReadInputDatum s ctx bi off E] run_u64_code [of OpReadOutputDatum s ctx bo off E]
      di(1) do(1) si(1) so(1) max by simp_all
  have lens: "run_stack E ctx (len_code OpReadInputDatum 90) [] = Inr []"
    "run_stack E ctx (len_code OpReadOutputDatum 90) [] = Inr []"
    using run_len_code [of OpReadInputDatum "[]" 90 ctx bi E] run_len_code [of OpReadOutputDatum "[]" 90 ctx bo E]
      di(1) do(1) si(1) so(1) max by simp_all
  have ge: "run_stack E ctx [instr_simple OpGeU128, instr_simple OpVerify]
      [VBytes (le_bytes 16 (unat (p :: u128))), VBytes (le_bytes 16 (unat q))] =
      (if p \<le> q then Inr [] else Inl (Error VerifyFailed))" for p q
  proof -
    have "le_val (le_bytes 16 (unat (x :: u128))) = unat x" for x
      using unat_bound [of x] by (simp add: le_val_le_bytes)
    then show ?thesis using max by (simp add: stack_steps word_le_nat_alt)
  qed
  have inv: "pool_invariant e = ucast (reserve_a e) * ucast (reserve_b e)" for e
    using mult_u64_fits [of "reserve_a e" "reserve_b e"] by (simp add: pool_invariant_def sat_mul_def)
  have ge_rest: "run_stack E ctx ([instr_simple OpGeU128, instr_simple OpVerify] @ rest)
      [VBytes (le_bytes 16 (unat (p :: u128))), VBytes (le_bytes 16 (unat q))] =
      (if p \<le> q then run_stack E ctx rest [] else Inl (Error VerifyFailed))" for p q rest
    by (simp only: run_stack_append ge) simp
  have mul: "run_stack E ctx (instr_simple OpMulU128 # rest) (VInt y # VInt x # s) =
      run_stack E ctx rest (VBytes (le_bytes 16 (unat ((ucast x :: u128) * ucast y))) # s)"
    if "length s \<le> 10" for x y rest s
    using that max by (simp add: stack_steps)
  have product: "run_stack E ctx (u64_code OpReadOutputDatum 64 @ u64_code OpReadOutputDatum 72 @
      [instr_simple OpMulU128] @ u64_code OpReadInputDatum 64 @ u64_code OpReadInputDatum 72 @
      [instr_simple OpMulU128] @ [instr_simple OpGeU128, instr_simple OpVerify] @ continuity_code) [] =
      (if pool_invariant d \<le> pool_invariant d' then run_stack E ctx continuity_code []
       else Inl (Error VerifyFailed))"
    using si(4,5) so(4,5) ge_rest [where p = "pool_invariant d" and q = "pool_invariant d'" and rest = continuity_code]
    by (simp add: run_stack_append u64 mul offs inv del: run_stack.simps)
  have fee: "le_bytes 2 (unat (fee_bps e)) = le_bytes 2 (unat fee) \<longleftrightarrow> fee_bps e = fee" for e
    by (rule le_bytes_word_inj) simp
  show ?thesis
    unfolding amm_code_def offs
    using si(1,2,3,6) so(1,2,3,6) len product
    by (simp add: run_stack_append [of _ _ "len_code _ _"] run_stack_append [of _ _ "field_code _ _ _"]
        lens field fee offs)
qed

text \<open>The two length checks at the head of a covenant refuse everything of another shape.\<close>

lemma len_codes_fail:
  assumes bad: "\<not> (\<exists>bi bo. read_datum ctx OpReadInputDatum = Some bi \<and> read_datum ctx OpReadOutputDatum = Some bo \<and>
      length bi = n \<and> length bo = n)"
    and small: "\<And>c b. is_read c \<Longrightarrow> read_datum ctx c = Some b \<Longrightarrow> length b < 2 ^ 63"
    and n: "n < 2 ^ 63" and s: "length s + 4 \<le> MAX_STACK_DEPTH"
  shows "\<exists>f. run_stack E ctx (len_code OpReadInputDatum n @ len_code OpReadOutputDatum n @ rest) s = Inl f"
proof -
  have none: "run_stack E ctx (len_code c n) s = Inl (Error (IndexOutOfRange 0 0))"
    if "is_read c" "read_datum ctx c = None" for c
    using that s by (auto simp: len_code_def stack_steps)
  have some: "run_stack E ctx (len_code c n) s = (if length b = n then Inr s else Inl (Error VerifyFailed))"
    if "is_read c" "read_datum ctx c = Some b" for c b
    using run_len_code [OF that(1) s n that(2) small [OF that], of E] .
  show ?thesis
    using bad none [of OpReadInputDatum] none [of OpReadOutputDatum] some [of OpReadInputDatum]
      some [of OpReadOutputDatum]
    by (cases "read_datum ctx OpReadInputDatum"; cases "read_datum ctx OpReadOutputDatum")
      (auto simp: run_stack_append)
qed

lemma amm_pool_covenant_iff:
  assumes len: "length ta = 32" "length tb = 32" and lock: "lock = amm_pool_lock ta tb fee"
    and small: "small_datums ins" "small_datums (tx_outputs tx)"
  shows "(\<exists>r. validate_script E lock [] tx ins sl = Inr r \<and> success r) \<longleftrightarrow>
    amm_transition E ta tb fee lock ins (tx_outputs tx)"
proof -
  define ctx where "ctx = with_locking_script E (context_new E tx ins sl) lock"
  let ?run = "run_stack E ctx (amm_code ta tb fee) []"
  have code: "lock = encode_instructions (amm_code ta tb fee)" by (simp add: lock amm_pool_lock_code len)
  have ok: "(\<exists>r. validate_script E lock [] tx ins sl = Inr r \<and> success r) \<longleftrightarrow>
      (\<exists>v s. ?run = Inr (v # s) \<and> is_truthy v)"
    unfolding ctx_def code
    by (rule validate_straight_ok [OF amm_code_ok [OF len]])
      (simp_all add: MAX_SCRIPT_SIZE_def DEFAULT_GAS_LIMIT_def)
  have rd: "read_datum ctx OpReadInputDatum = (case ins of [] \<Rightarrow> None | i0 # _ \<Rightarrow> Some (datum_bytes i0))"
    "read_datum ctx OpReadOutputDatum = (case tx_outputs tx of [] \<Rightarrow> None | o0 # _ \<Rightarrow> Some (datum_bytes o0))"
    "locking_script_hash ctx = sha3_256 E lock" "ctx_tx ctx = tx"
    by (simp_all add: ctx_def read_datum_def)
  show ?thesis
  proof (cases "\<exists>i0 ins' o0 outs'. ins = i0 # ins' \<and> tx_outputs tx = o0 # outs' \<and>
      length (datum_bytes i0) = 90 \<and> length (datum_bytes o0) = 90")
    case True
    then obtain i0 ins' o0 outs' where io: "ins = i0 # ins'" "tx_outputs tx = o0 # outs'"
      and l: "length (datum_bytes i0) = POOL_DATUM_LEN" "length (datum_bytes o0) = POOL_DATUM_LEN"
      by (auto simp: POOL_DATUM_LEN_def)
    obtain d d' where d: "pool_datum_from_canonical_bytes (datum_bytes i0) = Inr d"
      "pool_datum_from_canonical_bytes (datum_bytes o0) = Inr d'"
      using pool_decode_total l by blast
    have "?run = (if hbytes (token_a_id d) = ta \<and> hbytes (token_a_id d') = ta \<and>
        hbytes (token_b_id d) = tb \<and> hbytes (token_b_id d') = tb \<and>
        fee_bps d = fee \<and> fee_bps d' = fee \<and> pool_invariant d \<le> pool_invariant d'
     then run_stack E ctx continuity_code [] else Inl (Error VerifyFailed))"
      by (rule run_amm_code [OF len _ d(1) _ d(2)]) (simp_all add: rd io)
    moreover have "run_stack E ctx continuity_code [] =
        (if hbytes (script_hash_of E (locking_script o0)) = sha3_256 E lock then Inr [VInt 1]
         else Inl (Error (CovenantFailed ''output script hash mismatch'')))"
      using step_continuity [of "[]" E ctx] by (simp add: rd io MAX_STACK_DEPTH_def)
    ultimately show ?thesis unfolding ok by (auto simp: amm_transition_def io d split: if_splits)
  next
    case False
    have "\<exists>f. ?run = Inl f"
      unfolding amm_code_def POOL_DATUM_LEN_def
      by (rule len_codes_fail)
        (use False small in \<open>auto simp: rd small_datums_def MAX_STACK_DEPTH_def split: list.splits\<close>)
    moreover have "\<not> amm_transition E ta tb fee lock ins (tx_outputs tx)"
      using False pool_slices(1) by (auto simp: amm_transition_def)
    ultimately show ?thesis unfolding ok by auto
  qed
qed

text \<open>
  C15. The pool covenant decides exactly the pool transition. With the empty witness the script lock
  of a market-maker pool accepts a transaction if and only if the datums of input 0 and output 0
  decode, both carry the committed tokens and fee, the product of the reserves does not fall,
  and output 0 carries the same script. Nothing else is checked: neither the native value nor
  the share count of the successor is constrained.
\<close>

theorem amm_pool_covenant:
  assumes len: "length ta = 32" "length tb = 32" and lock: "lock = amm_pool_lock ta tb fee"
    and small: "small_datums ins" "small_datums (tx_outputs tx)"
  shows "(\<exists>r. validate_script E lock [] tx ins sl = Inr r \<and> success r) \<longleftrightarrow>
    amm_transition E ta tb fee lock ins (tx_outputs tx)"
  using amm_pool_covenant_iff [OF assms] .

section \<open>Instances\<close>

lemma output_sel [simp]:
  "datum_bytes (with_datum out bs) = bs" "datum_bytes (tx_output_new v l) = []"
  "locking_script (with_datum out bs) = locking_script out" "locking_script (tx_output_new v l) = l"
  "out_value (with_datum out bs) = out_value out" "out_value (tx_output_new v l) = v"
  "tx_outputs (tx_new ins outs) = outs" "tx_inputs (tx_new ins outs) = ins"
  by (simp_all add: datum_bytes_def with_datum_def tx_output_new_def tx_new_def)

definition demo_pool_datum :: "u64 \<Rightarrow> u64 \<Rightarrow> pool_datum" where
  "demo_pool_datum ra rb = pool_datum_new hash_zero hash_zero ra rb 30"

definition demo_pool_out :: "u64 \<Rightarrow> u64 \<Rightarrow> tx_output" where
  "demo_pool_out ra rb = with_datum (tx_output_new 50 (amm_pool_lock (replicate 32 0) (replicate 32 0) 30))
     (pool_datum_to_canonical_bytes (demo_pool_datum ra rb))"

lemma demo_pool_datum_sel [simp]:
  "pool_datum_wf (demo_pool_datum ra rb)" "reserve_a (demo_pool_datum ra rb) = ra"
  "reserve_b (demo_pool_datum ra rb) = rb" "fee_bps (demo_pool_datum ra rb) = 30"
  "hbytes (token_a_id (demo_pool_datum ra rb)) = replicate 32 0"
  "hbytes (token_b_id (demo_pool_datum ra rb)) = replicate 32 0"
  by (simp_all add: demo_pool_datum_def pool_datum_new_def pool_datum_wf_def) (simp_all add: hash_zero_def)

lemma demo_pool_out_sel [simp]:
  "datum_bytes (demo_pool_out ra rb) = pool_datum_to_canonical_bytes (demo_pool_datum ra rb)"
  "locking_script (demo_pool_out ra rb) = amm_pool_lock (replicate 32 0) (replicate 32 0) 30"
  "small_datums [demo_pool_out ra rb]"
  by (simp_all add: demo_pool_out_def small_datums_def length_pool_datum POOL_DATUM_LEN_def)

theorem amm_pool_covenant_witness:
  "(\<exists>r. validate_script demo_env (amm_pool_lock (replicate 32 0) (replicate 32 0) 30) []
     (tx_new [] [demo_pool_out 11000 9094]) [demo_pool_out 10000 10000] 5 = Inr r \<and> success r) \<and>
   \<not> (\<exists>r. validate_script demo_env (amm_pool_lock (replicate 32 0) (replicate 32 0) 30) []
     (tx_new [] [demo_pool_out 11000 9000]) [demo_pool_out 10000 10000] 5 = Inr r \<and> success r)"
proof -
  have "(\<exists>r. validate_script demo_env (amm_pool_lock (replicate 32 0) (replicate 32 0) 30) []
      (tx_new [] [demo_pool_out ra rb]) [demo_pool_out 10000 10000] 5 = Inr r \<and> success r) \<longleftrightarrow>
      amm_transition demo_env (replicate 32 0) (replicate 32 0) 30 (amm_pool_lock (replicate 32 0) (replicate 32 0) 30)
        [demo_pool_out 10000 10000] [demo_pool_out ra rb]" for ra rb
    using amm_pool_covenant [of "replicate 32 0" "replicate 32 0" _ 30 "[demo_pool_out 10000 10000]"
        "tx_new [] [demo_pool_out ra rb]" demo_env 5, OF _ _ refl] by simp
  then show ?thesis
    by (simp add: amm_transition_def pool_datum_decode_encode word_le_nat_alt unat_pool_invariant
        script_hash_of_def)
qed

end
