(* ===== verification/QV_Lending.thy ===== *)
theory QV_Lending
  imports QV_Amm
begin

text \<open>
  \<open>qv-defi/src/lending.rs\<close>: the lending pool. The datum with its 146-byte canonical layout, the
  rate model, and the operations on a pool and a position. An operation that mutates both of
  its arguments returns the result together with both, as the caller is left with them.
\<close>

section \<open>Data\<close>

datatype lending_error =
    LdUnderflow
  | LdOverflow
  | LdUnderCollateralized u64 u64
  | LdInsufficientLiquidity
  | LdNoDebt
  | LdInvalidParams
  | LdInterestAccrualOverflow
  | LdZeroAmount
  | LdDatumError string

record lending_datum =
  ld_pool_id :: hash256
  collateral_token_id :: hash256
  debt_token_id :: hash256
  total_collateral :: u64
  total_debt :: u64
  base_rate_bps :: u16
  slope_bps :: u16
  ltv_max_bps :: u16
  liquidation_threshold_bps :: u16
  liquidation_bonus_bps :: u16
  interest_multiplier_q64 :: u128
  last_accrual_slot :: u64

definition lending_datum_new :: "hash256 \<Rightarrow> hash256 \<Rightarrow> u64 \<Rightarrow> u64 \<Rightarrow> lending_datum" where
  "lending_datum_new ct dt tc td =
     \<lparr>ld_pool_id = hash_zero, collateral_token_id = ct, debt_token_id = dt, total_collateral = tc,
      total_debt = td, base_rate_bps = 100, slope_bps = 5000, ltv_max_bps = 7500,
      liquidation_threshold_bps = 8000, liquidation_bonus_bps = 1000,
      interest_multiplier_q64 = push_bit 64 1, last_accrual_slot = 0\<rparr>"

definition lending_validate :: "lending_datum \<Rightarrow> (lending_error, unit) result" where
  "lending_validate d =
     (if 10000 < ltv_max_bps d then Inl LdInvalidParams
      else if 10000 < liquidation_threshold_bps d then Inl LdInvalidParams
      else if 10000 < base_rate_bps d \<or> 10000 < slope_bps d then Inl LdInvalidParams
      else Inr ())"

subsection \<open>The canonical layout\<close>

definition LENDING_DATUM_LEN :: nat where "LENDING_DATUM_LEN = 146"
definition LENDING_DATUM_POOL_ID_OFFSET :: nat where "LENDING_DATUM_POOL_ID_OFFSET = 0"
definition LENDING_DATUM_COLLATERAL_TOKEN_OFFSET :: nat where "LENDING_DATUM_COLLATERAL_TOKEN_OFFSET = 32"
definition LENDING_DATUM_DEBT_TOKEN_OFFSET :: nat where "LENDING_DATUM_DEBT_TOKEN_OFFSET = 64"
definition LENDING_DATUM_TOTAL_COLLATERAL_OFFSET :: nat where "LENDING_DATUM_TOTAL_COLLATERAL_OFFSET = 96"
definition LENDING_DATUM_TOTAL_DEBT_OFFSET :: nat where "LENDING_DATUM_TOTAL_DEBT_OFFSET = 104"
definition LENDING_DATUM_BASE_RATE_OFFSET :: nat where "LENDING_DATUM_BASE_RATE_OFFSET = 112"
definition LENDING_DATUM_SLOPE_OFFSET :: nat where "LENDING_DATUM_SLOPE_OFFSET = 114"
definition LENDING_DATUM_LTV_MAX_OFFSET :: nat where "LENDING_DATUM_LTV_MAX_OFFSET = 116"
definition LENDING_DATUM_LIQ_THRESHOLD_OFFSET :: nat where "LENDING_DATUM_LIQ_THRESHOLD_OFFSET = 118"
definition LENDING_DATUM_LIQ_BONUS_OFFSET :: nat where "LENDING_DATUM_LIQ_BONUS_OFFSET = 120"
definition LENDING_DATUM_INTEREST_MULTIPLIER_OFFSET :: nat where
  "LENDING_DATUM_INTEREST_MULTIPLIER_OFFSET = 122"
definition LENDING_DATUM_LAST_ACCRUAL_SLOT_OFFSET :: nat where "LENDING_DATUM_LAST_ACCRUAL_SLOT_OFFSET = 138"

lemmas lending_offsets = LENDING_DATUM_LEN_def LENDING_DATUM_POOL_ID_OFFSET_def
  LENDING_DATUM_COLLATERAL_TOKEN_OFFSET_def LENDING_DATUM_DEBT_TOKEN_OFFSET_def
  LENDING_DATUM_TOTAL_COLLATERAL_OFFSET_def LENDING_DATUM_TOTAL_DEBT_OFFSET_def
  LENDING_DATUM_BASE_RATE_OFFSET_def LENDING_DATUM_SLOPE_OFFSET_def LENDING_DATUM_LTV_MAX_OFFSET_def
  LENDING_DATUM_LIQ_THRESHOLD_OFFSET_def LENDING_DATUM_LIQ_BONUS_OFFSET_def
  LENDING_DATUM_INTEREST_MULTIPLIER_OFFSET_def LENDING_DATUM_LAST_ACCRUAL_SLOT_OFFSET_def

definition lending_to_canonical_bytes :: "lending_datum \<Rightarrow> bytes" where
  "lending_to_canonical_bytes d =
     hbytes (ld_pool_id d) @ hbytes (collateral_token_id d) @ hbytes (debt_token_id d) @
     le_bytes 8 (unat (total_collateral d)) @ le_bytes 8 (unat (total_debt d)) @
     le_bytes 2 (unat (base_rate_bps d)) @ le_bytes 2 (unat (slope_bps d)) @
     le_bytes 2 (unat (ltv_max_bps d)) @ le_bytes 2 (unat (liquidation_threshold_bps d)) @
     le_bytes 2 (unat (liquidation_bonus_bps d)) @ le_bytes 16 (unat (interest_multiplier_q64 d)) @
     le_bytes 8 (unat (last_accrual_slot d))"

definition lending_from_canonical_bytes :: "bytes \<Rightarrow> (lending_error, lending_datum) result" where
  "lending_from_canonical_bytes bs =
     (if length bs \<noteq> LENDING_DATUM_LEN
      then Inl (LdDatumError (''canonical lending datum must be '' @ nat_str LENDING_DATUM_LEN @
        '' bytes, got '' @ nat_str (length bs)))
      else map_err LdDatumError
        (bind_res (read_hash bs LENDING_DATUM_POOL_ID_OFFSET ''hash slice out of range'') (\<lambda>pid.
         bind_res (read_hash bs LENDING_DATUM_COLLATERAL_TOKEN_OFFSET ''hash slice out of range'') (\<lambda>ct.
         bind_res (read_hash bs LENDING_DATUM_DEBT_TOKEN_OFFSET ''hash slice out of range'') (\<lambda>dt.
         bind_res (read_uint 8 bs LENDING_DATUM_TOTAL_COLLATERAL_OFFSET ''u64 slice out of range'') (\<lambda>tc.
         bind_res (read_uint 8 bs LENDING_DATUM_TOTAL_DEBT_OFFSET ''u64 slice out of range'') (\<lambda>td.
         bind_res (read_uint 2 bs LENDING_DATUM_BASE_RATE_OFFSET ''u16 slice out of range'') (\<lambda>br.
         bind_res (read_uint 2 bs LENDING_DATUM_SLOPE_OFFSET ''u16 slice out of range'') (\<lambda>sl.
         bind_res (read_uint 2 bs LENDING_DATUM_LTV_MAX_OFFSET ''u16 slice out of range'') (\<lambda>ltv.
         bind_res (read_uint 2 bs LENDING_DATUM_LIQ_THRESHOLD_OFFSET ''u16 slice out of range'') (\<lambda>lt.
         bind_res (read_uint 2 bs LENDING_DATUM_LIQ_BONUS_OFFSET ''u16 slice out of range'') (\<lambda>lb.
         bind_res (read_uint 16 bs LENDING_DATUM_INTEREST_MULTIPLIER_OFFSET ''u128 slice out of range'') (\<lambda>im.
         bind_res (read_uint 8 bs LENDING_DATUM_LAST_ACCRUAL_SLOT_OFFSET ''u64 slice out of range'') (\<lambda>la.
           Inr \<lparr>ld_pool_id = pid, collateral_token_id = ct, debt_token_id = dt, total_collateral = tc,
                total_debt = td, base_rate_bps = br, slope_bps = sl, ltv_max_bps = ltv,
                liquidation_threshold_bps = lt, liquidation_bonus_bps = lb,
                interest_multiplier_q64 = im, last_accrual_slot = la\<rparr>)))))))))))))) "

section \<open>Positions and rates\<close>

record lending_position =
  collateral_shares :: u64
  lp_debt :: u64
  last_interest_update :: u64

text \<open>\<open>debt_ratio as u16\<close> keeps the low 16 bits.\<close>

definition is_collateralized :: "lending_position \<Rightarrow> u64 \<Rightarrow> u64 \<Rightarrow> u16 \<Rightarrow> bool" where
  "is_collateralized pos collateral_value debt ltv =
     (if debt = 0 then True
      else let debt_ratio = (case Option.bind (checked_mul_w (ucast debt :: u128) 10000)
             (\<lambda>d. checked_div_w d (ucast collateral_value)) of None \<Rightarrow> - 1 | Some r \<Rightarrow> r)
        in (ucast debt_ratio :: u16) \<le> ltv)"

definition health_factor :: "lending_position \<Rightarrow> u64 \<Rightarrow> u16 \<Rightarrow> (lending_error, u128) result" where
  "health_factor pos collateral_value threshold =
     (if lp_debt pos = 0 then Inr (- 1)
      else bind_res (ok_or (checked_mul_w (ucast collateral_value :: u128) (ucast threshold)) LdOverflow) (\<lambda>n.
        bind_res (ok_or (checked_mul_w n (push_bit 64 1)) LdOverflow) (\<lambda>numerator.
        ok_or (Option.bind (checked_div_w numerator 10000)
          (\<lambda>n. checked_div_w n (ucast (lp_debt pos)))) LdOverflow)))"

definition compute_utilization_bps :: "lending_datum \<Rightarrow> u16" where
  "compute_utilization_bps pool =
     (if total_collateral pool = 0 then 0
      else let util = (case Option.bind (checked_mul_w (ucast (total_debt pool) :: u128) 10000)
             (\<lambda>d. checked_div_w d (ucast (total_collateral pool))) of None \<Rightarrow> 10000 | Some u \<Rightarrow> u)
        in min (ucast util :: u16) 10000)"

definition compute_borrow_rate_bps :: "u16 \<Rightarrow> u16 \<Rightarrow> u16 \<Rightarrow> u32" where
  "compute_borrow_rate_bps util base slope =
     (let additional = (case Option.bind (checked_mul_w (ucast util :: u32) (ucast slope))
        (\<lambda>a. checked_div_w a 10000) of None \<Rightarrow> 0 | Some a \<Rightarrow> a)
      in ucast base + additional)"

definition accrue_interest ::
  "lending_datum \<Rightarrow> u64 \<Rightarrow> u64 \<Rightarrow> (lending_error, unit) result \<times> lending_datum" where
  "accrue_interest pool slot_now slots_per_year =
     (if slot_now = last_accrual_slot pool then (Inr (), pool)
      else case
        (bind_res (ok_or (checked_sub_w slot_now (last_accrual_slot pool)) LdUnderflow) (\<lambda>elapsed.
         let rate = compute_borrow_rate_bps (compute_utilization_bps pool) (base_rate_bps pool) (slope_bps pool)
         in
         bind_res (ok_or (checked_div_w (push_bit 64 (ucast rate :: u128)) 10000) LdOverflow) (\<lambda>r.
         bind_res (ok_or (checked_div_w r (ucast slots_per_year)) LdOverflow) (\<lambda>per_slot.
         bind_res (ok_or (checked_mul_w per_slot (ucast elapsed)) LdInterestAccrualOverflow) (\<lambda>grown.
         bind_res (ok_or (checked_add_w (push_bit 64 1) grown) LdInterestAccrualOverflow) (\<lambda>factor.
         bind_res (ok_or (checked_mul_w (interest_multiplier_q64 pool) factor) LdInterestAccrualOverflow) (\<lambda>m.
           ok_or (checked_div_w m (push_bit 64 1)) LdInterestAccrualOverflow))))))) of
        Inl e \<Rightarrow> (Inl e, pool)
      | Inr m \<Rightarrow> (Inr (), pool\<lparr>interest_multiplier_q64 := m, last_accrual_slot := slot_now\<rparr>))"

definition compute_max_borrow :: "u64 \<Rightarrow> u16 \<Rightarrow> u64" where
  "compute_max_borrow collateral ltv =
     ucast (case Option.bind (checked_mul_w (ucast collateral :: u128) (ucast ltv))
       (\<lambda>c. checked_div_w c 10000) of None \<Rightarrow> 0 | Some c \<Rightarrow> c)"

definition compute_deposit :: "u64 \<Rightarrow> u64 \<Rightarrow> u64 \<Rightarrow> (lending_error, u64) result" where
  "compute_deposit deposit_amount tc ctokens_supply =
     (if deposit_amount = 0 then Inl LdZeroAmount
      else if tc = 0 then Inr deposit_amount
      else bind_res (ok_or (checked_mul_w (ucast ctokens_supply :: u128) (ucast deposit_amount)) LdOverflow) (\<lambda>p.
        bind_res (ok_or (checked_div_w p (ucast tc)) LdOverflow) (\<lambda>ctokens.
        if ucast (- 1 :: u64) < ctokens then Inl LdOverflow else Inr (ucast ctokens))))"

definition compute_liquidation_bonus :: "u64 \<Rightarrow> u16 \<Rightarrow> (lending_error, u64) result" where
  "compute_liquidation_bonus repay_amount bonus =
     bind_res (ok_or (checked_mul_w (ucast repay_amount :: u128) (ucast bonus)) LdOverflow) (\<lambda>p.
     bind_res (ok_or (checked_div_w p 10000) LdOverflow) (\<lambda>b.
       if ucast (- 1 :: u64) < b then Inl LdOverflow else Inr (ucast b)))"

section \<open>Operations\<close>

definition deposit :: "lending_datum \<Rightarrow> u64 \<Rightarrow> (lending_error, unit) result \<times> lending_datum" where
  "deposit pool amount =
     (if amount = 0 then (Inl LdZeroAmount, pool)
      else case checked_add_w (total_collateral pool) amount of
        None \<Rightarrow> (Inl LdOverflow, pool)
      | Some tc \<Rightarrow> (Inr (), pool\<lparr>total_collateral := tc\<rparr>))"

type_synonym lending_pair = "lending_datum \<times> lending_position"

definition borrow ::
  "lending_datum \<Rightarrow> lending_position \<Rightarrow> u64 \<Rightarrow> (lending_error, unit) result \<times> lending_pair" where
  "borrow pool pos amount =
     (if amount = 0 then (Inl LdZeroAmount, pool, pos)
      else let max_borrow = compute_max_borrow (collateral_shares pos) (ltv_max_bps pool) in
        case checked_add_w (lp_debt pos) amount of
          None \<Rightarrow> (Inl LdOverflow, pool, pos)
        | Some new_debt \<Rightarrow>
            if max_borrow < new_debt
            then (Inl (LdUnderCollateralized (collateral_shares pos) new_debt), pool, pos)
            else case checked_add_w (total_debt pool) amount of
              None \<Rightarrow> (Inl LdOverflow, pool, pos)
            | Some td \<Rightarrow> (Inr (), pool\<lparr>total_debt := td\<rparr>, pos\<lparr>lp_debt := new_debt\<rparr>))"

definition repay ::
  "lending_datum \<Rightarrow> lending_position \<Rightarrow> u64 \<Rightarrow> (lending_error, u64) result \<times> lending_pair" where
  "repay pool pos amount =
     (if lp_debt pos = 0 then (Inl LdNoDebt, pool, pos)
      else let repaid = min amount (lp_debt pos) in
        case checked_sub_w (lp_debt pos) repaid of
          None \<Rightarrow> (Inl LdUnderflow, pool, pos)
        | Some debt \<Rightarrow> (let pos = pos\<lparr>lp_debt := debt\<rparr> in
            case checked_sub_w (total_debt pool) repaid of
              None \<Rightarrow> (Inl LdUnderflow, pool, pos)
            | Some td \<Rightarrow> (Inr repaid, pool\<lparr>total_debt := td\<rparr>, pos)))"

definition withdraw ::
  "lending_datum \<Rightarrow> lending_position \<Rightarrow> u64 \<Rightarrow> (lending_error, unit) result \<times> lending_pair" where
  "withdraw pool pos amount =
     (if amount = 0 then (Inl LdZeroAmount, pool, pos)
      else case checked_sub_w (collateral_shares pos) amount of
        None \<Rightarrow> (Inl LdUnderflow, pool, pos)
      | Some new_collateral \<Rightarrow>
          if compute_max_borrow new_collateral (ltv_max_bps pool) < lp_debt pos
          then (Inl (LdUnderCollateralized new_collateral (lp_debt pos)), pool, pos)
          else case checked_sub_w (total_collateral pool) amount of
            None \<Rightarrow> (Inl LdUnderflow, pool, pos)
          | Some tc \<Rightarrow> (Inr (), pool\<lparr>total_collateral := tc\<rparr>, pos\<lparr>collateral_shares := new_collateral\<rparr>))"

definition liquidate ::
  "lending_datum \<Rightarrow> lending_position \<Rightarrow> u64 \<Rightarrow> (lending_error, u64) result \<times> lending_pair" where
  "liquidate pool pos repay_amount =
     (if lp_debt pos = 0 then (Inl LdNoDebt, pool, pos)
      else if lp_debt pos \<le> compute_max_borrow (collateral_shares pos) (ltv_max_bps pool)
      then (Inl LdInvalidParams, pool, pos)
      else let repaid = min repay_amount (lp_debt pos) in
        case bind_res (compute_liquidation_bonus repaid (liquidation_bonus_bps pool))
          (\<lambda>bonus. ok_or (checked_add_w repaid bonus) LdOverflow) of
          Inl e \<Rightarrow> (Inl e, pool, pos)
        | Inr seized \<Rightarrow>
            if collateral_shares pos < seized then (Inl LdOverflow, pool, pos)
            else case checked_sub_w (collateral_shares pos) seized of
              None \<Rightarrow> (Inl LdUnderflow, pool, pos)
            | Some sh \<Rightarrow> (let pos = pos\<lparr>collateral_shares := sh\<rparr> in
                case checked_sub_w (lp_debt pos) repaid of
                  None \<Rightarrow> (Inl LdUnderflow, pool, pos)
                | Some debt \<Rightarrow> (let pos = pos\<lparr>lp_debt := debt\<rparr> in
                    case checked_sub_w (total_collateral pool) seized of
                      None \<Rightarrow> (Inl LdUnderflow, pool, pos)
                    | Some tc \<Rightarrow> (let pool = pool\<lparr>total_collateral := tc\<rparr> in
                        case checked_sub_w (total_debt pool) repaid of
                          None \<Rightarrow> (Inl LdUnderflow, pool, pos)
                        | Some td \<Rightarrow> (Inr seized, pool\<lparr>total_debt := td\<rparr>, pos)))))"

section \<open>The canonical layout is a bijection\<close>

definition lending_datum_wf :: "lending_datum \<Rightarrow> bool" where
  "lending_datum_wf d \<longleftrightarrow> hash_wf (ld_pool_id d) \<and> hash_wf (collateral_token_id d) \<and> hash_wf (debt_token_id d)"

lemma length_lending_datum: "lending_datum_wf d \<Longrightarrow> length (lending_to_canonical_bytes d) = LENDING_DATUM_LEN"
  by (simp add: lending_datum_wf_def hash_wf_def lending_to_canonical_bytes_def LENDING_DATUM_LEN_def)

lemma lending_decode_encode:
  "lending_datum_wf d \<Longrightarrow> lending_from_canonical_bytes (lending_to_canonical_bytes d) = Inr d"
  by (simp add: lending_from_canonical_bytes_def length_lending_datum read_hash_def read_uint_def
      get_slice_def)
    (simp add: lending_to_canonical_bytes_def lending_datum_wf_def hash_wf_def lending_offsets
      of_nat_le_val_unat)

lemma lending_encode_decode:
  assumes "lending_from_canonical_bytes bs = Inr d"
  shows "lending_datum_wf d \<and> lending_to_canonical_bytes d = bs"
proof -
  have len: "length bs = 146"
    using assms by (auto simp: lending_from_canonical_bytes_def LENDING_DATUM_LEN_def split: if_splits)
  have d: "d = \<lparr>ld_pool_id = Hash256 (take 32 bs), collateral_token_id = Hash256 (take 32 (drop 32 bs)),
      debt_token_id = Hash256 (take 32 (drop 64 bs)), total_collateral = of_nat (le_val (take 8 (drop 96 bs))),
      total_debt = of_nat (le_val (take 8 (drop 104 bs))), base_rate_bps = of_nat (le_val (take 2 (drop 112 bs))),
      slope_bps = of_nat (le_val (take 2 (drop 114 bs))), ltv_max_bps = of_nat (le_val (take 2 (drop 116 bs))),
      liquidation_threshold_bps = of_nat (le_val (take 2 (drop 118 bs))),
      liquidation_bonus_bps = of_nat (le_val (take 2 (drop 120 bs))),
      interest_multiplier_q64 = of_nat (le_val (take 16 (drop 122 bs))),
      last_accrual_slot = of_nat (le_val (take 8 (drop 138 bs)))\<rparr>"
    using assms len
    by (simp add: lending_from_canonical_bytes_def read_hash_def read_uint_def get_slice_def lending_offsets)
  have u: "length s = 8 \<Longrightarrow> le_bytes 8 (unat (of_nat (le_val s) :: u64)) = s"
    "length s = 2 \<Longrightarrow> le_bytes 2 (unat (of_nat (le_val s) :: u16)) = s"
    "length s = 16 \<Longrightarrow> le_bytes 16 (unat (of_nat (le_val s) :: u128)) = s" for s
    using le_bytes_of_le_val [where 'a = 64, of s] le_bytes_of_le_val [where 'a = 16, of s]
      le_bytes_of_le_val [where 'a = 128, of s] by simp_all
  have "bs = take 32 bs @ take 32 (drop 32 bs) @ take 32 (drop 64 bs) @ take 8 (drop 96 bs) @
      take 8 (drop 104 bs) @ take 2 (drop 112 bs) @ take 2 (drop 114 bs) @ take 2 (drop 116 bs) @
      take 2 (drop 118 bs) @ take 2 (drop 120 bs) @ take 16 (drop 122 bs) @ take 8 (drop 138 bs)"
    using take_then_drop [of 32 0 bs] take_then_drop [of 32 32 bs] take_then_drop [of 32 64 bs]
      take_then_drop [of 8 96 bs] take_then_drop [of 8 104 bs] take_then_drop [of 2 112 bs]
      take_then_drop [of 2 114 bs] take_then_drop [of 2 116 bs] take_then_drop [of 2 118 bs]
      take_then_drop [of 2 120 bs] take_then_drop [of 16 122 bs] len by simp
  then show ?thesis
    using len by (simp add: d lending_datum_wf_def hash_wf_def lending_to_canonical_bytes_def u)
qed

text \<open>
  The canonical lending datum is a bijection: decoding succeeds exactly on the 146-byte encodings
  of well-formed datums and returns the datum that was encoded.
\<close>

theorem lending_datum_round_trip:
  "lending_from_canonical_bytes bs = Inr d \<longleftrightarrow> lending_datum_wf d \<and> bs = lending_to_canonical_bytes d"
  using lending_decode_encode [of d] lending_encode_decode [of bs d] by auto

section \<open>The books\<close>

definition covered :: "lending_datum \<Rightarrow> lending_position \<Rightarrow> bool" where
  "covered pool pos \<longleftrightarrow> lp_debt pos \<le> compute_max_borrow (collateral_shares pos) (ltv_max_bps pool)"

text \<open>
  What the pool relies on from an operation on one position: applied to a position on the books
  that is covered, the totals of the pool move exactly as the position does, the position stays
  covered, and the risk parameter is untouched, whether the operation succeeds or fails.
\<close>

locale position_op =
  fixes op :: "lending_datum \<Rightarrow> lending_position \<Rightarrow> u64 \<Rightarrow> 'r \<times> lending_pair"
  assumes moves: "covered pool pos \<Longrightarrow> lp_debt pos \<le> total_debt pool \<Longrightarrow>
      collateral_shares pos \<le> total_collateral pool \<Longrightarrow> op pool pos a = (r, pool', pos') \<Longrightarrow>
      unat (total_debt pool') + unat (lp_debt pos) = unat (total_debt pool) + unat (lp_debt pos') \<and>
      unat (total_collateral pool') + unat (collateral_shares pos) =
        unat (total_collateral pool) + unat (collateral_shares pos')"
    and keeps: "covered pool pos \<Longrightarrow> op pool pos a = (r, pool', pos') \<Longrightarrow>
      covered pool' pos' \<and> ltv_max_bps pool' = ltv_max_bps pool"

definition books_ok :: "lending_datum \<times> lending_position list \<Rightarrow> bool" where
  "books_ok S \<longleftrightarrow> (case S of (pool, ps) \<Rightarrow>
     unat (total_debt pool) = sum_list (map (\<lambda>p. unat (lp_debt p)) ps) \<and>
     sum_list (map (\<lambda>p. unat (collateral_shares p)) ps) \<le> unat (total_collateral pool) \<and>
     list_all (covered pool) ps)"

definition apply_at ::
  "(lending_datum \<Rightarrow> lending_position \<Rightarrow> 'r \<times> lending_pair) \<Rightarrow> nat \<Rightarrow>
     lending_datum \<times> lending_position list \<Rightarrow> lending_datum \<times> lending_position list" where
  "apply_at f i S = (case S of (pool, ps) \<Rightarrow>
     if i < length ps then (case f pool (ps ! i) of (r, pool', pos') \<Rightarrow> (pool', ps[i := pos'])) else (pool, ps))"

lemma sum_list_replace:
  assumes "i < length xs"
  shows "sum_list (map f (xs[i := y])) + f (xs ! i) = sum_list (map f xs) + (f y :: nat)"
  using assms by (induction xs arbitrary: i) (auto split: nat.splits)

context position_op
begin

lemma books_kept:
  assumes "books_ok S"
  shows "books_ok (apply_at (\<lambda>pool pos. op pool pos a) i S)"
proof -
  obtain pool ps where S: "S = (pool, ps)" by fastforce
  show ?thesis
  proof (cases "i < length ps")
    case False
    then show ?thesis using assms by (simp add: S apply_at_def)
  next
    case True
    obtain r pool' pos' where op: "op pool (ps ! i) a = (r, pool', pos')" by (metis prod_cases3)
    have sums: "unat (total_debt pool) = sum_list (map (\<lambda>p. unat (lp_debt p)) ps)"
      "sum_list (map (\<lambda>p. unat (collateral_shares p)) ps) \<le> unat (total_collateral pool)"
      and all: "list_all (covered pool) ps"
      using assms by (simp_all add: S books_ok_def)
    note rep = sum_list_replace [OF True, of "\<lambda>p. unat (lp_debt p)" pos']
      sum_list_replace [OF True, of "\<lambda>p. unat (collateral_shares p)" pos']
    have cov: "covered pool (ps ! i)" using all True by (simp add: list_all_length)
    have mem: "ps ! i \<in> set ps" using True by simp
    have "unat (lp_debt (ps ! i)) \<le> unat (total_debt pool)"
      unfolding sums(1) by (rule member_le_sum_list) (use mem in auto)
    moreover have "unat (collateral_shares (ps ! i)) \<le> sum_list (map (\<lambda>p. unat (collateral_shares p)) ps)"
      by (rule member_le_sum_list) (use mem in auto)
    ultimately have mv: "unat (total_debt pool') + unat (lp_debt (ps ! i)) = unat (total_debt pool) + unat (lp_debt pos')"
      "unat (total_collateral pool') + unat (collateral_shares (ps ! i)) =
        unat (total_collateral pool) + unat (collateral_shares pos')"
      using moves [OF cov _ _ op] sums(2) by (simp_all add: word_le_nat_alt)
    have "list_all (covered pool') (ps[i := pos'])"
      using all keeps [OF cov op] by (auto simp: list_all_length nth_list_update True covered_def)
    then show ?thesis
      using mv rep sums by (simp add: S apply_at_def True op books_ok_def)
  qed
qed

end

lemmas op_splits = option.splits sum.splits if_splits

interpretation bor: position_op borrow
  by unfold_locales
    (auto simp: borrow_def covered_def Let_def not_less int_simps split: op_splits)

text \<open>On a position that is on the books the second subtraction cannot fail.\<close>

lemma repay_booked:
  assumes "lp_debt pos \<le> total_debt pool"
  shows "repay pool pos a =
    (if lp_debt pos = 0 then (Inl LdNoDebt, pool, pos)
     else (Inr (min a (lp_debt pos)), pool\<lparr>total_debt := total_debt pool - min a (lp_debt pos)\<rparr>,
       pos\<lparr>lp_debt := lp_debt pos - min a (lp_debt pos)\<rparr>))"
proof -
  have "min a (lp_debt pos) \<le> total_debt pool" using assms by (meson min.cobounded2 order_trans)
  then show ?thesis by (simp add: repay_def checked_sub_w_def Let_def)
qed

lemma repay_keeps:
  assumes "covered pool pos" and "repay pool pos a = (r, pool', pos')"
  shows "covered pool' pos' \<and> ltv_max_bps pool' = ltv_max_bps pool"
proof -
  have "lp_debt pos - min a (lp_debt pos) \<le> lp_debt pos" by (simp add: word_sub_le)
  with assms show ?thesis
    by (auto simp: repay_def checked_sub_w_def Let_def covered_def split: if_splits)
qed

interpretation rep: position_op repay
proof
  fix pool pos a r pool' pos'
  assume "lp_debt pos \<le> total_debt pool" "repay pool pos a = (r, pool', pos')"
  moreover have "min a (lp_debt pos) \<le> lp_debt pos" by simp
  ultimately show "unat (total_debt pool') + unat (lp_debt pos) = unat (total_debt pool) + unat (lp_debt pos') \<and>
      unat (total_collateral pool') + unat (collateral_shares pos) =
        unat (total_collateral pool) + unat (collateral_shares pos')"
    by (auto simp: repay_booked unat_sub word_le_nat_alt split: if_splits)
qed (rule repay_keeps)

interpretation wdr: position_op withdraw
  by unfold_locales
    (auto simp: withdraw_def covered_def not_less int_simps split: op_splits)

text \<open>A covered position cannot be liquidated at all.\<close>

lemma liquidate_covered:
  "covered pool pos \<Longrightarrow> liquidate pool pos a =
     (Inl (if lp_debt pos = 0 then LdNoDebt else LdInvalidParams), pool, pos)"
  by (simp add: liquidate_def covered_def)

interpretation liq: position_op liquidate
  by unfold_locales (auto simp: liquidate_covered)

datatype lend_op =
    Deposit u64 | Borrow nat u64 | Repay nat u64 | Withdraw nat u64 | Liquidate nat u64 | Accrue u64 u64

fun lend_step :: "lend_op \<Rightarrow> lending_datum \<times> lending_position list \<Rightarrow> lending_datum \<times> lending_position list" where
  "lend_step (Deposit a) (pool, ps) = (snd (deposit pool a), ps)"
| "lend_step (Borrow i a) S = apply_at (\<lambda>pool pos. borrow pool pos a) i S"
| "lend_step (Repay i a) S = apply_at (\<lambda>pool pos. repay pool pos a) i S"
| "lend_step (Withdraw i a) S = apply_at (\<lambda>pool pos. withdraw pool pos a) i S"
| "lend_step (Liquidate i a) S = apply_at (\<lambda>pool pos. liquidate pool pos a) i S"
| "lend_step (Accrue slot spy) (pool, ps) = (snd (accrue_interest pool slot spy), ps)"

lemma lend_step_books: "books_ok S \<Longrightarrow> books_ok (lend_step c S)"
proof (induction c S rule: lend_step.induct)
  case (1 a pool ps)
  then show ?case
    by (auto simp: deposit_def books_ok_def covered_def list_all_def int_simps split: option.splits)
next
  case (6 slot spy pool ps)
  then show ?case
    by (auto simp: accrue_interest_def books_ok_def covered_def list_all_def split: sum.splits)
qed (simp_all add: bor.books_kept rep.books_kept wdr.books_kept liq.books_kept)

lemma lend_run_books: "books_ok S \<Longrightarrow> books_ok (fold lend_step cs S)"
  by (induction cs arbitrary: S) (simp_all add: lend_step_books)

lemma apply_at_ltv:
  assumes "\<And>pool pos r pool' pos'. f pool pos = (r, pool', pos') \<Longrightarrow> ltv_max_bps pool' = ltv_max_bps pool"
  shows "ltv_max_bps (fst (apply_at f i S)) = ltv_max_bps (fst S)"
  using assms by (auto simp: apply_at_def split: prod.splits)

lemma lend_step_ltv: "ltv_max_bps (fst (lend_step c S)) = ltv_max_bps (fst S)"
  by (induction c S rule: lend_step.induct)
    (auto intro!: apply_at_ltv simp: deposit_def accrue_interest_def borrow_def repay_def withdraw_def
      liquidate_def Let_def split: op_splits)

lemma lend_run_ltv: "ltv_max_bps (fst (fold lend_step cs S)) = ltv_max_bps (fst S)"
  by (induction cs arbitrary: S) (simp_all add: lend_step_ltv)

lemma max_borrow_value:
  assumes "ltv \<le> 10000"
  shows "unat (compute_max_borrow c ltv) = unat c * unat ltv div 10000"
proof -
  have l: "unat ltv \<le> 10000" using assms by (simp add: word_le_nat_alt)
  have m: "checked_mul_w (ucast c :: u128) (ucast ltv) = Some (ucast c * ucast ltv)"
    "unat (ucast c * ucast ltv :: u128) = unat c * unat ltv"
  proof -
    have "unat c * unat ltv < 2 ^ 64 * 2 ^ 16"
      using unat_bound [of c] unat_bound [of ltv] by (intro mult_strict_mono) auto
    then have "unat c * unat ltv < 2 ^ LENGTH(128)" by simp
    then show "checked_mul_w (ucast c :: u128) (ucast ltv) = Some (ucast c * ucast ltv)"
      "unat (ucast c * ucast ltv :: u128) = unat c * unat ltv"
      by (simp_all add: checked_mul_w_def unat_mult_small)
  qed
  have "unat c * unat ltv div 10000 \<le> unat c * 10000 div 10000" using l by (intro div_le_mono mult_left_mono) auto
  then have "unat c * unat ltv div 10000 < 2 ^ 64" using unat_bound [of c] by simp
  then show ?thesis by (simp add: compute_max_borrow_def m checked_div_w_def unat_narrow_u64 unat_div)
qed


text \<open>
  C20. No position can ever be liquidated. Interest is recorded in the pool's multiplier and never
  added to a debt, and the collateral is counted in shares without a price, so a position that
  starts within its limit stays within it under every sequence of operations, and a liquidation
  of it is refused whatever the amount.
\<close>

theorem liquidation_unreachable:
  assumes "books_ok (pool, ps)" and run: "fold lend_step cs (pool, ps) = (pool', ps')" and "i < length ps'"
  shows "\<exists>e. liquidate pool' (ps' ! i) a = (Inl e, pool', ps' ! i)"
proof -
  have "books_ok (pool', ps')" using lend_run_books [OF assms(1), of cs] run by simp
  then have "covered pool' (ps' ! i)" using assms(3) by (auto simp: books_ok_def list_all_length)
  then show ?thesis by (auto simp: liquidate_covered)
qed

section \<open>Truncated ratios\<close>

lemma mul_10000: "checked_mul_w (ucast (x :: u64) :: u128) 10000 = Some (ucast x * 10000)"
  "unat (ucast x * 10000 :: u128) = unat x * 10000"
  using unat_bound [of x] by (simp_all add: checked_mul_w_def unat_mult_small)

text \<open>
  The collateral test keeps only the low 16 bits of the debt ratio. A debt of 6.5536 times the
  collateral, for every collateral value that is a positive multiple of 10000, passes for every
  loan-to-value limit, and the utilization of such a pool is reported as zero.
\<close>

theorem collateral_ratio_truncated:
  assumes "0 < c" and "c * 65536 < 2 ^ 64"
  shows "is_collateralized pos (of_nat (c * 10000)) (of_nat (c * 65536)) ltv \<and>
    compute_utilization_bps (lending_datum_new ct dt (of_nat (c * 10000)) (of_nat (c * 65536))) = 0"
proof -
  define col debt :: u64 where "col = of_nat (c * 10000)" and "debt = of_nat (c * 65536)"
  have v: "unat col = c * 10000" "unat debt = c * 65536"
    using assms(2) by (auto simp: col_def debt_def intro!: unat_of_nat_small simp del: of_nat_mult)
  have nz: "col \<noteq> 0" "debt \<noteq> 0" "(ucast col :: u128) \<noteq> 0"
    using v assms(1) by (auto simp flip: unat_eq_0)
  have "unat ((ucast debt * 10000) div ucast col :: u128) = 65536"
    using assms(1) by (simp add: unat_div mul_10000 v)
  then have "(ucast debt * 10000) div ucast col = (65536 :: u128)" by (simp add: word_unat_eq_iff)
  moreover have z: "(65536 :: u16) = 0" by (rule word_unat_eq_iff [THEN iffD2]) simp
  ultimately show ?thesis
    unfolding col_def [symmetric] debt_def [symmetric]
    using nz by (simp add: z is_collateralized_def compute_utilization_bps_def lending_datum_new_def mul_10000
        checked_div_w_def)
qed

section \<open>Instances\<close>

definition demo_position :: lending_position where
  "demo_position = \<lparr>collateral_shares = 1000, lp_debt = 0, last_interest_update = 0\<rparr>"

definition demo_lending :: lending_datum where
  "demo_lending = lending_datum_new hash_zero hash_zero 1000 0"

lemma demo_books: "books_ok (demo_lending, [demo_position])"
  by (simp add: books_ok_def demo_lending_def demo_position_def lending_datum_new_def covered_def)

lemma demo_max_borrow: "compute_max_borrow 1000 7500 = 750"
  using max_borrow_value [of 7500 1000] by (simp add: word_unat_eq_iff)

lemma demo_borrow:
  "fold lend_step [Borrow 0 700] (demo_lending, [demo_position]) =
     (demo_lending\<lparr>total_debt := 700\<rparr>, [demo_position\<lparr>lp_debt := 700\<rparr>])"
  by (simp add: apply_at_def borrow_def demo_lending_def demo_position_def lending_datum_new_def
      demo_max_borrow checked_add_w_def)


theorem liquidation_unreachable_witness:
  "\<exists>e. liquidate (demo_lending\<lparr>total_debt := 700\<rparr>) (demo_position\<lparr>lp_debt := 700\<rparr>) 50 =
     (Inl e, demo_lending\<lparr>total_debt := 700\<rparr>, demo_position\<lparr>lp_debt := 700\<rparr>)"
  using liquidation_unreachable [OF demo_books demo_borrow, of 0 50] by simp

theorem collateral_ratio_truncated_witness:
  "is_collateralized demo_position 10000 65536 7500 \<and>
   compute_utilization_bps (lending_datum_new hash_zero hash_zero 10000 65536) = 0"
  using collateral_ratio_truncated [of 1 demo_position 7500 hash_zero hash_zero] by simp

end
