(* ===== verification/QV_LendingLock.thy ===== *)
theory QV_LendingLock
  imports QV_Covenant QV_Lending
begin

text \<open>
  The lending covenant of \<open>qv-script/src/templates.rs\<close>, with the two smaller covenants \<open>amm_swap\<close> and
  \<open>lending_repay\<close>. The lock has one conditional: the witness selects the price-less path of
  deposits and repayments or the path of borrows and withdrawals, which verifies a signed price.
\<close>

section \<open>Constants and parameters\<close>

datatype template_error = InvalidLtv u16 | MaxAgeTooLarge u64

definition LENDING_DATUM_PARAMS_OFFSET :: nat where
  "LENDING_DATUM_PARAMS_OFFSET = LENDING_DATUM_BASE_RATE_OFFSET"
definition LENDING_DATUM_INTEREST_BLOCK_LEN :: nat where "LENDING_DATUM_INTEREST_BLOCK_LEN = 24"
definition LENDING_DATUM_INTEREST_BLOCK_OFFSET :: nat where
  "LENDING_DATUM_INTEREST_BLOCK_OFFSET = LENDING_DATUM_INTEREST_MULTIPLIER_OFFSET"

definition LENDING_ORACLE_DOMAIN_TAG :: bytes where
  "LENDING_ORACLE_DOMAIN_TAG = map (\<lambda>c. of_char c) ''QuantumVault-Lending-Oracle-v1''"

definition LENDING_PRICE_SCALE :: u64 where "LENDING_PRICE_SCALE = 1000000"

record lending_script_params =
  lsp_base_rate_bps :: u16
  lsp_slope_bps :: u16
  lsp_ltv_max_bps :: u16
  lsp_liquidation_threshold_bps :: u16
  lsp_liquidation_bonus_bps :: u16

definition params_to_le_bytes :: "lending_script_params \<Rightarrow> bytes" where
  "params_to_le_bytes p =
     le_bytes 2 (unat (lsp_base_rate_bps p)) @ le_bytes 2 (unat (lsp_slope_bps p)) @
     le_bytes 2 (unat (lsp_ltv_max_bps p)) @ le_bytes 2 (unat (lsp_liquidation_threshold_bps p)) @
     le_bytes 2 (unat (lsp_liquidation_bonus_bps p))"

text \<open>\<open>div_ceil\<close> is the quotient, plus one when there is a remainder.\<close>

definition lending_ltv_factor :: "u16 \<Rightarrow> (template_error, u64) result" where
  "lending_ltv_factor ltv =
     (if ltv = 0 \<or> 10000 < ltv then Inl (InvalidLtv ltv)
      else let n = 10000 * LENDING_PRICE_SCALE; d = ucast ltv in
        Inr (if n mod d = 0 then n div d else n div d + 1))"

section \<open>The builder fragments\<close>

definition assert_lending_datum_region ::
  "script_builder \<Rightarrow> opcode \<Rightarrow> nat \<Rightarrow> bytes \<Rightarrow> script_builder" where
  "assert_lending_datum_region b read_op off expected =
     sb_seq b [sb_push_int POOL_INPUT_INDEX, sb_op read_op, sb_push_int (of_nat off),
       sb_push_int (of_nat (length expected)), sb_op OpSlice, sb_push_bytes expected, sb_op OpEq,
       sb_op OpVerify]"

definition push_lending_u64_as_u128 :: "script_builder \<Rightarrow> opcode \<Rightarrow> nat \<Rightarrow> script_builder" where
  "push_lending_u64_as_u128 b read_op off =
     sb_seq b [sb_push_int POOL_INPUT_INDEX, sb_op read_op, sb_push_int (of_nat off), sb_push_int 8,
       sb_op OpSlice, sb_push_bytes (replicate 8 0), sb_op OpCat]"

definition push_lending_u64_as_int :: "script_builder \<Rightarrow> opcode \<Rightarrow> nat \<Rightarrow> script_builder" where
  "push_lending_u64_as_int b read_op off =
     sb_seq b [sb_push_int POOL_INPUT_INDEX, sb_op read_op, sb_push_int (of_nat off), sb_push_int 8,
       sb_op OpSlice, sb_push_int 8, sb_op OpBytesToInt]"

text \<open>The common checks, the two paths and the tail, in the order of the code.\<close>

definition lending_len_checks :: "script_builder \<Rightarrow> script_builder" where
  "lending_len_checks b = fold (\<lambda>read_op b.
     sb_seq b [sb_push_int POOL_INPUT_INDEX, sb_op read_op, sb_op OpLen,
       sb_push_int (of_nat LENDING_DATUM_LEN), sb_op OpEq, sb_op OpVerify])
     [OpReadInputDatum, OpReadOutputDatum] b"

definition lending_region_checks :: "bytes \<Rightarrow> bytes \<Rightarrow> script_builder \<Rightarrow> script_builder" where
  "lending_region_checks ids params_le b = fold (\<lambda>read_op b.
     assert_lending_datum_region (assert_lending_datum_region b read_op LENDING_DATUM_POOL_ID_OFFSET ids)
       read_op LENDING_DATUM_PARAMS_OFFSET params_le)
     [OpReadInputDatum, OpReadOutputDatum] b"

definition lending_frozen_check :: "script_builder \<Rightarrow> script_builder" where
  "lending_frozen_check b =
     sb_seq b [sb_push_int POOL_INPUT_INDEX, sb_op OpReadInputDatum,
       sb_push_int (of_nat LENDING_DATUM_INTEREST_BLOCK_OFFSET),
       sb_push_int (of_nat LENDING_DATUM_INTEREST_BLOCK_LEN), sb_op OpSlice,
       sb_push_int POOL_OUTPUT_INDEX, sb_op OpReadOutputDatum,
       sb_push_int (of_nat LENDING_DATUM_INTEREST_BLOCK_OFFSET),
       sb_push_int (of_nat LENDING_DATUM_INTEREST_BLOCK_LEN), sb_op OpSlice, sb_op OpEq, sb_op OpVerify]"

definition lending_value_check :: "script_builder \<Rightarrow> script_builder" where
  "lending_value_check b =
     sb_seq b [sb_push_int POOL_OUTPUT_INDEX, sb_op OpReadOutputValue, sb_push_int POOL_INPUT_INDEX,
       sb_op OpReadInputValue, sb_op OpGe, sb_op OpVerify]"

definition lending_freshness :: "i64 \<Rightarrow> script_builder \<Rightarrow> script_builder" where
  "lending_freshness max_age b =
     sb_seq b [sb_op OpOver, sb_push_int 8, sb_op OpBytesToInt, sb_op OpOver, sb_push_int 8,
       sb_op OpBytesToInt, sb_op OpDup, sb_op OpSlotNumber, sb_op OpLe, sb_op OpVerify,
       sb_op OpSlotNumber, sb_op OpSwap, sb_op OpSub, sb_push_int max_age, sb_op OpLe, sb_op OpVerify]"

definition lending_collateral_check :: "i64 \<Rightarrow> script_builder \<Rightarrow> script_builder" where
  "lending_collateral_check k b =
     (let b = push_lending_u64_as_int b OpReadOutputDatum LENDING_DATUM_TOTAL_DEBT_OFFSET;
          b = sb_seq b [sb_push_int k, sb_op OpMulU128];
          b = push_lending_u64_as_int b OpReadOutputDatum LENDING_DATUM_TOTAL_COLLATERAL_OFFSET
      in sb_seq b [sb_op OpRot, sb_op OpMulU128, sb_op OpSwap, sb_op OpGeU128, sb_op OpVerify])"

definition lending_signature_check :: "bytes \<Rightarrow> bytes \<Rightarrow> script_builder \<Rightarrow> script_builder" where
  "lending_signature_check oracle_prefix oracle_pk_hash b =
     sb_seq b [sb_op OpSwap, sb_push_bytes oracle_prefix, sb_op OpSwap, sb_op OpCat, sb_op OpSwap,
       sb_op OpCat, sb_op OpOver, sb_op OpHashSha3, sb_push_bytes oracle_pk_hash, sb_op OpEq,
       sb_op OpVerify, sb_op OpRot, sb_op OpRot, sb_op OpCheckSigPqc, sb_op OpVerify]"

definition lending_path0 :: "script_builder \<Rightarrow> script_builder" where
  "lending_path0 b =
     (let b = push_lending_u64_as_u128 b OpReadOutputDatum LENDING_DATUM_TOTAL_COLLATERAL_OFFSET;
          b = push_lending_u64_as_u128 b OpReadInputDatum LENDING_DATUM_TOTAL_COLLATERAL_OFFSET;
          b = sb_seq b [sb_op OpGeU128, sb_op OpVerify];
          b = push_lending_u64_as_u128 b OpReadInputDatum LENDING_DATUM_TOTAL_DEBT_OFFSET;
          b = push_lending_u64_as_u128 b OpReadOutputDatum LENDING_DATUM_TOTAL_DEBT_OFFSET
      in sb_seq b [sb_op OpGeU128, sb_op OpVerify])"

text \<open>\<open>i64::try_from\<close> of the age fails from \<open>2 ^ 63\<close> on.\<close>

definition lending_pool_lock ::
  "bytes \<Rightarrow> bytes \<Rightarrow> bytes \<Rightarrow> lending_script_params \<Rightarrow> bytes \<Rightarrow> u64 \<Rightarrow> (template_error, bytes) result" where
  "lending_pool_lock pool_id ct dt params oracle_pk_hash max_price_age_slots =
     bind_res (lending_ltv_factor (lsp_ltv_max_bps params)) (\<lambda>k.
     bind_res (fail_if (2 ^ 63 \<le> unat max_price_age_slots) (MaxAgeTooLarge max_price_age_slots)) (\<lambda>_.
       let ids = pool_id @ ct @ dt;
           params_le = params_to_le_bytes params;
           oracle_prefix = LENDING_ORACLE_DOMAIN_TAG @ pool_id;
           b = sb_new;
           b = lending_len_checks b;
           b = lending_region_checks ids params_le b;
           b = lending_frozen_check b;
           b = lending_value_check b;
           b = sb_op OpIf b;
           b = lending_freshness max_price_age_slots b;
           b = lending_collateral_check k b;
           b = lending_signature_check oracle_prefix oracle_pk_hash b;
           b = sb_op OpElse b;
           b = lending_path0 b;
           b = sb_op OpEndIf b
       in Inr (sb_build (sb_seq b [sb_push_int POOL_OUTPUT_INDEX, sb_op OpSelfScriptHash,
            sb_op OpAssertOutputScriptHash, sb_op Op1]))))"

section \<open>The smaller covenants\<close>

definition amm_swap :: "bytes \<Rightarrow> i64 \<Rightarrow> bytes" where
  "amm_swap pool_script_hash idx = sb_build (sb_chain
     [sb_op OpDup, sb_push_int 0, sb_push_int 8, sb_op OpSlice,
      sb_op OpSwap, sb_op OpDup, sb_push_int 8, sb_push_int 8, sb_op OpSlice, sb_op OpRot, sb_op OpRot,
      sb_op OpDrop,
      sb_push_int idx, sb_op OpReadOutputDatum,
      sb_op OpDup, sb_push_int 0, sb_push_int 8, sb_op OpSlice,
      sb_op OpSwap, sb_op OpDup, sb_push_int 8, sb_push_int 8, sb_op OpSlice, sb_op OpSwap, sb_op OpDrop,
      sb_op OpDrop, sb_op OpDrop, sb_op OpDrop, sb_op OpDrop,
      sb_push_int idx, sb_push_bytes pool_script_hash, sb_op OpAssertOutputScriptHash,
      sb_push_int idx, sb_op OpReadOutputDatum, sb_op OpLen, sb_push_int 0, sb_op OpGt, sb_op OpVerify,
      sb_op Op1])"

definition lending_repay :: "bytes \<Rightarrow> i64 \<Rightarrow> i64 \<Rightarrow> bytes" where
  "lending_repay pool_script_hash idx min_repay_amount = sb_build (sb_chain
     [sb_push_int idx, sb_op OpReadOutputValue, sb_push_int min_repay_amount, sb_op OpGe, sb_op OpVerify,
      sb_push_int idx, sb_push_bytes pool_script_hash, sb_op OpAssertOutputScriptHash, sb_op Op1])"

section \<open>The lock as instruction lists\<close>

definition int_instr :: "i64 \<Rightarrow> instruction" where
  "int_instr n = (if n = 0 then instr_simple Op0 else if n = 1 then instr_simple Op1 else push_int n)"

lemma sb_push_int_append: "sb_push_int n b = b @ [int_instr n]"
  by (simp add: sb_push_int_def int_instr_def)

lemma sb_push_8: "sb_push_int 8 b = b @ [num 8]"
  using sb_push_num [of 8] by simp

lemma step_int [stack_steps]: "step_stack E ctx (int_instr n) s = vm_push s (VInt n)"
  by (simp add: int_instr_def stack_steps)

lemma code_ok_int: "code_ok 9 10 [int_instr n]"
  by (auto simp: code_ok_def int_instr_def length_encode_append length_encode_push_int
      length_encode_simple simple_wf is_push_def)

definition ext_code :: "opcode \<Rightarrow> nat \<Rightarrow> instruction list" where
  "ext_code c off = [num 0, instr_simple c, num off, num 8, instr_simple OpSlice, push_bytes (replicate 8 0),
     instr_simple OpCat]"

definition frozen_code :: "instruction list" where
  "frozen_code = [num 0, instr_simple OpReadInputDatum, num 122, num 24, instr_simple OpSlice, num 0,
     instr_simple OpReadOutputDatum, num 122, num 24, instr_simple OpSlice, instr_simple OpEq,
     instr_simple OpVerify]"

definition value_code :: "instruction list" where
  "value_code = [num 0, instr_simple OpReadOutputValue, num 0, instr_simple OpReadInputValue, instr_simple OpGe,
     instr_simple OpVerify]"

definition fresh_code :: "i64 \<Rightarrow> instruction list" where
  "fresh_code max_age = [instr_simple OpOver, num 8, instr_simple OpBytesToInt, instr_simple OpOver, num 8,
     instr_simple OpBytesToInt, instr_simple OpDup, instr_simple OpSlotNumber, instr_simple OpLe,
     instr_simple OpVerify, instr_simple OpSlotNumber, instr_simple OpSwap, instr_simple OpSub,
     int_instr max_age, instr_simple OpLe, instr_simple OpVerify]"

definition collateral_code :: "i64 \<Rightarrow> instruction list" where
  "collateral_code k = u64_code OpReadOutputDatum 104 @ [int_instr k, instr_simple OpMulU128] @
     u64_code OpReadOutputDatum 96 @
     [instr_simple OpRot, instr_simple OpMulU128, instr_simple OpSwap, instr_simple OpGeU128, instr_simple OpVerify]"

definition signature_code :: "bytes \<Rightarrow> bytes \<Rightarrow> instruction list" where
  "signature_code prefix pkh = [instr_simple OpSwap, push_bytes prefix, instr_simple OpSwap, instr_simple OpCat,
     instr_simple OpSwap, instr_simple OpCat, instr_simple OpOver, instr_simple OpHashSha3, push_bytes pkh,
     instr_simple OpEq, instr_simple OpVerify, instr_simple OpRot, instr_simple OpRot,
     instr_simple OpCheckSigPqc, instr_simple OpVerify]"

definition common_code :: "bytes \<Rightarrow> bytes \<Rightarrow> instruction list" where
  "common_code ids pl =
     len_code OpReadInputDatum 146 @ len_code OpReadOutputDatum 146 @
     field_code OpReadInputDatum 0 ids @ field_code OpReadInputDatum 112 pl @
     field_code OpReadOutputDatum 0 ids @ field_code OpReadOutputDatum 112 pl @ frozen_code @ value_code"

definition path1_code :: "i64 \<Rightarrow> i64 \<Rightarrow> bytes \<Rightarrow> bytes \<Rightarrow> instruction list" where
  "path1_code max_age k prefix pkh = fresh_code max_age @ collateral_code k @ signature_code prefix pkh"

definition path0_code :: "instruction list" where
  "path0_code = ext_code OpReadOutputDatum 96 @ ext_code OpReadInputDatum 96 @
     [instr_simple OpGeU128, instr_simple OpVerify] @ ext_code OpReadInputDatum 104 @
     ext_code OpReadOutputDatum 104 @ [instr_simple OpGeU128, instr_simple OpVerify]"

lemmas lock_codes = ext_code_def frozen_code_def value_code_def fresh_code_def collateral_code_def
  signature_code_def common_code_def path1_code_def path0_code_def

definition lending_code :: "bytes \<Rightarrow> bytes \<Rightarrow> i64 \<Rightarrow> i64 \<Rightarrow> bytes \<Rightarrow> bytes \<Rightarrow> instruction list" where
  "lending_code ids pl max_age k prefix pkh =
     flat (cond_prog (common_code ids pl) (path1_code max_age k prefix pkh) path0_code continuity_code)"

lemma region_code:
  "off < 2 ^ 64 \<Longrightarrow> length e < 2 ^ 64 \<Longrightarrow> assert_lending_datum_region b c off e = b @ field_code c off e"
  "off < 2 ^ 64 \<Longrightarrow> push_lending_u64_as_u128 b c off = b @ ext_code c off"
  "off < 2 ^ 64 \<Longrightarrow> push_lending_u64_as_int b c off = b @ u64_code c off"
  by (simp_all add: assert_lending_datum_region_def push_lending_u64_as_u128_def push_lending_u64_as_int_def
      ext_code_def field_code_def u64_code_def POOL_INPUT_INDEX_def sb_append sb_push_8 del: of_nat_numeral)

lemma length_params: "length (params_to_le_bytes p) = 10"
  by (simp add: params_to_le_bytes_def)

lemma lending_pool_lock_code:
  assumes "length pid = 32" "length ct = 32" "length dt = 32"
    and "lending_ltv_factor (lsp_ltv_max_bps params) = Inr k" and "unat max_age < 2 ^ 63"
  shows "lending_pool_lock pid ct dt params pkh max_age = Inr (encode_instructions
    (lending_code (pid @ ct @ dt) (params_to_le_bytes params) max_age k (LENDING_ORACLE_DOMAIN_TAG @ pid) pkh))"
  using assms sb_push_num [of 146] sb_push_num [of 122] sb_push_num [of 24]
  by (simp add: lending_pool_lock_def lending_len_checks_def lending_region_checks_def lending_frozen_check_def
      lending_value_check_def lending_freshness_def lending_collateral_check_def lending_signature_check_def
      lending_path0_def Let_def region_code length_params lending_offsets LENDING_DATUM_PARAMS_OFFSET_def
      LENDING_DATUM_INTEREST_BLOCK_LEN_def LENDING_DATUM_INTEREST_BLOCK_OFFSET_def POOL_INPUT_INDEX_def
      POOL_OUTPUT_INDEX_def sb_op_append sb_push_bytes_append sb_push_zero sb_push_8)
    (simp add: sb_push_int_append sb_new_def sb_build_def lending_code_def flat_cond_prog lock_codes len_code_def
      continuity_code_def)

section \<open>Running the lock\<close>

lemma lending_decode_total: "length bs = LENDING_DATUM_LEN \<Longrightarrow> \<exists>d. lending_from_canonical_bytes bs = Inr d"
  by (simp add: lending_from_canonical_bytes_def read_hash_def read_uint_def get_slice_def lending_offsets)

definition params_of :: "lending_datum \<Rightarrow> lending_script_params" where
  "params_of d = \<lparr>lsp_base_rate_bps = base_rate_bps d, lsp_slope_bps = slope_bps d,
     lsp_ltv_max_bps = ltv_max_bps d, lsp_liquidation_threshold_bps = liquidation_threshold_bps d,
     lsp_liquidation_bonus_bps = liquidation_bonus_bps d\<rparr>"

definition ids_of :: "lending_datum \<Rightarrow> bytes" where
  "ids_of d = hbytes (ld_pool_id d) @ hbytes (collateral_token_id d) @ hbytes (debt_token_id d)"

lemma lending_slices:
  assumes "lending_from_canonical_bytes bs = Inr d"
  shows "length bs = 146" "take 96 bs = ids_of d" "take 10 (drop 112 bs) = params_to_le_bytes (params_of d)"
    "take 24 (drop 122 bs) = le_bytes 16 (unat (interest_multiplier_q64 d)) @ le_bytes 8 (unat (last_accrual_slot d))"
    "take 8 (drop 96 bs) = le_bytes 8 (unat (total_collateral d))"
    "take 8 (drop 104 bs) = le_bytes 8 (unat (total_debt d))"
proof -
  have bs: "bs = lending_to_canonical_bytes d" and wf: "lending_datum_wf d"
    using lending_encode_decode [OF assms] by auto
  then show "length bs = 146" using length_lending_datum [OF wf] by (simp add: LENDING_DATUM_LEN_def)
  show "take 96 bs = ids_of d" "take 10 (drop 112 bs) = params_to_le_bytes (params_of d)"
    "take 24 (drop 122 bs) = le_bytes 16 (unat (interest_multiplier_q64 d)) @ le_bytes 8 (unat (last_accrual_slot d))"
    "take 8 (drop 96 bs) = le_bytes 8 (unat (total_collateral d))"
    "take 8 (drop 104 bs) = le_bytes 8 (unat (total_debt d))"
    using wf unfolding bs
    by (simp_all add: lending_to_canonical_bytes_def ids_of_def params_to_le_bytes_def params_of_def
        lending_datum_wf_def hash_wf_def)
qed

lemma le_bytes_inj_words [simp]:
  "le_bytes 2 (unat (a :: u16)) = le_bytes 2 (unat a') \<longleftrightarrow> a = a'"
  "le_bytes 8 (unat (b :: u64)) = le_bytes 8 (unat b') \<longleftrightarrow> b = b'"
  "le_bytes 16 (unat (c :: u128)) = le_bytes 16 (unat c') \<longleftrightarrow> c = c'"
  by (simp_all add: le_bytes_word_inj)

lemma params_to_le_bytes_inj: "params_to_le_bytes p = params_to_le_bytes q \<longleftrightarrow> p = q"
  by (simp add: params_to_le_bytes_def) (metis lending_script_params.surjective old.unit.exhaust)

text \<open>What both paths demand.\<close>

definition lending_kept :: "bytes \<Rightarrow> lending_script_params \<Rightarrow> lending_datum \<Rightarrow> lending_datum \<Rightarrow> bool" where
  "lending_kept ids params d d' \<longleftrightarrow>
     ids_of d = ids \<and> ids_of d' = ids \<and> params_of d = params \<and> params_of d' = params \<and>
     interest_multiplier_q64 d' = interest_multiplier_q64 d \<and> last_accrual_slot d' = last_accrual_slot d"

lemma step_read_value [stack_steps]:
  "resolved_inputs ctx = i0 # ins' \<Longrightarrow>
     step_stack E ctx (instr_simple OpReadInputValue) (VInt 0 # s) = vm_push s (VInt (out_value i0))"
  "tx_outputs (ctx_tx ctx) = o0 # outs' \<Longrightarrow>
     step_stack E ctx (instr_simple OpReadOutputValue) (VInt 0 # s) = vm_push s (VInt (out_value o0))"
  by (simp_all add: step_stack_def exec_op_def op_groups exec_introspect_def pop_indexed_def bind_res_assoc)

lemma run_common_code:
  assumes ins: "resolved_inputs ctx = i0 # ins'" and outs: "tx_outputs (ctx_tx ctx) = o0 # outs'"
    and d: "lending_from_canonical_bytes (datum_bytes i0) = Inr d"
    and d': "lending_from_canonical_bytes (datum_bytes o0) = Inr d'"
    and ids: "length ids = 96" and s: "length s \<le> 10"
  shows "run_stack E ctx (common_code ids (params_to_le_bytes params)) s =
    (if lending_kept ids params d d' \<and> sint (out_value i0) \<le> sint (out_value o0) then Inr s
     else Inl (Error VerifyFailed))"
proof -
  have rd: "read_datum ctx OpReadInputDatum = Some (datum_bytes i0)"
    "read_datum ctx OpReadOutputDatum = Some (datum_bytes o0)"
    by (simp_all add: read_datum_def ins outs)
  note si = lending_slices [OF d] and so = lending_slices [OF d']
  have max: "length s + 4 \<le> MAX_STACK_DEPTH" "length s < MAX_STACK_DEPTH" "MAX_STACK_DEPTH = 1024"
    using s by (simp_all add: MAX_STACK_DEPTH_def)
  have lens: "run_stack E ctx (len_code OpReadInputDatum 146) s = Inr s"
    "run_stack E ctx (len_code OpReadOutputDatum 146) s = Inr s"
    using run_len_code [of OpReadInputDatum s 146 ctx _ E, OF _ max(1) _ rd(1)]
      run_len_code [of OpReadOutputDatum s 146 ctx _ E, OF _ max(1) _ rd(2)] si(1) so(1) by simp_all
  have field: "run_stack E ctx (field_code OpReadInputDatum off e) s =
        (if take (length e) (drop off (datum_bytes i0)) = e then Inr s else Inl (Error VerifyFailed))"
      "run_stack E ctx (field_code OpReadOutputDatum off e) s =
        (if take (length e) (drop off (datum_bytes o0)) = e then Inr s else Inl (Error VerifyFailed))"
    if "off + length e \<le> 146" for off e
    using that run_field_code [of OpReadInputDatum s ctx _ off e E, OF _ max(1) rd(1)]
      run_field_code [of OpReadOutputDatum s ctx _ off e E, OF _ max(1) rd(2)] si(1) so(1) by simp_all
  have frozen: "run_stack E ctx frozen_code s =
      (if interest_multiplier_q64 d' = interest_multiplier_q64 d \<and> last_accrual_slot d' = last_accrual_slot d
       then Inr s else Inl (Error VerifyFailed))"
    using unat_slice_end [of 122 24] max si(1,4) so(1,4) rd
    by (auto simp: frozen_code_def stack_steps)
  have val: "run_stack E ctx value_code s =
      (if sint (out_value i0) \<le> sint (out_value o0) then Inr s else Inl (Error VerifyFailed))"
    using max by (simp add: value_code_def stack_steps ins outs)
  show ?thesis
    using si(2,3) so(2,3) ids
    by (auto simp: common_code_def run_stack_append lens field length_params params_to_le_bytes_inj frozen val
        lending_kept_def)
qed

lemma le_val_append_zeros: "le_val (bs @ replicate n 0) = le_val bs"
  by (induction bs) (induction n, simp_all)

lemma run_ext_code:
  assumes "is_read c" and "length s + 4 \<le> MAX_STACK_DEPTH" and "read_datum ctx c = Some d"
    and "off + 8 \<le> length d" and "length d < 2 ^ 63"
  shows "run_stack E ctx (ext_code c off) s = Inr (VBytes (take 8 (drop off d) @ replicate 8 0) # s)"
  using assms unat_slice_end [of off 8] by (simp add: ext_code_def stack_steps)

lemma ge_u128_verify:
  assumes "length s + 2 \<le> MAX_STACK_DEPTH" and "length p = 16" and "length q = 16"
  shows "run_stack E ctx [instr_simple OpGeU128, instr_simple OpVerify] (VBytes q # VBytes p # s) =
    (if le_val q \<le> le_val p then Inr s else Inl (Error VerifyFailed))"
  using assms by (simp add: stack_steps)

lemma le_val_u64: "le_val (le_bytes 8 (unat (x :: u64))) = unat x"
  using unat_bound [of x] by (simp add: le_val_le_bytes)

lemma le_val_u128: "le_val (le_bytes 16 (unat (x :: u128))) = unat x"
  using unat_bound [of x] by (simp add: le_val_le_bytes)

lemma run_path0_code:
  assumes rd: "read_datum ctx OpReadInputDatum = Some (datum_bytes i0)"
      "read_datum ctx OpReadOutputDatum = Some (datum_bytes o0)"
    and d: "lending_from_canonical_bytes (datum_bytes i0) = Inr d"
    and d': "lending_from_canonical_bytes (datum_bytes o0) = Inr d'" and s: "length s \<le> 10"
  shows "run_stack E ctx path0_code s =
    (if total_collateral d \<le> total_collateral d' \<and> total_debt d' \<le> total_debt d then Inr s
     else Inl (Error VerifyFailed))"
proof -
  note si = lending_slices [OF d] and so = lending_slices [OF d']
  have ext: "run_stack E ctx (ext_code OpReadInputDatum off) t =
        Inr (VBytes (take 8 (drop off (datum_bytes i0)) @ replicate 8 0) # t)"
      "run_stack E ctx (ext_code OpReadOutputDatum off) t =
        Inr (VBytes (take 8 (drop off (datum_bytes o0)) @ replicate 8 0) # t)"
    if "off + 8 \<le> 146" "length t \<le> 20" for off t
    using that run_ext_code [of OpReadInputDatum t ctx _ off E, OF _ _ rd(1)]
      run_ext_code [of OpReadOutputDatum t ctx _ off E, OF _ _ rd(2)] si(1) so(1)
    by (simp_all add: MAX_STACK_DEPTH_def)
  have ge: "run_stack E ctx ([instr_simple OpGeU128, instr_simple OpVerify] @ rest)
      (VBytes (le_bytes 8 (unat (y :: u64)) @ replicate 8 0) #
       VBytes (le_bytes 8 (unat (x :: u64)) @ replicate 8 0) # s) =
      (if y \<le> x then run_stack E ctx rest s else Inl (Error VerifyFailed))" for x y rest
    unfolding run_stack_append
    by (subst ge_u128_verify)
      (use s in \<open>simp_all add: MAX_STACK_DEPTH_def le_val_append_zeros le_val_u64 word_le_nat_alt\<close>)
  show ?thesis
    using s si(5,6) so(5,6) ge [where rest = "[]"]
    by (simp add: path0_code_def run_stack_append [of _ _ "ext_code _ _"] ext ge del: run_stack.simps(2) append_Cons)
qed

lemma run_fresh_code:
  assumes "length price = 8" and "length slot = 8" and "length s \<le> 10"
    and p: "p = of_nat (le_val price)" and t: "t = of_nat (le_val slot)"
  shows "run_stack E ctx (fresh_code max_age) (VBytes slot # VBytes price # s) =
    (if sint t \<le> sint (current_slot ctx) \<and> sint (current_slot ctx - t) \<le> sint max_age
     then Inr (VInt p # VBytes slot # VBytes price # s) else Inl (Error VerifyFailed))"
  using assms(1-3) by (simp add: fresh_code_def stack_steps MAX_STACK_DEPTH_def p t)

lemma run_collateral_code:
  assumes rd: "read_datum ctx OpReadOutputDatum = Some (datum_bytes o0)"
    and d': "lending_from_canonical_bytes (datum_bytes o0) = Inr d'" and s: "length s \<le> 10"
  shows "run_stack E ctx (collateral_code k) (VInt p # s) =
    (if unat (total_debt d') * unat k \<le> unat (total_collateral d') * unat p then Inr s
     else Inl (Error VerifyFailed))"
proof -
  note so = lending_slices [OF d']
  have u64: "run_stack E ctx (u64_code OpReadOutputDatum off) t =
      Inr (VInt (of_nat (le_val (take 8 (drop off (datum_bytes o0))))) # t)"
    if "off + 8 \<le> 146" "length t \<le> 20" for off t
    using that run_u64_code [of OpReadOutputDatum t ctx _ off E, OF _ _ rd] so(1)
    by (simp add: MAX_STACK_DEPTH_def)
  have prod: "unat ((ucast (x :: u64) :: u128) * ucast (y :: u64)) = unat x * unat y" for x y
    using mult_u64_fits [of x y] by (simp add: unat_mult_small)
  have val: "le_val (le_bytes 16 (unat (x :: u64) * unat (y :: u64))) = unat x * unat y" for x y
    using mult_u64_fits [of x y] by (simp add: le_val_le_bytes)
  show ?thesis
    using s so(5,6)
    by (simp add: collateral_code_def run_stack_append u64 le_val_u64)
      (simp add: stack_steps MAX_STACK_DEPTH_def run_stack_append u64 le_val_u64 val prod)
qed

lemma run_signature_code:
  assumes "length s \<le> 10"
  shows "run_stack E ctx (signature_code prefix pkh) (VBytes slot # VBytes price # VBytes pk # VBytes sg # s) =
    (if sha3_256 E pk = pkh \<and> checksig_pqc E pk sg (prefix @ price @ slot) then Inr s
     else Inl (Error VerifyFailed))"
  using assms by (simp add: signature_code_def stack_steps MAX_STACK_DEPTH_def)


section \<open>The lending covenant\<close>

lemma code_ok_lending:
  "code_ok 60 2000 (ext_code OpReadInputDatum off)" "code_ok 60 2000 (ext_code OpReadOutputDatum off)"
  unfolding ext_code_def
  by (rule code_ok_mono, (rule code_ok_intros | simp add: is_push_def)+)+

lemma lending_parts_ok:
  assumes "length ids = 96" and "length pl = 10" and "prefix \<noteq> []" and "length prefix \<le> 100" and "length pkh = 32"
  shows "code_ok 700 20000 (common_code ids pl)" "code_ok 500 20000 (path1_code max_age k prefix pkh)"
    "code_ok 300 12000 path0_code"
proof -
  have ne: "ids \<noteq> []" "pl \<noteq> []" "pkh \<noteq> []" using assms by auto
  note intros = code_ok_int code_ok_lending code_ok_intros
  show "code_ok 700 20000 (common_code ids pl)"
    unfolding common_code_def frozen_code_def value_code_def
    by (rule code_ok_mono, (rule intros | simp add: is_push_def ne assms)+)
  show "code_ok 500 20000 (path1_code max_age k prefix pkh)"
    unfolding path1_code_def fresh_code_def collateral_code_def signature_code_def using assms ne
    by - (rule code_ok_mono, (rule intros | simp add: is_push_def)+)
  show "code_ok 300 12000 path0_code"
    unfolding path0_code_def
    by (rule code_ok_mono, (rule intros | simp add: is_push_def)+)
qed

lemma branch_paths:
  "branch E ctx ts es [VInt 0] = run_stack E ctx es []"
  "branch E ctx ts es (VInt 1 # s) = run_stack E ctx ts s"
  by (simp_all add: branch_def)

definition lending_run ::
  "'z crypto_env_scheme \<Rightarrow> script_context \<Rightarrow> bytes \<Rightarrow> lending_script_params \<Rightarrow> instruction list \<Rightarrow>
     vm_stack \<Rightarrow> vm_stack vm_result" where
  "lending_run E ctx ids params ts s0 =
     bind_res (run_stack E ctx (common_code ids (params_to_le_bytes params)) s0) (\<lambda>s.
     bind_res (branch E ctx ts path0_code s) (run_stack E ctx continuity_code))"

lemma lending_run_assoc:
  "bind_res (lending_run E ctx ids params ts s0) f =
     bind_res (run_stack E ctx (common_code ids (params_to_le_bytes params)) s0) (\<lambda>s.
     bind_res (branch E ctx ts path0_code s) (\<lambda>s. bind_res (run_stack E ctx continuity_code s) f))"
  by (simp add: lending_run_def bind_res_assoc)

lemma accepted_iff:
  "(\<exists>r. bind_res m (\<lambda>s. Inr \<lparr>success = (case s of [] \<Rightarrow> False | v # _ \<Rightarrow> is_truthy v), gas_used = g,
      final_stack = rev s\<rparr>) = Inr r \<and> success r) \<longleftrightarrow> (\<exists>v s. m = Inr (v # s) \<and> is_truthy v)"
  by (cases m) (auto split: list.splits)

text \<open>The lock behind a straight-line witness that leaves the stack \<open>s0\<close>.\<close>

lemma lending_validate_run:
  assumes len: "length pid = 32" "length ct = 32" "length dt = 32" "length pkh = 32"
    and lock: "lending_pool_lock pid ct dt params pkh max_age = Inr lock"
    and k: "lending_ltv_factor (lsp_ltv_max_bps params) = Inr k"
    and ws: "code_ok 14000 1000 ws" and s0: "\<And>ctx. run_stack E ctx ws [] = Inr s0"
  shows "(\<exists>r. validate_script E lock (encode_instructions ws) tx ins sl = Inr r \<and> success r) \<longleftrightarrow>
    (\<exists>v s. lending_run E (with_locking_script E (context_new E tx ins sl) lock) (pid @ ct @ dt) params
       (path1_code max_age k (LENDING_ORACLE_DOMAIN_TAG @ pid) pkh) s0 = Inr (v # s) \<and> is_truthy v)"
proof -
  let ?ids = "pid @ ct @ dt" and ?prefix = "LENDING_ORACLE_DOMAIN_TAG @ pid"
  let ?c = "common_code ?ids (params_to_le_bytes params)" and ?t = "path1_code max_age k ?prefix pkh"
  let ?ls = "lending_code ?ids (params_to_le_bytes params) max_age k ?prefix pkh"
  let ?ctx = "with_locking_script E (context_new E tx ins sl) lock"
  have age: "unat max_age < 2 ^ 63" using lock k by (auto simp: lending_pool_lock_def res_simps)
  have code: "lock = encode_instructions ?ls"
    using lending_pool_lock_code [OF len(1-3) k age] lock by simp
  have "length LENDING_ORACLE_DOMAIN_TAG = 30" by (simp add: LENDING_ORACLE_DOMAIN_TAG_def)
  then have pre: "?prefix \<noteq> []" "length ?prefix \<le> 100" using len by auto
  have parts: "code_ok 700 20000 ?c" "code_ok 500 20000 ?t" "code_ok 300 12000 path0_code"
    "code_ok 12 41 continuity_code"
    using lending_parts_ok(1,3) [of ?ids "params_to_le_bytes params" ?prefix pkh]
      lending_parts_ok(2) [of ?ids "params_to_le_bytes params" ?prefix pkh max_age k] pre len code_ok_frag(4)
    by (simp_all add: length_params)
  have split: "ws @ ?ls = flat (cond_prog (ws @ ?c) ?t path0_code continuity_code)"
    by (simp add: lending_code_def flat_cond_prog)
  have "\<forall>i \<in> set (ws @ ?ls). instr_wf i"
    using ws parts by (auto simp: lending_code_def flat_cond_prog code_ok_def simple_wf is_push_def)
  moreover have "length (encode_instructions ws) + length (encode_instructions ?ls) \<le> MAX_SCRIPT_SIZE"
    using ws parts by (simp add: lending_code_def flat_cond_prog code_ok_def length_encode_append
        length_encode_simple is_push_def MAX_SCRIPT_SIZE_def)
  ultimately have "validate_script E lock (encode_instructions ws) tx ins sl =
      execute_instructions E (flat (cond_prog (ws @ ?c) ?t path0_code continuity_code)) ?ctx
        (gas_new DEFAULT_GAS_LIMIT)"
    unfolding validate_script_def split [symmetric] by (simp add: code validate_script_compiled)
  moreover have "list_all straight (ws @ ?c)" "list_all straight ?t" "list_all straight path0_code"
    "list_all straight continuity_code"
    "code_cost (ws @ ?c) + code_cost ?t + code_cost path0_code + code_cost continuity_code + 6 \<le>
      unat DEFAULT_GAS_LIMIT"
    using ws parts by (simp_all add: code_ok_def DEFAULT_GAS_LIMIT_def)
  note run_cond [OF this, of E ?ctx]
  ultimately show ?thesis
    by (simp add: run_stack_append s0 accepted_iff flip: lending_run_assoc)
qed

text \<open>
  The transition a lending pool may make: both datums decode, identities, risk parameters and the
  interest block are kept, the native value does not fall (as a signed number), output 0 carries
  the same script, and the path's own condition holds of the datums.
\<close>

definition lending_transition ::
  "'z crypto_env_scheme \<Rightarrow> bytes \<Rightarrow> lending_script_params \<Rightarrow> bytes \<Rightarrow> (lending_datum \<Rightarrow> lending_datum \<Rightarrow> bool) \<Rightarrow>
     tx_output list \<Rightarrow> tx_output list \<Rightarrow> bool" where
  "lending_transition E ids params lock P ins outs \<longleftrightarrow>
     (\<exists>i0 ins' o0 outs' d d'. ins = i0 # ins' \<and> outs = o0 # outs' \<and>
        lending_from_canonical_bytes (datum_bytes i0) = Inr d \<and>
        lending_from_canonical_bytes (datum_bytes o0) = Inr d' \<and>
        lending_kept ids params d d' \<and> sint (out_value i0) \<le> sint (out_value o0) \<and> P d d' \<and>
        hbytes (script_hash_of E (locking_script o0)) = sha3_256 E lock)"

lemma lending_run_iff:
  assumes ctx: "ctx = with_locking_script E (context_new E tx ins sl) lock"
    and ids: "length ids = 96" and s0: "length s0 \<le> 10"
    and small: "small_datums ins" "small_datums (tx_outputs tx)"
    and br: "\<And>i0 ins' o0 outs' d d'. ins = i0 # ins' \<Longrightarrow> tx_outputs tx = o0 # outs' \<Longrightarrow>
      lending_from_canonical_bytes (datum_bytes i0) = Inr d \<Longrightarrow>
      lending_from_canonical_bytes (datum_bytes o0) = Inr d' \<Longrightarrow>
      branch E ctx ts path0_code s0 = (if P d d' then Inr [] else Inl (Error VerifyFailed))"
  shows "(\<exists>v s. lending_run E ctx ids params ts s0 = Inr (v # s) \<and> is_truthy v) \<longleftrightarrow>
    lending_transition E ids params lock P ins (tx_outputs tx)"
proof (cases "\<exists>i0 ins' o0 outs'. ins = i0 # ins' \<and> tx_outputs tx = o0 # outs' \<and>
    length (datum_bytes i0) = 146 \<and> length (datum_bytes o0) = 146")
  case True
  then obtain i0 ins' o0 outs' where io: "ins = i0 # ins'" "tx_outputs tx = o0 # outs'"
    and l: "length (datum_bytes i0) = LENDING_DATUM_LEN" "length (datum_bytes o0) = LENDING_DATUM_LEN"
    by (auto simp: LENDING_DATUM_LEN_def)
  obtain d d' where d: "lending_from_canonical_bytes (datum_bytes i0) = Inr d"
    "lending_from_canonical_bytes (datum_bytes o0) = Inr d'"
    using lending_decode_total l by blast
  have "run_stack E ctx (common_code ids (params_to_le_bytes params)) s0 =
      (if lending_kept ids params d d' \<and> sint (out_value i0) \<le> sint (out_value o0) then Inr s0
       else Inl (Error VerifyFailed))"
    by (rule run_common_code [OF _ _ d ids s0]) (simp_all add: ctx io)
  moreover have "run_stack E ctx continuity_code [] =
      (if hbytes (script_hash_of E (locking_script o0)) = sha3_256 E lock then Inr [VInt 1]
       else Inl (Error (CovenantFailed ''output script hash mismatch'')))"
    using step_continuity [of "[]" E ctx] by (simp add: ctx io MAX_STACK_DEPTH_def)
  ultimately show ?thesis
    using br [OF io d] d by (auto simp: lending_run_def lending_transition_def io split: if_splits)
next
  case False
  have rd: "read_datum ctx OpReadInputDatum = (case ins of [] \<Rightarrow> None | i0 # _ \<Rightarrow> Some (datum_bytes i0))"
    "read_datum ctx OpReadOutputDatum = (case tx_outputs tx of [] \<Rightarrow> None | o0 # _ \<Rightarrow> Some (datum_bytes o0))"
    by (simp_all add: ctx read_datum_def)
  have "\<exists>f. run_stack E ctx (common_code ids (params_to_le_bytes params)) s0 = Inl f"
    unfolding common_code_def
    by (rule len_codes_fail)
      (use False small s0 in \<open>auto simp: rd small_datums_def MAX_STACK_DEPTH_def split: list.splits\<close>)
  moreover have "\<not> lending_transition E ids params lock P ins (tx_outputs tx)"
    using False lending_slices(1) by (auto simp: lending_transition_def)
  ultimately show ?thesis by (auto simp: lending_run_def)
qed

lemma lending_free_iff:
  assumes len: "length pid = 32" "length ct = 32" "length dt = 32" "length pkh = 32"
    and lock: "lending_pool_lock pid ct dt params pkh max_age = Inr lock"
    and small: "small_datums ins" "small_datums (tx_outputs tx)"
    and w: "w = sb_build (sb_chain [sb_push_int 0])"
  shows "(\<exists>r. validate_script E lock w tx ins sl = Inr r \<and> success r) \<longleftrightarrow>
    lending_transition E (pid @ ct @ dt) params lock
      (\<lambda>d d'. total_collateral d \<le> total_collateral d' \<and> total_debt d' \<le> total_debt d) ins (tx_outputs tx)"
proof -
  obtain k where k: "lending_ltv_factor (lsp_ltv_max_bps params) = Inr k"
    using lock by (auto simp: lending_pool_lock_def res_simps)
  have w': "w = encode_instructions [int_instr 0]"
    by (simp add: w sb_build_def sb_chain_def sb_new_def sb_push_int_append)
  have "(\<exists>r. validate_script E lock w tx ins sl = Inr r \<and> success r) \<longleftrightarrow>
      (\<exists>v s. lending_run E (with_locking_script E (context_new E tx ins sl) lock) (pid @ ct @ dt) params
         (path1_code max_age k (LENDING_ORACLE_DOMAIN_TAG @ pid) pkh) [VInt 0] = Inr (v # s) \<and> is_truthy v)"
    unfolding w'
    by (rule lending_validate_run [OF len lock k code_ok_mono [OF code_ok_int]])
      (simp_all add: stack_steps MAX_STACK_DEPTH_def)
  also have "\<dots> \<longleftrightarrow> lending_transition E (pid @ ct @ dt) params lock
      (\<lambda>d d'. total_collateral d \<le> total_collateral d' \<and> total_debt d' \<le> total_debt d) ins (tx_outputs tx)"
    by (rule lending_run_iff [OF refl _ _ small])
      (simp_all add: len branch_paths read_datum_def run_path0_code)
  finally show ?thesis .
qed

lemma lending_priced_iff:
  assumes len: "length pid = 32" "length ct = 32" "length dt = 32" "length pkh = 32"
    and lock: "lending_pool_lock pid ct dt params pkh max_age = Inr lock"
    and k: "lending_ltv_factor (lsp_ltv_max_bps params) = Inr k"
    and small: "small_datums ins" "small_datums (tx_outputs tx)"
    and sg: "sg \<noteq> []" "pk \<noteq> []" "length sg + length pk \<le> 13000"
    and w: "w = sb_build (sb_chain [sb_push_bytes sg, sb_push_bytes pk, sb_push_bytes (le_bytes 8 (unat (price :: u64))),
      sb_push_bytes (le_bytes 8 (unat slot)), sb_push_int 1])"
  shows "(\<exists>r. validate_script E lock w tx ins sl = Inr r \<and> success r) \<longleftrightarrow>
    lending_transition E (pid @ ct @ dt) params lock
      (\<lambda>d d'. sint slot \<le> sint sl \<and> sint (sl - slot) \<le> sint max_age \<and>
         unat (total_debt d') * unat k \<le> unat (total_collateral d') * unat price \<and>
         sha3_256 E pk = pkh \<and>
         checksig_pqc E pk sg (LENDING_ORACLE_DOMAIN_TAG @ pid @ le_bytes 8 (unat price) @ le_bytes 8 (unat slot)))
      ins (tx_outputs tx)"
proof -
  let ?ws = "[push_bytes sg, push_bytes pk, push_bytes (le_bytes 8 (unat price)),
    push_bytes (le_bytes 8 (unat slot)), int_instr 1]"
  let ?t = "path1_code max_age k (LENDING_ORACLE_DOMAIN_TAG @ pid) pkh"
  let ?rest = "[VBytes (le_bytes 8 (unat slot)), VBytes (le_bytes 8 (unat price)), VBytes pk, VBytes sg]"
  let ?ctx = "with_locking_script E (context_new E tx ins sl) lock"
  have w': "w = encode_instructions ?ws"
    by (simp add: w sb_build_def sb_chain_def sb_new_def sb_push_int_append sb_push_bytes_append)
  have ne: "le_bytes 8 x \<noteq> []" for x by (metis length_le_bytes list.size(3) zero_neq_numeral)
  have ws: "code_ok 14000 1000 ?ws"
    using sg ne by - (rule code_ok_mono, (rule code_ok_int code_ok_intros | simp)+)
  have "(\<exists>r. validate_script E lock w tx ins sl = Inr r \<and> success r) \<longleftrightarrow>
      (\<exists>v s. lending_run E ?ctx (pid @ ct @ dt) params ?t (VInt 1 # ?rest) = Inr (v # s) \<and> is_truthy v)"
    unfolding w'
    by (rule lending_validate_run [OF len lock k ws]) (simp add: stack_steps MAX_STACK_DEPTH_def)
  also have "\<dots> \<longleftrightarrow> lending_transition E (pid @ ct @ dt) params lock
      (\<lambda>d d'. sint slot \<le> sint sl \<and> sint (sl - slot) \<le> sint max_age \<and>
         unat (total_debt d') * unat k \<le> unat (total_collateral d') * unat price \<and>
         sha3_256 E pk = pkh \<and>
         checksig_pqc E pk sg (LENDING_ORACLE_DOMAIN_TAG @ pid @ le_bytes 8 (unat price) @ le_bytes 8 (unat slot)))
      ins (tx_outputs tx)"
  proof (rule lending_run_iff [OF refl _ _ small])
    fix i0 ins' o0 outs' d d'
    assume io: "ins = i0 # ins'" "tx_outputs tx = o0 # outs'"
      and d: "lending_from_canonical_bytes (datum_bytes o0) = Inr d'"
    have rd: "read_datum ?ctx OpReadOutputDatum = Some (datum_bytes o0)" by (simp add: read_datum_def io)
    have fresh: "run_stack E ?ctx (fresh_code max_age) ?rest =
      (if sint slot \<le> sint sl \<and> sint (sl - slot) \<le> sint max_age then Inr (VInt price # ?rest)
       else Inl (Error VerifyFailed))"
      using run_fresh_code [of "le_bytes 8 (unat price)" "le_bytes 8 (unat slot)" "[VBytes pk, VBytes sg]"
          price slot E ?ctx max_age] by simp
    have "run_stack E ?ctx ?t ?rest =
      (if sint slot \<le> sint sl \<and> sint (sl - slot) \<le> sint max_age \<and>
          unat (total_debt d') * unat k \<le> unat (total_collateral d') * unat price \<and>
          sha3_256 E pk = pkh \<and>
          checksig_pqc E pk sg (LENDING_ORACLE_DOMAIN_TAG @ pid @ le_bytes 8 (unat price) @ le_bytes 8 (unat slot))
       then Inr [] else Inl (Error VerifyFailed))"
      unfolding path1_code_def
      by (simp add: run_stack_append fresh run_collateral_code [OF rd d]
          run_signature_code)
    then show "branch E ?ctx ?t path0_code (VInt 1 # ?rest) =
      (if sint slot \<le> sint sl \<and> sint (sl - slot) \<le> sint max_age \<and>
          unat (total_debt d') * unat k \<le> unat (total_collateral d') * unat price \<and>
          sha3_256 E pk = pkh \<and>
          checksig_pqc E pk sg (LENDING_ORACLE_DOMAIN_TAG @ pid @ le_bytes 8 (unat price) @ le_bytes 8 (unat slot))
       then Inr [] else Inl (Error VerifyFailed))"
      by (simp add: branch_paths)
  qed (simp_all add: len)
  finally show ?thesis .
qed

text \<open>
  C16. The price-less path of the lending covenant. With the witness \<open>0\<close> the lock accepts exactly
  the transitions that keep identities, risk parameters, interest block, native value and
  script, and in which the total collateral does not fall and the total debt does not rise.
\<close>

theorem lending_covenant_free:
  assumes len: "length pid = 32" "length ct = 32" "length dt = 32" "length pkh = 32"
    and lock: "lending_pool_lock pid ct dt params pkh max_age = Inr lock"
    and small: "small_datums ins" "small_datums (tx_outputs tx)"
    and w: "w = sb_build (sb_chain [sb_push_int 0])"
  shows "(\<exists>r. validate_script E lock w tx ins sl = Inr r \<and> success r) \<longleftrightarrow>
    lending_transition E (pid @ ct @ dt) params lock
      (\<lambda>d d'. total_collateral d \<le> total_collateral d' \<and> total_debt d' \<le> total_debt d) ins (tx_outputs tx)"
  using lending_free_iff [OF assms] .


section \<open>Instances\<close>

definition demo_loan :: "u64 \<Rightarrow> u64 \<Rightarrow> lending_datum" where
  "demo_loan tc td = lending_datum_new hash_zero hash_zero tc td"

definition demo_pkh :: bytes where "demo_pkh = [7, 7] @ replicate 30 0"

definition demo_lock :: bytes where
  "demo_lock = encode_instructions (lending_code (replicate 96 0) (params_to_le_bytes (params_of (demo_loan 0 0)))
     10 1333334 (LENDING_ORACLE_DOMAIN_TAG @ replicate 32 0) demo_pkh)"

definition demo_loan_out :: "u64 \<Rightarrow> u64 \<Rightarrow> tx_output" where
  "demo_loan_out tc td = with_datum (tx_output_new 50 demo_lock) (lending_to_canonical_bytes (demo_loan tc td))"

definition demo_priced :: "u64 \<Rightarrow> u64 \<Rightarrow> bytes" where
  "demo_priced price slot = sb_build (sb_chain [sb_push_bytes [7, 7], sb_push_bytes [7, 7],
     sb_push_bytes (le_bytes 8 (unat price)), sb_push_bytes (le_bytes 8 (unat slot)), sb_push_int 1])"

lemma demo_factor: "lending_ltv_factor (lsp_ltv_max_bps (params_of (demo_loan 0 0))) = Inr 1333334"
  by (simp add: lending_ltv_factor_def params_of_def demo_loan_def lending_datum_new_def LENDING_PRICE_SCALE_def
      word_unat_eq_iff unat_div unat_mod)

lemma demo_lending_lock:
  "lending_pool_lock (replicate 32 0) (replicate 32 0) (replicate 32 0) (params_of (demo_loan 0 0)) demo_pkh 10 =
     Inr demo_lock"
  using lending_pool_lock_code [of "replicate 32 0" "replicate 32 0" "replicate 32 0" "params_of (demo_loan 0 0)"
      1333334 10 demo_pkh]
  by (simp add: demo_factor demo_lock_def flip: replicate_add)

lemma demo_loan_sel [simp]:
  "lending_datum_wf (demo_loan tc td)" "total_collateral (demo_loan tc td) = tc" "total_debt (demo_loan tc td) = td"
  "lending_kept (replicate 96 0) (params_of (demo_loan 0 0)) (demo_loan tc td) (demo_loan tc' td')"
  by (simp_all add: demo_loan_def lending_datum_new_def lending_datum_wf_def lending_kept_def ids_of_def
      params_of_def) (simp add: hash_zero_def flip: replicate_add)

lemma demo_loan_out_sel [simp]:
  "datum_bytes (demo_loan_out tc td) = lending_to_canonical_bytes (demo_loan tc td)"
  "locking_script (demo_loan_out tc td) = demo_lock" "out_value (demo_loan_out tc td) = 50"
  "small_datums [demo_loan_out tc td]"
  by (simp_all add: demo_loan_out_def small_datums_def length_lending_datum LENDING_DATUM_LEN_def)

lemma demo_lens: "length (replicate 32 (0 :: u8)) = 32" "length demo_pkh = 32"
  by (simp_all add: demo_pkh_def)

lemma demo_transition:
  "lending_transition E (replicate 32 0 @ replicate 32 0 @ replicate 32 0) (params_of (demo_loan 0 0)) demo_lock P
     [demo_loan_out tc td] [demo_loan_out tc' td'] \<longleftrightarrow> P (demo_loan tc td) (demo_loan tc' td')"
  by (simp add: lending_transition_def lending_decode_encode script_hash_of_def flip: replicate_add)

theorem lending_covenant_free_witness:
  "(\<exists>r. validate_script demo_env demo_lock (sb_build (sb_chain [sb_push_int 0]))
      (tx_new [] [demo_loan_out 1500 600]) [demo_loan_out 1000 700] 5 = Inr r \<and> success r) \<and>
   \<not> (\<exists>r. validate_script demo_env demo_lock (sb_build (sb_chain [sb_push_int 0]))
      (tx_new [] [demo_loan_out 1500 701]) [demo_loan_out 1000 700] 5 = Inr r \<and> success r)"
  using lending_covenant_free [of "replicate 32 0" "replicate 32 0" "replicate 32 0" demo_pkh
      "params_of (demo_loan 0 0)" 10 demo_lock "[demo_loan_out 1000 700]" "tx_new [] [demo_loan_out 1500 600]"
      _ demo_env 5, OF demo_lens(1,1,1,2) demo_lending_lock _ _ refl]
    lending_covenant_free [of "replicate 32 0" "replicate 32 0" "replicate 32 0" demo_pkh
      "params_of (demo_loan 0 0)" 10 demo_lock "[demo_loan_out 1000 700]" "tx_new [] [demo_loan_out 1500 701]"
      _ demo_env 5, OF demo_lens(1,1,1,2) demo_lending_lock _ _ refl]
  by (simp add: demo_transition)


end
