(* ===== verification/QV_TxHelpers.thy ===== *)
theory QV_TxHelpers
  imports QV_LendingLock
begin

text \<open>
  \<open>qv-defi/src/tx_helpers.rs\<close>: the wallet-side builders of pool transactions. The headline facts
  compose the builders with the interpreter: every transaction a builder returns is accepted by
  the covenant of the pool it spends.
\<close>

section \<open>Data\<close>

definition with_fee :: "transaction \<Rightarrow> amount \<Rightarrow> transaction" where
  "with_fee tx fee = tx\<lparr>tx_fee := fee\<rparr>"

datatype tx_build_error =
    SwapComputation
  | Slippage u64 u64
  | InsufficientInput u64 u64
  | InsufficientFunding u64 u64 u64
  | BuildAmm amm_error
  | BuildLending lending_error
  | BuildTemplate template_error
  | OracleSign string
  | PriceForWrongPool
  | CollateralShortfall u64 u64 u64 u64
  | BuildZeroAmount

definition USER_INPUT_INDEX :: nat where "USER_INPUT_INDEX = 1"
definition CREATE_POOL_USER_INPUT_INDEX :: nat where "CREATE_POOL_USER_INPUT_INDEX = 0"

record swap_request =
  sr_pool_outpoint :: outpoint
  sr_pool_datum :: pool_datum
  sr_pool_value :: amount
  sr_user_outpoint :: outpoint
  sr_user_input_value :: amount
  sr_user_locking_script :: script
  sr_direction :: swap_direction
  sr_amount_in :: u64
  sr_min_receive :: u64
  sr_tx_fee :: amount

record swap_tx_bundle =
  sb_tx :: transaction
  sb_new_pool_datum :: pool_datum
  sb_amount_out :: u64
  sb_pool_fee_paid :: u64
  sb_inputs_to_sign :: "nat list"

section \<open>Swaps and pool creation\<close>

definition datum_lock :: "pool_datum \<Rightarrow> script" where
  "datum_lock d = amm_pool_lock (hbytes (token_a_id d)) (hbytes (token_b_id d)) (fee_bps d)"

definition build_swap_tx :: "'z crypto_env_scheme \<Rightarrow> swap_request \<Rightarrow> (tx_build_error, swap_tx_bundle) result" where
  "build_swap_tx E req =
     bind_res (map_err BuildAmm (pool_datum_validate (sr_pool_datum req))) (\<lambda>_.
     let d = sr_pool_datum req;
         (reserve_in, reserve_out) =
           (case sr_direction req of AtoB \<Rightarrow> (reserve_a d, reserve_b d) | BtoA \<Rightarrow> (reserve_b d, reserve_a d)) in
     bind_res (ok_or (compute_swap_output reserve_in reserve_out (sr_amount_in req) (fee_bps d)) SwapComputation)
       (\<lambda>(amount_out, pool_fee_paid).
     bind_res (fail_if (amount_out < sr_min_receive req) (Slippage (sr_min_receive req) amount_out)) (\<lambda>_.
     let input_value = sr_user_input_value req; fee = sr_tx_fee req in
     bind_res (ok_or (checked_sub_w input_value fee) (InsufficientInput input_value fee)) (\<lambda>change.
     let pool_script = datum_lock d;
         pool_id = Hash256 (hbytes (script_hash_of E pool_script));
         (res, ps) = apply_swap (pool_state_new pool_id d) (sr_direction req) (sr_amount_in req) amount_out in
     bind_res (map_err BuildAmm res) (\<lambda>_.
     let new_datum = ps_datum ps;
         pool_output = with_datum (tx_output_new (sr_pool_value req) pool_script)
           (pool_datum_to_canonical_bytes new_datum);
         user_output = tx_output_new change (sr_user_locking_script req);
         tx = with_fee (tx_new [tx_input_new (sr_pool_outpoint req), tx_input_new (sr_user_outpoint req)]
           [pool_output, user_output]) (sr_tx_fee req) in
     Inr \<lparr>sb_tx = tx, sb_new_pool_datum = new_datum, sb_amount_out = amount_out,
          sb_pool_fee_paid = pool_fee_paid, sb_inputs_to_sign = [USER_INPUT_INDEX]\<rparr>)))))"

record create_pool_request =
  cr_token_a_id :: hash256
  cr_token_b_id :: hash256
  cr_fee_bps :: u16
  cr_reserve_a :: u64
  cr_reserve_b :: u64
  cr_pool_value :: amount
  cr_user_outpoint :: outpoint
  cr_user_input_value :: amount
  cr_user_locking_script :: script
  cr_tx_fee :: amount

record create_pool_bundle =
  cb_tx :: transaction
  cb_pool_datum :: pool_datum
  cb_lp_total :: u64
  cb_inputs_to_sign :: "nat list"

definition build_create_pool_tx ::
  "create_pool_request \<Rightarrow> (tx_build_error, create_pool_bundle) result option" where
  "build_create_pool_tx req =
     map_option (\<lambda>added.
       bind_res (map_err BuildAmm added) (\<lambda>(lp_issued, seeded).
       let d = \<lparr>token_a_id = cr_token_a_id req, token_b_id = cr_token_b_id req,
                reserve_a = reserve_a seeded, reserve_b = reserve_b seeded, lp_total = lp_total seeded,
                fee_bps = cr_fee_bps req\<rparr> in
       bind_res (map_err BuildAmm (pool_datum_validate d)) (\<lambda>_.
       let input_value = cr_user_input_value req; pool_value = cr_pool_value req; fee = cr_tx_fee req in
       bind_res (ok_or (Option.bind (checked_add_w pool_value fee) (\<lambda>outflow. checked_sub_w input_value outflow))
         (InsufficientFunding input_value pool_value fee)) (\<lambda>change.
       let pool_script = datum_lock d;
           pool_output = with_datum (tx_output_new pool_value pool_script) (pool_datum_to_canonical_bytes d);
           user_output = tx_output_new change (cr_user_locking_script req);
           tx = with_fee (tx_new [tx_input_new (cr_user_outpoint req)] [pool_output, user_output]) fee in
       Inr \<lparr>cb_tx = tx, cb_pool_datum = d, cb_lp_total = lp_issued,
            cb_inputs_to_sign = [CREATE_POOL_USER_INPUT_INDEX]\<rparr>))))
       (compute_add_liquidity 0 0 0 (cr_reserve_a req) (cr_reserve_b req))"

section \<open>Lending\<close>

record oracle_signed_price =
  op_pool_id :: hash256
  op_price_scaled :: u64
  op_slot :: u64
  op_oracle_pubkey :: bytes
  op_signature :: bytes

definition oracle_price_message :: "hash256 \<Rightarrow> u64 \<Rightarrow> u64 \<Rightarrow> bytes" where
  "oracle_price_message pid price slot =
     LENDING_ORACLE_DOMAIN_TAG @ hbytes pid @ le_bytes 8 (unat price) @ le_bytes 8 (unat slot)"

text \<open>\<open>pqc_sign::sign\<close> with the operator's secret key is the argument \<open>sign\<close>.\<close>

definition sign_oracle_price ::
  "(bytes \<Rightarrow> (string, bytes) result) \<Rightarrow> bytes \<Rightarrow> hash256 \<Rightarrow> u64 \<Rightarrow> u64 \<Rightarrow>
     (tx_build_error, oracle_signed_price) result" where
  "sign_oracle_price sign pubkey pid price slot =
     bind_res (map_err OracleSign (sign (oracle_price_message pid price slot))) (\<lambda>sg.
       Inr \<lparr>op_pool_id = pid, op_price_scaled = price, op_slot = slot, op_oracle_pubkey = pubkey,
            op_signature = sg\<rparr>)"

record lending_request_core =
  lr_pool_outpoint :: outpoint
  lr_pool_datum :: lending_datum
  lr_pool_value :: amount
  lr_oracle_pk_hash :: bytes
  lr_max_price_age_slots :: u64
  lr_user_outpoint :: outpoint
  lr_user_input_value :: amount
  lr_user_locking_script :: script
  lr_tx_fee :: amount

record lending_tx_bundle =
  lb_tx :: transaction
  lb_new_pool_datum :: lending_datum
  lb_inputs_to_sign :: "nat list"

definition lending_pool_script :: "lending_datum \<Rightarrow> bytes \<Rightarrow> u64 \<Rightarrow> (tx_build_error, bytes) result" where
  "lending_pool_script d oracle_pk_hash max_age =
     (let params = \<lparr>lsp_base_rate_bps = base_rate_bps d, lsp_slope_bps = slope_bps d,
        lsp_ltv_max_bps = ltv_max_bps d, lsp_liquidation_threshold_bps = liquidation_threshold_bps d,
        lsp_liquidation_bonus_bps = liquidation_bonus_bps d\<rparr> in
      map_err BuildTemplate (lending_pool_lock (hbytes (ld_pool_id d)) (hbytes (collateral_token_id d))
        (hbytes (debt_token_id d)) params oracle_pk_hash max_age))"

definition lending_path0_witness :: bytes where
  "lending_path0_witness = sb_build (sb_chain [sb_push_int 0])"

definition lending_path1_witness :: "oracle_signed_price \<Rightarrow> bytes" where
  "lending_path1_witness price = sb_build (sb_chain
     [sb_push_bytes (op_signature price), sb_push_bytes (op_oracle_pubkey price),
      sb_push_bytes (le_bytes 8 (unat (op_price_scaled price))),
      sb_push_bytes (le_bytes 8 (unat (op_slot price))), sb_push_int 1])"

definition check_lending_collateral :: "u64 \<Rightarrow> u64 \<Rightarrow> u64 \<Rightarrow> u16 \<Rightarrow> (tx_build_error, unit) result" where
  "check_lending_collateral debt collateral price ltv =
     bind_res (map_err BuildTemplate (lending_ltv_factor ltv)) (\<lambda>factor.
       let lhs = (ucast debt :: u128) * ucast factor; rhs = ucast collateral * ucast price in
       if rhs < lhs then Inl (CollateralShortfall debt collateral price factor) else Inr ())"

definition assemble_lending_tx ::
  "lending_request_core \<Rightarrow> lending_datum \<Rightarrow> bytes \<Rightarrow> (tx_build_error, lending_tx_bundle) result" where
  "assemble_lending_tx req new_datum pool_witness =
     bind_res (map_err BuildLending (lending_validate new_datum)) (\<lambda>_.
     let input_value = lr_user_input_value req; fee = lr_tx_fee req in
     bind_res (ok_or (checked_sub_w input_value fee) (InsufficientInput input_value fee)) (\<lambda>change.
     bind_res (lending_pool_script (lr_pool_datum req) (lr_oracle_pk_hash req) (lr_max_price_age_slots req))
       (\<lambda>script_bytes.
     let pool_output = with_datum (tx_output_new (lr_pool_value req) script_bytes)
           (lending_to_canonical_bytes new_datum);
         user_output = tx_output_new change (lr_user_locking_script req);
         tx = with_fee (tx_new [with_witness (tx_input_new (lr_pool_outpoint req)) pool_witness,
             tx_input_new (lr_user_outpoint req)] [pool_output, user_output]) fee in
     Inr \<lparr>lb_tx = tx, lb_new_pool_datum = new_datum, lb_inputs_to_sign = [USER_INPUT_INDEX]\<rparr>)))"

definition build_lending_deposit_tx ::
  "lending_request_core \<Rightarrow> u64 \<Rightarrow> (tx_build_error, lending_tx_bundle) result" where
  "build_lending_deposit_tx req amount =
     (if amount = 0 then Inl BuildZeroAmount
      else let d = lr_pool_datum req in
        bind_res (ok_or (checked_add_w (total_collateral d) amount) (BuildLending LdOverflow)) (\<lambda>tc.
          assemble_lending_tx req (d\<lparr>total_collateral := tc\<rparr>) lending_path0_witness))"

definition build_lending_repay_tx ::
  "lending_request_core \<Rightarrow> u64 \<Rightarrow> (tx_build_error, lending_tx_bundle) result" where
  "build_lending_repay_tx req amount =
     (if amount = 0 then Inl BuildZeroAmount
      else let d = lr_pool_datum req in
        if total_debt d = 0 then Inl (BuildLending LdNoDebt)
        else let repaid = min amount (total_debt d) in
          bind_res (ok_or (checked_sub_w (total_debt d) repaid) (BuildLending LdUnderflow)) (\<lambda>td.
            assemble_lending_tx req (d\<lparr>total_debt := td\<rparr>) lending_path0_witness))"

definition build_lending_borrow_tx ::
  "lending_request_core \<Rightarrow> u64 \<Rightarrow> oracle_signed_price \<Rightarrow> (tx_build_error, lending_tx_bundle) result" where
  "build_lending_borrow_tx req amount price =
     (if amount = 0 then Inl BuildZeroAmount
      else let d = lr_pool_datum req in
        if op_pool_id price \<noteq> ld_pool_id d then Inl PriceForWrongPool
        else bind_res (ok_or (checked_add_w (total_debt d) amount) (BuildLending LdOverflow)) (\<lambda>td.
          let new_datum = d\<lparr>total_debt := td\<rparr> in
          bind_res (check_lending_collateral (total_debt new_datum) (total_collateral new_datum)
            (op_price_scaled price) (ltv_max_bps new_datum)) (\<lambda>_.
            assemble_lending_tx req new_datum (lending_path1_witness price))))"

definition build_lending_withdraw_tx ::
  "lending_request_core \<Rightarrow> u64 \<Rightarrow> oracle_signed_price \<Rightarrow> (tx_build_error, lending_tx_bundle) result" where
  "build_lending_withdraw_tx req amount price =
     (if amount = 0 then Inl BuildZeroAmount
      else let d = lr_pool_datum req in
        if op_pool_id price \<noteq> ld_pool_id d then Inl PriceForWrongPool
        else bind_res (ok_or (checked_sub_w (total_collateral d) amount) (BuildLending LdUnderflow)) (\<lambda>tc.
          let new_datum = d\<lparr>total_collateral := tc\<rparr> in
          bind_res (check_lending_collateral (total_debt new_datum) (total_collateral new_datum)
            (op_price_scaled price) (ltv_max_bps new_datum)) (\<lambda>_.
            assemble_lending_tx req new_datum (lending_path1_witness price))))"

section \<open>Swaps are accepted by the pool they spend\<close>

lemma build_swap_Inr:
  assumes "build_swap_tx E req = Inr b" and d: "d = sr_pool_datum req"
  obtains ra rb change where
    "sb_tx b = with_fee (tx_new [tx_input_new (sr_pool_outpoint req), tx_input_new (sr_user_outpoint req)]
      [with_datum (tx_output_new (sr_pool_value req) (datum_lock d))
         (pool_datum_to_canonical_bytes (d\<lparr>reserve_a := ra, reserve_b := rb\<rparr>)),
       tx_output_new change (sr_user_locking_script req)]) (sr_tx_fee req)"
    and "unat (reserve_a d) * unat (reserve_b d) \<le> unat ra * unat rb"
    and "sr_min_receive req \<le> sb_amount_out b"
    and "unat change + unat (sr_tx_fee req) = unat (sr_user_input_value req)"
proof -
  define rin rout where "rin = (case sr_direction req of AtoB \<Rightarrow> reserve_a d | BtoA \<Rightarrow> reserve_b d)"
    and "rout = (case sr_direction req of AtoB \<Rightarrow> reserve_b d | BtoA \<Rightarrow> reserve_a d)"
  have io: "(case sr_direction req of AtoB \<Rightarrow> (reserve_a d, reserve_b d) | BtoA \<Rightarrow> (reserve_b d, reserve_a d)) =
      (rin, rout)"
    by (simp add: rin_def rout_def split: swap_direction.splits)
  obtain out fee change ps where q: "compute_swap_output rin rout (sr_amount_in req) (fee_bps d) = Some (out, fee)"
    and slip: "sr_min_receive req \<le> out"
    and change: "checked_sub_w (sr_user_input_value req) (sr_tx_fee req) = Some change"
    and ap: "apply_swap (pool_state_new (Hash256 (hbytes (script_hash_of E (datum_lock d)))) d) (sr_direction req)
      (sr_amount_in req) out = (Inr (), ps)"
    and b: "b = \<lparr>sb_tx = with_fee (tx_new [tx_input_new (sr_pool_outpoint req), tx_input_new (sr_user_outpoint req)]
        [with_datum (tx_output_new (sr_pool_value req) (datum_lock d)) (pool_datum_to_canonical_bytes (ps_datum ps)),
         tx_output_new change (sr_user_locking_script req)]) (sr_tx_fee req),
      sb_new_pool_datum = ps_datum ps, sb_amount_out = out, sb_pool_fee_paid = fee,
      sb_inputs_to_sign = [USER_INPUT_INDEX]\<rparr>"
    using assms(1) unfolding build_swap_tx_def Let_def d [symmetric] io
    by (auto simp: res_simps not_less split_beta prod_eq_iff)
  have dir: "(sr_direction req, rin, rout) = (AtoB, reserve_a (ps_datum (pool_state_new pid d)),
        reserve_b (ps_datum (pool_state_new pid d))) \<or>
      (sr_direction req, rin, rout) = (BtoA, reserve_b (ps_datum (pool_state_new pid d)),
        reserve_a (ps_datum (pool_state_new pid d)))" for pid
    by (auto simp: rin_def rout_def pool_state_new_def split: swap_direction.splits)
  note eq = apply_swap_quoted [OF q dir]
  have fits: "unat rin + unat (sr_amount_in req) < 2 ^ 64" using ap eq by (auto split: if_splits)
  have ps: "ps_datum ps = (case sr_direction req of
        AtoB \<Rightarrow> d\<lparr>reserve_a := rin + sr_amount_in req, reserve_b := rout - out\<rparr>
      | BtoA \<Rightarrow> d\<lparr>reserve_b := rin + sr_amount_in req, reserve_a := rout - out\<rparr>)"
    using ap eq fits by (auto simp: pool_state_new_def split: swap_direction.splits)
  let ?d' = "ps_datum ps"
  have "?d' = d\<lparr>reserve_a := reserve_a ?d', reserve_b := reserve_b ?d'\<rparr>"
    by (simp add: ps split: swap_direction.splits)
  moreover have "unat (reserve_a d) * unat (reserve_b d) \<le> unat (reserve_a ?d') * unat (reserve_b ?d')"
    using swapped_product(1) [OF q fits]
    by (simp add: ps rin_def rout_def mult.commute split: swap_direction.splits)
  moreover have "unat change + unat (sr_tx_fee req) = unat (sr_user_input_value req)"
    using change by (auto simp: checked_sub_w_def unat_sub word_le_nat_alt split: if_splits)
  ultimately show thesis
    using that [where ra = "reserve_a ?d'" and rb = "reserve_b ?d'" and change = change] b slip by simp
qed

lemma with_fee_sel [simp]:
  "tx_outputs (with_fee tx f) = tx_outputs tx" "tx_inputs (with_fee tx f) = tx_inputs tx"
  "tx_fee (with_fee tx f) = f"
  by (simp_all add: with_fee_def)

text \<open>
  C17. A swap the builder returns goes through. Whatever the request, when \<open>build_swap_tx\<close> succeeds
  its transaction satisfies the covenant of the pool it spends, in every slot and with the
  witness it carries; it conserves the native value, and the quoted amount is at least the
  caller's minimum.
\<close>

theorem swap_tx_accepted:
  assumes b: "build_swap_tx E req = Inr b" and wf: "pool_datum_wf (sr_pool_datum req)"
    and pool: "out_datum pool_out = Some (pool_datum_to_canonical_bytes (sr_pool_datum req))"
    and user: "small_datums [user_out]"
  shows "(\<exists>r. validate_script E (datum_lock (sr_pool_datum req)) (in_witness (hd (tx_inputs (sb_tx b))))
      (sb_tx b) [pool_out, user_out] sl = Inr r \<and> success r) \<and>
    sum_list (map (unat \<circ> out_value) (tx_outputs (sb_tx b))) + unat (tx_fee (sb_tx b)) =
      unat (sr_pool_value req) + unat (sr_user_input_value req) \<and>
    sr_min_receive req \<le> sb_amount_out b"
proof -
  let ?d = "sr_pool_datum req"
  obtain ra rb change where
    tx: "sb_tx b = with_fee (tx_new [tx_input_new (sr_pool_outpoint req), tx_input_new (sr_user_outpoint req)]
      [with_datum (tx_output_new (sr_pool_value req) (datum_lock ?d))
         (pool_datum_to_canonical_bytes (?d\<lparr>reserve_a := ra, reserve_b := rb\<rparr>)),
       tx_output_new change (sr_user_locking_script req)]) (sr_tx_fee req)"
    and prod: "unat (reserve_a ?d) * unat (reserve_b ?d) \<le> unat ra * unat rb"
    and rest: "sr_min_receive req \<le> sb_amount_out b"
      "unat change + unat (sr_tx_fee req) = unat (sr_user_input_value req)"
    by (rule build_swap_Inr [OF b refl])
  let ?d' = "?d\<lparr>reserve_a := ra, reserve_b := rb\<rparr>"
  have wf': "pool_datum_wf ?d'" using wf by (simp add: pool_datum_wf_def)
  have len: "length (hbytes (token_a_id ?d)) = 32" "length (hbytes (token_b_id ?d)) = 32"
    using wf by (simp_all add: pool_datum_wf_def hash_wf_def)
  have small: "small_datums [pool_out, user_out]" "small_datums (tx_outputs (sb_tx b))"
    using user pool length_pool_datum [OF wf] length_pool_datum [OF wf']
    by (simp_all add: small_datums_def tx POOL_DATUM_LEN_def datum_bytes_def [of pool_out])
  have "amm_transition E (hbytes (token_a_id ?d)) (hbytes (token_b_id ?d)) (fee_bps ?d) (datum_lock ?d)
      [pool_out, user_out] (tx_outputs (sb_tx b))"
    using pool_datum_decode_encode [OF wf] pool_datum_decode_encode [OF wf'] prod
    by (simp add: amm_transition_def tx datum_bytes_def [of pool_out] pool word_le_nat_alt unat_pool_invariant
        script_hash_of_def)
  then have "\<exists>r. validate_script E (datum_lock ?d) [] (sb_tx b) [pool_out, user_out] sl = Inr r \<and> success r"
    using amm_pool_covenant_iff [OF len datum_lock_def small] by blast
  then show ?thesis using rest by (simp add: tx tx_input_new_def)
qed

section \<open>Lending transactions are accepted by the pool they spend\<close>

lemma assemble_lending_Inr:
  assumes "assemble_lending_tx req d' w = Inr b"
  obtains lock change where
    "lending_pool_script (lr_pool_datum req) (lr_oracle_pk_hash req) (lr_max_price_age_slots req) = Inr lock"
    and "lb_tx b = with_fee (tx_new [with_witness (tx_input_new (lr_pool_outpoint req)) w,
        tx_input_new (lr_user_outpoint req)]
      [with_datum (tx_output_new (lr_pool_value req) lock) (lending_to_canonical_bytes d'),
       tx_output_new change (lr_user_locking_script req)]) (lr_tx_fee req)"
    and "lb_new_pool_datum b = d'"
    and "unat change + unat (lr_tx_fee req) = unat (lr_user_input_value req)"
proof -
  obtain lock change where l: "lending_pool_script (lr_pool_datum req) (lr_oracle_pk_hash req)
      (lr_max_price_age_slots req) = Inr lock"
    and c: "checked_sub_w (lr_user_input_value req) (lr_tx_fee req) = Some change"
    and b: "b = \<lparr>lb_tx = with_fee (tx_new [with_witness (tx_input_new (lr_pool_outpoint req)) w,
          tx_input_new (lr_user_outpoint req)]
        [with_datum (tx_output_new (lr_pool_value req) lock) (lending_to_canonical_bytes d'),
         tx_output_new change (lr_user_locking_script req)]) (lr_tx_fee req),
      lb_new_pool_datum = d', lb_inputs_to_sign = [USER_INPUT_INDEX]\<rparr>"
    using assms by (auto simp: assemble_lending_tx_def res_simps Let_def)
  moreover have "unat change + unat (lr_tx_fee req) = unat (lr_user_input_value req)"
    using c by (auto simp: checked_sub_w_def unat_sub word_le_nat_alt split: if_splits)
  ultimately show thesis using that [of lock change] by simp
qed

text \<open>The spent pool output of a request: its datum and its value.\<close>

definition spends_pool :: "lending_request_core \<Rightarrow> tx_output \<Rightarrow> bool" where
  "spends_pool req out \<longleftrightarrow> lending_datum_wf (lr_pool_datum req) \<and> length (lr_oracle_pk_hash req) = 32 \<and>
     out_datum out = Some (lending_to_canonical_bytes (lr_pool_datum req)) \<and> out_value out = lr_pool_value req"

lemma assembled_transition:
  assumes a: "assemble_lending_tx req (d\<lparr>total_collateral := tc, total_debt := td\<rparr>) w = Inr b"
    and d: "d = lr_pool_datum req" and pool: "spends_pool req pool_out" and user: "small_datums [user_out]"
    and lock: "lending_pool_script d (lr_oracle_pk_hash req) (lr_max_price_age_slots req) = Inr lock"
  shows "lending_transition E (ids_of d) (params_of d) lock P [pool_out, user_out] (tx_outputs (lb_tx b)) \<longleftrightarrow>
      P d (d\<lparr>total_collateral := tc, total_debt := td\<rparr>)"
    and "small_datums [pool_out, user_out]" and "small_datums (tx_outputs (lb_tx b))"
    and "in_witness (hd (tx_inputs (lb_tx b))) = w"
    and "sum_list (map (unat \<circ> out_value) (tx_outputs (lb_tx b))) + unat (tx_fee (lb_tx b)) =
      unat (lr_pool_value req) + unat (lr_user_input_value req)"
proof -
  let ?d' = "d\<lparr>total_collateral := tc, total_debt := td\<rparr>"
  obtain change where tx: "lb_tx b = with_fee (tx_new [with_witness (tx_input_new (lr_pool_outpoint req)) w,
        tx_input_new (lr_user_outpoint req)]
      [with_datum (tx_output_new (lr_pool_value req) lock) (lending_to_canonical_bytes ?d'),
       tx_output_new change (lr_user_locking_script req)]) (lr_tx_fee req)"
    and ch: "unat change + unat (lr_tx_fee req) = unat (lr_user_input_value req)"
    using assemble_lending_Inr [OF a] lock d by (metis sum.inject(2))
  have wf: "lending_datum_wf d" using pool d by (simp add: spends_pool_def)
  then have wf': "lending_datum_wf ?d'" by (simp add: lending_datum_wf_def)
  have i0: "datum_bytes pool_out = lending_to_canonical_bytes d" "out_value pool_out = lr_pool_value req"
    using pool d by (simp_all add: spends_pool_def datum_bytes_def)
  show "lending_transition E (ids_of d) (params_of d) lock P [pool_out, user_out] (tx_outputs (lb_tx b)) \<longleftrightarrow>
      P d ?d'"
    using lending_decode_encode [OF wf] lending_decode_encode [OF wf']
    by (simp add: lending_transition_def tx i0 lending_kept_def ids_of_def params_of_def script_hash_of_def)
  show "small_datums [pool_out, user_out]" "small_datums (tx_outputs (lb_tx b))"
    using user length_lending_datum [OF wf] length_lending_datum [OF wf']
    by (simp_all add: small_datums_def tx i0 LENDING_DATUM_LEN_def)
  show "in_witness (hd (tx_inputs (lb_tx b))) = w" by (simp add: tx with_witness_def)
  show "sum_list (map (unat \<circ> out_value) (tx_outputs (lb_tx b))) + unat (tx_fee (lb_tx b)) =
      unat (lr_pool_value req) + unat (lr_user_input_value req)"
    using ch by (simp add: tx)
qed

lemma pool_script_lock:
  "lending_pool_script d pkh age = Inr lock \<longleftrightarrow>
     lending_pool_lock (hbytes (ld_pool_id d)) (hbytes (collateral_token_id d)) (hbytes (debt_token_id d))
       (params_of d) pkh age = Inr lock"
  by (simp add: lending_pool_script_def params_of_def res_simps)

lemma spends_pool_len:
  assumes "spends_pool req out" and "d = lr_pool_datum req"
  shows "length (hbytes (ld_pool_id d)) = 32" "length (hbytes (collateral_token_id d)) = 32"
    "length (hbytes (debt_token_id d)) = 32" "length (lr_oracle_pk_hash req) = 32"
  using assms by (simp_all add: spends_pool_def lending_datum_wf_def hash_wf_def)

lemma record_self [simp]:
  "d\<lparr>total_collateral := total_collateral d\<rparr> = d" "d\<lparr>total_debt := total_debt d\<rparr> = (d :: lending_datum)"
  by simp_all

text \<open>The new totals of the two price-less builders.\<close>

lemma free_built:
  assumes "build_lending_deposit_tx req amount = Inr b \<or> build_lending_repay_tx req amount = Inr b"
    and d: "d = lr_pool_datum req"
  obtains tc td where
    "assemble_lending_tx req (d\<lparr>total_collateral := tc, total_debt := td\<rparr>) lending_path0_witness = Inr b"
    and "total_collateral d \<le> tc" and "td \<le> total_debt d"
proof -
  from assms(1) show thesis
  proof
    assume "build_lending_deposit_tx req amount = Inr b"
    then obtain tc where "checked_add_w (total_collateral d) amount = Some tc"
      "assemble_lending_tx req (d\<lparr>total_collateral := tc\<rparr>) lending_path0_witness = Inr b"
      by (auto simp: build_lending_deposit_tx_def d res_simps Let_def split: if_splits)
    then show thesis
      using that [where tc = tc and td = "total_debt d"]
      by (auto simp: checked_add_w_def word_le_nat_alt unat_add_small split: if_splits)
  next
    assume "build_lending_repay_tx req amount = Inr b"
    then obtain td where "checked_sub_w (total_debt d) (min amount (total_debt d)) = Some td"
      "assemble_lending_tx req (d\<lparr>total_debt := td\<rparr>) lending_path0_witness = Inr b"
      by (auto simp: build_lending_repay_tx_def d res_simps Let_def split: if_splits)
    then show thesis
      using that [where tc = "total_collateral d" and td = td]
      by (auto simp: checked_sub_w_def word_le_nat_alt unat_sub split: if_splits)
  qed
qed

text \<open>
  Deposits and repayments go through. When one of the two price-less builders succeeds, its
  transaction satisfies the covenant of the lending pool it spends, in every slot and with no
  oracle, and it conserves the native value.
\<close>

theorem free_builders_accepted:
  assumes b: "build_lending_deposit_tx req amount = Inr b \<or> build_lending_repay_tx req amount = Inr b"
    and pool: "spends_pool req pool_out" and user: "small_datums [user_out]"
    and lock: "lending_pool_script (lr_pool_datum req) (lr_oracle_pk_hash req) (lr_max_price_age_slots req) = Inr lock"
  shows "(\<exists>r. validate_script E lock (in_witness (hd (tx_inputs (lb_tx b)))) (lb_tx b) [pool_out, user_out] sl =
      Inr r \<and> success r) \<and>
    sum_list (map (unat \<circ> out_value) (tx_outputs (lb_tx b))) + unat (tx_fee (lb_tx b)) =
      unat (lr_pool_value req) + unat (lr_user_input_value req)"
proof -
  obtain tc td where a: "assemble_lending_tx req ((lr_pool_datum req)\<lparr>total_collateral := tc, total_debt := td\<rparr>)
      lending_path0_witness = Inr b"
    and le: "total_collateral (lr_pool_datum req) \<le> tc" "td \<le> total_debt (lr_pool_datum req)"
    by (rule free_built [OF b refl])
  note t = assembled_transition [OF a refl pool user lock]
  from lending_free_iff [OF spends_pool_len [OF pool refl] lock [unfolded pool_script_lock] t(2,3)
      lending_path0_witness_def, of E sl]
  show ?thesis using t(1) [of E, unfolded ids_of_def] t(4,5) le by simp
qed

lemma ltv_factor_bound:
  assumes "lending_ltv_factor ltv = Inr k"
  shows "10 ^ 10 \<le> unat k * unat ltv"
proof -
  define n d where "n = 10000 * LENDING_PRICE_SCALE" and "d = (ucast ltv :: u64)"
  have ltv: "ltv \<noteq> 0" using assms by (auto simp: lending_ltv_factor_def split: if_splits)
  have n: "unat n = 10 ^ 10" by (simp add: n_def LENDING_PRICE_SCALE_def)
  have d: "unat d = unat ltv" "0 < unat ltv"
    using ltv unat_bound [of ltv] by (simp_all add: d_def unat_gt_0)
  have k: "k = (if n mod d = 0 then n div d else n div d + 1)"
    using assms by (auto simp: lending_ltv_factor_def n_def d_def Let_def split: if_splits)
  have "unat n div unat d \<le> unat n" by (rule div_le_dividend)
  then have "unat n div unat d < 2 ^ 64 - 1" by (rule le_less_trans) (simp add: n)
  then have "unat (n div d + 1) = unat n div unat d + 1" by (simp add: unat_add_small unat_div)
  moreover have "unat n \<le> (unat n div unat d + 1) * unat d"
    using dividend_less_div_times [of "unat d" "unat n"] d by (simp add: algebra_simps)
  ultimately have "unat n \<le> unat k * unat d"
    using k div_mult_mod_eq [of "unat n" "unat d"] by (auto simp: unat_div unat_mod word_unat_eq_iff split: if_splits)
  then show ?thesis by (simp add: n d)
qed

lemma priced_bound:
  assumes "lending_ltv_factor ltv = Inr k" and "debt * unat k \<le> coll * (price :: nat)"
  shows "debt * 10 ^ 10 \<le> coll * price * unat ltv"
proof -
  have "debt * 10 ^ 10 \<le> debt * (unat k * unat ltv)"
    by (rule mult_le_mono2) (rule ltv_factor_bound [OF assms(1)])
  also have "\<dots> \<le> coll * price * unat ltv" using mult_le_mono1 [OF assms(2), of "unat ltv"] by (simp add: mult.assoc)
  finally show ?thesis .
qed

lemma check_collateral_Inr:
  "check_lending_collateral debt coll price ltv = Inr u \<longleftrightarrow>
     (\<exists>k. lending_ltv_factor ltv = Inr k \<and> unat debt * unat k \<le> unat coll * unat price)"
proof -
  have "unat ((ucast (x :: u64) :: u128) * ucast (y :: u64)) = unat x * unat y" for x y
    using mult_u64_fits [of x y] by (simp add: unat_mult_small)
  then show ?thesis
    by (cases "lending_ltv_factor ltv")
      (auto simp: check_lending_collateral_def res_simps Let_def word_less_nat_alt)
qed

text \<open>The new totals of the two priced builders.\<close>

lemma priced_built:
  assumes "build_lending_borrow_tx req amount price = Inr b \<or> build_lending_withdraw_tx req amount price = Inr b"
    and d: "d = lr_pool_datum req"
  obtains tc td k where
    "assemble_lending_tx req (d\<lparr>total_collateral := tc, total_debt := td\<rparr>) (lending_path1_witness price) = Inr b"
    and "lending_ltv_factor (ltv_max_bps d) = Inr k"
    and "unat td * unat k \<le> unat tc * unat (op_price_scaled price)"
    and "op_pool_id price = ld_pool_id d"
proof -
  from assms(1) show thesis
  proof
    assume "build_lending_borrow_tx req amount price = Inr b"
    then show thesis
      using that [where tc = "total_collateral d"]
      by (auto simp: build_lending_borrow_tx_def d res_simps Let_def check_collateral_Inr split: if_splits)
  next
    assume "build_lending_withdraw_tx req amount price = Inr b"
    then show thesis
      using that [where td = "total_debt d"]
      by (auto simp: build_lending_withdraw_tx_def d res_simps Let_def check_collateral_Inr split: if_splits)
  qed
qed

text \<open>
  C18. Borrows and withdrawals go through while the price is fresh. When one of the two priced
  builders succeeds on a price the oracle's committed key has signed for this pool, its transaction
  satisfies the covenant of the pool it spends in every slot from the price's own to the maximum age
  after it; the native value is conserved, and in the new datum the debt is within the
  loan-to-value share of the collateral at that price.
\<close>

theorem priced_builders_accepted:
  assumes b: "build_lending_borrow_tx req amount price = Inr b \<or> build_lending_withdraw_tx req amount price = Inr b"
    and pool: "spends_pool req pool_out" and user: "small_datums [user_out]"
    and lock: "lending_pool_script (lr_pool_datum req) (lr_oracle_pk_hash req) (lr_max_price_age_slots req) = Inr lock"
    and key: "sha3_256 E (op_oracle_pubkey price) = lr_oracle_pk_hash req"
    and sig: "checksig_pqc E (op_oracle_pubkey price) (op_signature price)
      (oracle_price_message (op_pool_id price) (op_price_scaled price) (op_slot price))"
    and size: "op_signature price \<noteq> []" "op_oracle_pubkey price \<noteq> []"
      "length (op_signature price) + length (op_oracle_pubkey price) \<le> 13000"
    and fresh: "sint (op_slot price) \<le> sint sl" "sint (sl - op_slot price) \<le> sint (lr_max_price_age_slots req)"
  shows "(\<exists>r. validate_script E lock (in_witness (hd (tx_inputs (lb_tx b)))) (lb_tx b) [pool_out, user_out] sl =
      Inr r \<and> success r) \<and>
    sum_list (map (unat \<circ> out_value) (tx_outputs (lb_tx b))) + unat (tx_fee (lb_tx b)) =
      unat (lr_pool_value req) + unat (lr_user_input_value req) \<and>
    unat (total_debt (lb_new_pool_datum b)) * 10 ^ 10 \<le>
      unat (total_collateral (lb_new_pool_datum b)) * unat (op_price_scaled price) *
      unat (ltv_max_bps (lr_pool_datum req))"
proof -
  obtain tc td k where a: "assemble_lending_tx req ((lr_pool_datum req)\<lparr>total_collateral := tc, total_debt := td\<rparr>)
      (lending_path1_witness price) = Inr b"
    and k: "lending_ltv_factor (ltv_max_bps (lr_pool_datum req)) = Inr k"
    and le: "unat td * unat k \<le> unat tc * unat (op_price_scaled price)"
    and pid: "op_pool_id price = ld_pool_id (lr_pool_datum req)"
    by (rule priced_built [OF b refl])
  have k': "lending_ltv_factor (lsp_ltv_max_bps (params_of (lr_pool_datum req))) = Inr k"
    using k by (simp add: params_of_def)
  have new: "lb_new_pool_datum b = (lr_pool_datum req)\<lparr>total_collateral := tc, total_debt := td\<rparr>"
    by (rule assemble_lending_Inr [OF a])
  note t = assembled_transition [OF a refl pool user lock]
  from lending_priced_iff [OF spends_pool_len [OF pool refl] lock [unfolded pool_script_lock] k' t(2,3)
      size lending_path1_witness_def, of E sl]
  show ?thesis
    using t(1) [of E, unfolded ids_of_def] t(4,5) le key sig fresh pid priced_bound [OF k le]
    by (simp add: oracle_price_message_def new)
qed

text \<open>
  No priced spend over-borrows. Whatever transaction the lending lock accepts on its priced
  path, the pool datum it leaves holds a debt within the loan-to-value share of its collateral at the
  price the oracle signed; the rounded-up collateral factor of the script makes the integer test
  imply the exact one.
\<close>

theorem priced_spend_collateralized:
  assumes len: "length pid = 32" "length ct = 32" "length dt = 32" "length pkh = 32"
    and lock: "lending_pool_lock pid ct dt params pkh max_age = Inr lock"
    and small: "small_datums ins" "small_datums (tx_outputs tx)"
    and sg: "sg \<noteq> []" "pk \<noteq> []" "length sg + length pk \<le> 13000"
    and w: "w = sb_build (sb_chain [sb_push_bytes sg, sb_push_bytes pk, sb_push_bytes (le_bytes 8 (unat (price :: u64))),
      sb_push_bytes (le_bytes 8 (unat (slot :: u64))), sb_push_int 1])"
    and ok: "validate_script E lock w tx ins sl = Inr r" "success r"
  shows "\<exists>o0 outs' d'. tx_outputs tx = o0 # outs' \<and> lending_from_canonical_bytes (datum_bytes o0) = Inr d' \<and>
    unat (total_debt d') * 10 ^ 10 \<le> unat (total_collateral d') * unat price * unat (ltv_max_bps d') \<and>
    checksig_pqc E pk sg (LENDING_ORACLE_DOMAIN_TAG @ pid @ le_bytes 8 (unat price) @ le_bytes 8 (unat slot)) \<and>
    sha3_256 E pk = pkh"
proof -
  obtain k where k: "lending_ltv_factor (lsp_ltv_max_bps params) = Inr k"
    using lock by (auto simp: lending_pool_lock_def res_simps)
  obtain o0 outs' d' where o0: "tx_outputs tx = o0 # outs'" "lending_from_canonical_bytes (datum_bytes o0) = Inr d'"
    and params: "params_of d' = params" and le: "unat (total_debt d') * unat k \<le> unat (total_collateral d') * unat price"
    and sig: "checksig_pqc E pk sg (LENDING_ORACLE_DOMAIN_TAG @ pid @ le_bytes 8 (unat price) @ le_bytes 8 (unat slot))"
      "sha3_256 E pk = pkh"
    using lending_priced_iff [OF len lock k small sg w, of E sl] ok
    by (auto simp: lending_transition_def lending_kept_def)
  have "ltv_max_bps d' = lsp_ltv_max_bps params" using params by (auto simp: params_of_def)
  then show ?thesis using o0 sig priced_bound [OF k le] by auto
qed

section \<open>Instances\<close>


definition demo_swap :: swap_request where
  "demo_swap = \<lparr>sr_pool_outpoint = OutPoint hash_zero 0, sr_pool_datum = demo_pool_datum 10000 10000,
     sr_pool_value = 50, sr_user_outpoint = OutPoint hash_zero 1, sr_user_input_value = 20,
     sr_user_locking_script = [], sr_direction = AtoB, sr_amount_in = 1000, sr_min_receive = 900, sr_tx_fee = 5\<rparr>"

lemma demo_swap_built: "\<exists>b. build_swap_tx demo_env demo_swap = Inr b"
  by (simp add: build_swap_tx_def demo_swap_def demo_quote Let_def pool_datum_validate_def fail_if_def
      checked_sub_w_def checked_add_w_def apply_swap_def pool_state_new_def)

theorem swap_tx_accepted_witness:
  "\<exists>b r. build_swap_tx demo_env demo_swap = Inr b \<and>
     validate_script demo_env (datum_lock (demo_pool_datum 10000 10000)) (in_witness (hd (tx_inputs (sb_tx b))))
       (sb_tx b) [demo_pool_out 10000 10000, tx_output_new 20 []] 5 = Inr r \<and> success r"
proof -
  obtain b where b: "build_swap_tx demo_env demo_swap = Inr b" using demo_swap_built by blast
  have "out_datum (demo_pool_out 10000 10000) = Some (pool_datum_to_canonical_bytes (sr_pool_datum demo_swap))"
    by (simp add: demo_pool_out_def with_datum_def demo_swap_def)
  from swap_tx_accepted [OF b _ this, of "tx_output_new 20 []" 5] show ?thesis
    using b by (simp add: demo_swap_def small_datums_def)
qed

definition demo_request :: lending_request_core where
  "demo_request = \<lparr>lr_pool_outpoint = OutPoint hash_zero 0, lr_pool_datum = demo_loan 1000 100,
     lr_pool_value = 50, lr_oracle_pk_hash = demo_pkh, lr_max_price_age_slots = 10,
     lr_user_outpoint = OutPoint hash_zero 1, lr_user_input_value = 20, lr_user_locking_script = [],
     lr_tx_fee = 5\<rparr>"

definition demo_price :: oracle_signed_price where
  "demo_price = \<lparr>op_pool_id = hash_zero, op_price_scaled = 1000000, op_slot = 3, op_oracle_pubkey = [7, 7],
     op_signature = [7, 7]\<rparr>"

lemma demo_request_sel [simp]:
  "lr_pool_datum demo_request = demo_loan 1000 100" "lr_oracle_pk_hash demo_request = demo_pkh"
  "lr_max_price_age_slots demo_request = 10" "lr_user_input_value demo_request = 20" "lr_tx_fee demo_request = 5"
  "spends_pool demo_request (demo_loan_out 1000 100)" "small_datums [tx_output_new v l]"
  by (simp_all add: demo_request_def spends_pool_def demo_lens demo_loan_out_def with_datum_def tx_output_new_def
      small_datums_def datum_bytes_def)

lemma demo_request_lock: "lending_pool_script (demo_loan tc td) demo_pkh 10 = Inr demo_lock"
  using demo_lending_lock
  by (simp add: pool_script_lock) (simp add: demo_loan_def lending_datum_new_def params_of_def hash_zero_def)

lemma demo_assembled:
  "\<exists>b. assemble_lending_tx demo_request (demo_loan tc td) w = Inr b"
  by (simp add: assemble_lending_tx_def demo_request_lock checked_sub_w_def Let_def)
    (simp add: lending_validate_def demo_loan_def lending_datum_new_def)

lemma demo_loan_upd [simp]:
  "(demo_loan tc td)\<lparr>total_collateral := tc'\<rparr> = demo_loan tc' td"
  "(demo_loan tc td)\<lparr>total_debt := td'\<rparr> = demo_loan tc td'"
  by (simp_all add: demo_loan_def lending_datum_new_def)

theorem free_builders_accepted_witness:
  "\<exists>b r. build_lending_repay_tx demo_request 40 = Inr b \<and>
     validate_script demo_env demo_lock (in_witness (hd (tx_inputs (lb_tx b)))) (lb_tx b)
       [demo_loan_out 1000 100, tx_output_new 20 []] 5 = Inr r \<and> success r"
proof -
  have "\<exists>b. build_lending_repay_tx demo_request 40 = Inr b"
    by (simp add: build_lending_repay_tx_def checked_sub_w_def demo_assembled Let_def)
  then obtain b where b: "build_lending_repay_tx demo_request 40 = Inr b" by blast
  from free_builders_accepted [OF disjI2 [OF b], of "demo_loan_out 1000 100" "tx_output_new 20 []" demo_lock
      demo_env 5]
  show ?thesis using b by (simp add: demo_request_lock)
qed

theorem priced_builders_accepted_witness:
  "\<exists>b r. build_lending_borrow_tx demo_request 600 demo_price = Inr b \<and>
     validate_script demo_env demo_lock (in_witness (hd (tx_inputs (lb_tx b)))) (lb_tx b)
       [demo_loan_out 1000 100, tx_output_new 20 []] 5 = Inr r \<and> success r"
proof -
  have pid: "ld_pool_id (demo_loan tc td) = hash_zero" "ltv_max_bps (demo_loan tc td) = 7500" for tc td
    by (simp_all add: demo_loan_def lending_datum_new_def)
  have "check_lending_collateral 700 1000 1000000 7500 = Inr ()"
    using demo_factor pid(2) by (auto simp: check_collateral_Inr params_of_def)
  then have "\<exists>b. build_lending_borrow_tx demo_request 600 demo_price = Inr b"
    by (simp add: build_lending_borrow_tx_def checked_add_w_def demo_assembled Let_def pid demo_price_def)
  then obtain b where b: "build_lending_borrow_tx demo_request 600 demo_price = Inr b" by blast
  from priced_builders_accepted [OF disjI1 [OF b], of "demo_loan_out 1000 100" "tx_output_new 20 []" demo_lock
      demo_env 5]
  show ?thesis using b demo_request_lock [of 1000 100] by (simp add: demo_price_def demo_checksig demo_pkh_def)
qed

theorem priced_spend_collateralized_witness:
  "\<exists>d'. lending_from_canonical_bytes (datum_bytes (demo_loan_out 1000 700)) = Inr d' \<and>
     unat (total_debt d') * 10 ^ 10 \<le> unat (total_collateral d') * 1000000 * unat (ltv_max_bps d')"
proof -
  have "\<exists>r. validate_script demo_env demo_lock (demo_priced 1000000 3) (tx_new [] [demo_loan_out 1000 700])
      [demo_loan_out 1000 100] 5 = Inr r \<and> success r"
    using lending_priced_iff [of "replicate 32 0" "replicate 32 0" "replicate 32 0" demo_pkh
        "params_of (demo_loan 0 0)" 10 demo_lock 1333334 "[demo_loan_out 1000 100]"
        "tx_new [] [demo_loan_out 1000 700]" "[7, 7]" "[7, 7]" _ 1000000 3 demo_env 5,
        OF demo_lens(1,1,1,2) demo_lending_lock demo_factor _ _ _ _ _ refl]
    by (simp add: demo_transition demo_priced_def demo_checksig demo_pkh_def)
  then obtain r where "validate_script demo_env demo_lock (demo_priced 1000000 3)
      (tx_new [] [demo_loan_out 1000 700]) [demo_loan_out 1000 100] 5 = Inr r" "success r" by blast
  from priced_spend_collateralized [OF demo_lens(1,1,1,2) demo_lending_lock _ _ _ _ _ demo_priced_def this]
  show ?thesis by simp (blast intro: exI)
qed

end

