(* ===== verification/QV_Oracle.thy ===== *)
theory QV_Oracle
  imports QV_Types "HOL-Library.Multiset"
begin

text \<open>
  \<open>qv-defi/src/oracle.rs\<close>: price observations, the sliding window, the median over validators and
  the time-weighted average. The bincode codecs are left out.
\<close>

section \<open>Data\<close>

datatype oracle_error =
    InsufficientObservations nat nat
  | EmptyWindow
  | ManipulationDetected u16
  | InvalidSignature
  | ZeroDuration
  | OracleOverflow

record price_observation =
  po_pool_id :: hash256
  price_q64 :: u128
  po_slot :: u64
  signer_pool_id :: hash256
  po_signature :: bytes

definition price_observation_new ::
  "hash256 \<Rightarrow> u128 \<Rightarrow> u64 \<Rightarrow> hash256 \<Rightarrow> bytes \<Rightarrow> price_observation" where
  "price_observation_new pid price slot signer sg =
     \<lparr>po_pool_id = pid, price_q64 = price, po_slot = slot, signer_pool_id = signer, po_signature = sg\<rparr>"

definition observation_validate :: "price_observation \<Rightarrow> u64 \<Rightarrow> u64 \<Rightarrow> (oracle_error, unit) result" where
  "observation_validate ob current_slot max_slot_age =
     (if current_slot < po_slot ob then Inl InvalidSignature
      else let age = sat_sub current_slot (po_slot ob) in
        if max_slot_age < age then Inl InvalidSignature else Inr ())"

record oracle_window =
  ow_pool_id :: hash256
  ow_max_size :: nat
  ow_observations :: "price_observation list"

definition window_new :: "hash256 \<Rightarrow> nat \<Rightarrow> oracle_window" where
  "window_new pid max_size = \<lparr>ow_pool_id = pid, ow_max_size = max_size, ow_observations = []\<rparr>"

text \<open>\<open>pop_front\<close> of an empty queue does nothing, as \<open>tl []\<close>.\<close>

definition add_observation :: "oracle_window \<Rightarrow> price_observation \<Rightarrow> oracle_window" where
  "add_observation w ob =
     (let w = (if ow_max_size w \<le> length (ow_observations w)
               then w\<lparr>ow_observations := tl (ow_observations w)\<rparr> else w)
      in w\<lparr>ow_observations := ow_observations w @ [ob]\<rparr>)"

definition window_prices :: "oracle_window \<Rightarrow> u128 list" where
  "window_prices w = map price_q64 (ow_observations w)"

definition window_clear :: "oracle_window \<Rightarrow> oracle_window" where
  "window_clear w = w\<lparr>ow_observations := []\<rparr>"

section \<open>Aggregation\<close>

text \<open>The ratio is cast to 16 bits, which drops its high bits.\<close>

definition deviation_bps :: "u128 \<Rightarrow> u128 \<Rightarrow> u128 \<Rightarrow> u16" where
  "deviation_bps lo hi dflt =
     ucast (case Option.bind (checked_mul_w (hi - lo) 10000) (\<lambda>d. checked_div_w d lo) of
       None \<Rightarrow> dflt | Some x \<Rightarrow> x)"

fun check_deviations :: "u128 list \<Rightarrow> u128 \<Rightarrow> u16 \<Rightarrow> (oracle_error, unit) result" where
  "check_deviations [] median max_dev = Inr ()"
| "check_deviations (price # prices) median max_dev =
     (if price = 0 \<or> median = 0 then check_deviations prices median max_dev
      else let (lo, hi) = (if price < median then (price, median) else (median, price));
               dev = (if lo = 0 then 10000 else deviation_bps lo hi 10000)
        in if max_dev < dev then Inl (ManipulationDetected dev)
           else check_deviations prices median max_dev)"

definition aggregate_median :: "u128 list \<Rightarrow> u16 \<Rightarrow> (oracle_error, u128) result" where
  "aggregate_median prices max_dev =
     (if length prices < 3 then Inl (InsufficientObservations (length prices) 3)
      else let sorted = sort prices; median = sorted ! (length sorted div 2)
        in bind_res (check_deviations prices median max_dev) (\<lambda>_. Inr median))"

fun twap_sums :: "price_observation list \<Rightarrow> u128 \<Rightarrow> u64 \<Rightarrow> (oracle_error, u128 \<times> u64) result" where
  "twap_sums (a # b # obs) sum_price_time sum_time =
     bind_res (ok_or (checked_sub_w (po_slot b) (po_slot a)) OracleOverflow) (\<lambda>dt.
     bind_res (ok_or (checked_mul_w (price_q64 a) (ucast dt)) OracleOverflow) (\<lambda>pt.
     bind_res (ok_or (checked_add_w sum_price_time pt) OracleOverflow) (\<lambda>sum_price_time.
     bind_res (ok_or (checked_add_w sum_time dt) OracleOverflow) (\<lambda>sum_time.
       twap_sums (b # obs) sum_price_time sum_time))))"
| "twap_sums _ sum_price_time sum_time = Inr (sum_price_time, sum_time)"

definition compute_twap :: "price_observation list \<Rightarrow> (oracle_error, u128) result" where
  "compute_twap obs = (case obs of
     [] \<Rightarrow> Inl EmptyWindow
   | [ob] \<Rightarrow> Inr (price_q64 ob)
   | _ \<Rightarrow> bind_res (twap_sums obs 0 0) (\<lambda>(sum_price_time, sum_time).
       if sum_time = 0 then Inl ZeroDuration
       else ok_or (checked_div_w sum_price_time (ucast sum_time)) OracleOverflow))"

definition detect_manipulation :: "u128 \<Rightarrow> u128 \<Rightarrow> u16 \<Rightarrow> (oracle_error, unit) result" where
  "detect_manipulation prev cur max_dev =
     (if prev = 0 \<or> cur = 0 then Inr ()
      else let (lo, hi) = (if prev < cur then (prev, cur) else (cur, prev));
               dev = deviation_bps lo hi 10001
        in if max_dev < dev then Inl (ManipulationDetected dev) else Inr ())"

section \<open>The window is the tail of what was added\<close>

lemma window_contents_gen:
  assumes "ow_observations w = drop (length seen - max 1 n) seen" and "ow_max_size w = n"
  shows "ow_observations (fold (\<lambda>ob w. add_observation w ob) obs w) =
    drop (length (seen @ obs) - max 1 n) (seen @ obs)"
  using assms
proof (induction obs arbitrary: w seen)
  case (Cons ob obs)
  have "ow_observations (add_observation w ob) = drop (length (seen @ [ob]) - max 1 n) (seen @ [ob])"
    using Cons.prems
    by (cases "n \<le> length seen"; cases "length seen = 0")
      (auto simp: add_observation_def Let_def tl_drop Suc_diff_le max_def drop_Suc)
  from Cons.IH [OF this] Cons.prems(2) show ?case
    by (simp add: add_observation_def Let_def)
qed simp

text \<open>
  The window keeps the newest observations. After any sequence of additions to a new window it
  holds exactly the last \<open>max_size\<close> of them, oldest first; a window of size zero keeps one.
\<close>

theorem window_contents:
  "ow_observations (fold (\<lambda>ob w. add_observation w ob) obs (window_new pid n)) =
     drop (length obs - max 1 n) obs"
  using window_contents_gen [of "window_new pid n" "[]" n obs] by (simp add: window_new_def)

section \<open>The median resists a minority\<close>

lemma length_filter_split:
  "length (filter P xs) = length (filter P (take i xs)) + length (filter P (drop i xs))"
  by (metis append_take_drop_id filter_append length_append)

lemma sorted_nth_ge:
  assumes s: "sorted xs" and i: "i < length xs" and few: "length (filter (\<lambda>x. x < lo) xs) \<le> i"
  shows "lo \<le> (xs ! i :: 'a::linorder)"
proof (rule ccontr)
  assume "\<not> lo \<le> xs ! i"
  then have "\<forall>x \<in> set (take (Suc i) xs). x < lo"
    using s i by (auto simp: set_conv_nth less_Suc_eq_le) (meson le_less_trans not_le sorted_nth_mono)
  then have "filter (\<lambda>x. x < lo) (take (Suc i) xs) = take (Suc i) xs" by simp
  then show False using few i length_filter_split [of "\<lambda>x. x < lo" xs "Suc i"] by simp
qed

lemma sorted_nth_le:
  assumes s: "sorted xs" and i: "i < length xs" and few: "length (filter (\<lambda>x. hi < x) xs) + i < length xs"
  shows "(xs ! i :: 'a::linorder) \<le> hi"
proof (rule ccontr)
  assume "\<not> xs ! i \<le> hi"
  moreover have "xs ! i \<le> x" if x: "x \<in> set (drop i xs)" for x
  proof -
    obtain j where "j < length xs - i" "x = xs ! (i + j)" using x by (auto simp: in_set_conv_nth)
    then show ?thesis using sorted_nth_mono [OF s, of i "i + j"] by simp
  qed
  ultimately have "\<forall>x \<in> set (drop i xs). hi < x" by (meson less_le_trans not_le)
  then have "filter (\<lambda>x. hi < x) (drop i xs) = drop i xs" by simp
  then show False using few i length_filter_split [of "\<lambda>x. hi < x" xs i] by simp
qed

lemma filter_sort_length: "length (filter P (sort xs)) = length (filter P xs)"
  by (metis mset_filter mset_sort size_mset)

lemma filter_length_mono: "(\<And>x. P x \<Longrightarrow> Q x) \<Longrightarrow> length (filter P xs) \<le> length (filter Q xs)"
  by (induction xs) auto

text \<open>
  C31. A minority cannot move the median. When fewer than half of the submitted prices lie outside
  an interval, whatever they are, the aggregated price lies inside it.
\<close>

theorem median_resists_minority:
  assumes ok: "aggregate_median prices max_dev = Inr m"
    and minority: "2 * length (filter (\<lambda>p. \<not> (lo \<le> p \<and> p \<le> hi)) prices) < length prices"
  shows "lo \<le> m \<and> m \<le> hi"
proof -
  let ?s = "sort prices" and ?i = "length prices div 2"
  let ?out = "length (filter (\<lambda>p. \<not> (lo \<le> p \<and> p \<le> hi)) prices)"
  have m: "m = ?s ! ?i" and len: "3 \<le> length prices"
    using ok by (auto simp: aggregate_median_def res_simps Let_def split: if_splits)
  have i: "?i < length ?s" using len by simp
  have "length (filter (\<lambda>p. p < lo) prices) \<le> ?out" "length (filter (\<lambda>p. hi < p) prices) \<le> ?out"
    by (rule filter_length_mono; auto)+
  then have "length (filter (\<lambda>p. p < lo) ?s) \<le> ?i" "length (filter (\<lambda>p. hi < p) ?s) + ?i < length ?s"
    using minority by (simp_all add: filter_sort_length)
  then show ?thesis using i m by (auto intro: sorted_nth_ge sorted_nth_le)
qed

section \<open>The time-weighted average\<close>

text \<open>The sum the loop computes, on natural numbers.\<close>

fun weighted :: "price_observation list \<Rightarrow> nat" where
  "weighted (a # b # obs) = unat (price_q64 a) * (unat (po_slot b) - unat (po_slot a)) + weighted (b # obs)"
| "weighted _ = 0"

lemma checked_mul_u64:
  "checked_mul_w p (ucast (d :: u64)) = Some (x :: u128) \<Longrightarrow> unat x = unat p * unat d"
  using unat_bound [of d] by (auto simp: checked_mul_w_def unat_mult_small split: if_splits)

lemma twap_sums_Inr:
  assumes "twap_sums (ob # obs) sp st = Inr (sp', st')"
  shows "unat sp' = unat sp + weighted (ob # obs)"
    and "unat st' + unat (po_slot ob) = unat st + unat (po_slot (last (ob # obs)))"
    and "sorted (map (unat \<circ> po_slot) (ob # obs))"
  using assms
proof (induction obs arbitrary: ob sp st)
  case (Cons b obs)
  {
    case _: 1
    with Cons.IH(1) [of b] show ?case by (auto simp: res_simps int_simps checked_mul_u64)
  next
    case _: 2
    then obtain xb xc where "twap_sums (b # obs) xb xc = Inr (sp', st')"
      and "unat xc + unat (po_slot ob) = unat st + unat (po_slot b)"
      by (auto simp: res_simps int_simps)
    with Cons.IH(2) [of b xb xc] show ?case by simp
  next
    case _: 3
    then obtain xb xc where "twap_sums (b # obs) xb xc = Inr (sp', st')"
      and "unat (po_slot ob) \<le> unat (po_slot b)"
      by (auto simp: res_simps int_simps)
    with Cons.IH(3) [of b xb xc] show ?case by (simp only: list.map sorted2 o_apply)
  }
qed simp_all

lemma weighted_between:
  assumes "sorted (map (unat \<circ> po_slot) (ob # obs))"
    and "\<And>x. x \<in> set (ob # obs) \<Longrightarrow> lo \<le> unat (price_q64 x) \<and> unat (price_q64 x) \<le> hi"
    and "T = unat (po_slot (last (ob # obs))) - unat (po_slot ob)"
  shows "lo * T \<le> weighted (ob # obs) \<and> weighted (ob # obs) \<le> hi * T"
  using assms
proof (induction obs arbitrary: ob T)
  case (Cons b obs)
  define D R where "D = unat (po_slot b) - unat (po_slot ob)"
    and "R = unat (po_slot (last (b # obs))) - unat (po_slot b)"
  have IH: "lo * R \<le> weighted (b # obs) \<and> weighted (b # obs) \<le> hi * R"
    using Cons.prems(1,2) R_def by (intro Cons.IH) auto
  have "unat (po_slot b) \<le> unat (po_slot (last (b # obs)))"
    using Cons.prems(1) by (cases obs rule: rev_cases) (auto simp: sorted_append)
  then have T: "T = D + R" using Cons.prems(1,3) by (simp add: D_def R_def)
  have "lo * D \<le> unat (price_q64 ob) * D" "unat (price_q64 ob) * D \<le> hi * D"
    using Cons.prems(2) [of ob] by (intro mult_le_mono1, simp)+
  moreover have "weighted (ob # b # obs) = unat (price_q64 ob) * D + weighted (b # obs)" by (simp add: D_def)
  ultimately show ?case using IH unfolding T distrib_left by linarith
qed simp

text \<open>
  C1. The time-weighted average is a mean. When \<open>compute_twap\<close> returns a price for two or more
  observations, their slots are in order, no intermediate sum has wrapped, the price is the exact
  sum of price times duration over the whole duration, rounded down, and it lies between the
  lowest and the highest observed price.
\<close>

theorem twap_is_mean:
  assumes ok: "compute_twap obs = Inr p" and two: "2 \<le> length obs"
    and range: "\<And>ob. ob \<in> set obs \<Longrightarrow> lo \<le> price_q64 ob \<and> price_q64 ob \<le> hi"
  shows "sorted (map (unat \<circ> po_slot) obs) \<and>
    unat p = weighted obs div (unat (po_slot (last obs)) - unat (po_slot (hd obs))) \<and> lo \<le> p \<and> p \<le> hi"
proof -
  obtain a b rest where obs: "obs = a # b # rest"
    using two by (cases obs; cases "tl obs") auto
  obtain sp st where sums: "twap_sums obs 0 0 = Inr (sp, st)" and nz: "st \<noteq> 0"
    and p: "p = sp div ucast st"
    using ok by (auto simp: compute_twap_def obs res_simps checked_div_w_def simp del: twap_sums.simps split: if_splits)
  note s = twap_sums_Inr [of a "b # rest" 0 0 sp st, folded obs, OF sums]
  define T where "T = unat (po_slot (last obs)) - unat (po_slot (hd obs))"
  have T: "unat st = T" "0 < T" using s(2) nz unat_gt_0 [of st] by (auto simp: T_def obs)
  have up: "unat p = weighted obs div T" using p T s(1) unat_bound [of st] by (simp add: unat_div)
  have "unat lo * T \<le> weighted obs \<and> weighted obs \<le> unat hi * T"
    unfolding obs using s(3) range
    by (intro weighted_between) (auto simp: obs T_def word_le_nat_alt)
  then have "unat lo \<le> unat p \<and> unat p \<le> unat hi"
    using T(2) up div_le_mono [of "weighted obs" "unat hi * T" T]
    by (simp add: less_eq_div_iff_mult_less_eq)
  then show ?thesis using s(3) up by (simp add: T_def word_le_nat_alt)
qed

section \<open>The deviation guard\<close>

text \<open>
  The deviation guard wraps around. The ratio is cast to 16 bits before it is compared, so a price
  that is 65536 basis points away from the previous one passes every limit.
\<close>

theorem deviation_wraps:
  assumes k: "0 < k" "k < 10 ^ 20"
  shows "detect_manipulation (of_nat (10000 * k)) (of_nat (75536 * k)) max_dev = Inr ()"
proof -
  define lo hi where "lo = (of_nat (10000 * k) :: u128)" and "hi = (of_nat (75536 * k) :: u128)"
  have u: "unat lo = 10000 * k" "unat hi = 75536 * k"
    using k by (auto simp: lo_def hi_def simp del: of_nat_mult intro!: unat_of_nat_small)
  have lt: "lo < hi" "lo \<noteq> 0" "hi \<noteq> 0" using u k by (auto simp: word_less_nat_alt)
  have d: "unat (hi - lo) = 65536 * k" using u lt by (simp add: unat_sub)
  have m: "unat ((hi - lo) * 10000) = 65536 * k * 10000" 
    by (subst unat_mult_small) (use d k in simp_all)
  have "unat ((hi - lo) * 10000 div lo) = 65536" using m u k by (simp add: unat_div)
  then have "(hi - lo) * 10000 div lo = 65536" by (simp add: word_unat_eq_iff)
  then have "deviation_bps lo hi 10001 = 0"
    using d k lt by (simp add: deviation_bps_def checked_mul_w_def checked_div_w_def)
  then show ?thesis using lt by (simp add: detect_manipulation_def lo_def hi_def)
qed

section \<open>Instances\<close>

theorem median_resists_minority_witness:
  "\<exists>m. aggregate_median [100, 101, 102, 0, 99] 10000 = Inr m \<and> 100 \<le> m \<and> m \<le> 102"
proof -
  have "sort [100, 101, 102, 0, 99 :: u128] = [0, 99, 100, 101, 102]" by (simp add: insort_key.simps)
  then have "aggregate_median [100, 101, 102, 0, 99] 10000 = Inr 100"
    by (simp add: aggregate_median_def deviation_bps_def checked_mul_w_def checked_div_w_def)
  then show ?thesis using median_resists_minority [of "[100, 101, 102, 0, 99]" 10000 _ 100 102] by simp
qed

definition demo_obs :: "u128 \<Rightarrow> u64 \<Rightarrow> price_observation" where
  "demo_obs p t = price_observation_new hash_zero p t hash_zero []"

theorem twap_is_mean_witness:
  "\<exists>p. compute_twap [demo_obs 10 0, demo_obs 20 3, demo_obs 50 5] = Inr p \<and> 10 \<le> p \<and> p \<le> 50"
proof -
  have "compute_twap [demo_obs 10 0, demo_obs 20 3, demo_obs 50 5] = Inr 14"
    by (simp add: compute_twap_def demo_obs_def price_observation_new_def checked_sub_w_def checked_mul_w_def
        checked_add_w_def checked_div_w_def word_unat_eq_iff unat_div)
  from twap_is_mean [OF this, of 10 50] this show ?thesis
    by (auto simp: demo_obs_def price_observation_new_def)
qed

theorem deviation_wraps_witness: "detect_manipulation 10000 75536 300 = Inr ()"
  using deviation_wraps [of 1 300] by simp

end
