(* ===== verification/QV_Kes.thy ===== *)
theory QV_Kes
  imports QV_Validator
begin

text \<open>
  \<open>qv-crypto/src/kes.rs\<close>: key-evolving signatures, a Merkle tree over one ML-DSA key per period, and
  the verifier of \<open>qv-consensus/src/block_validator.rs\<close> built on them. Key generation and signing of
  the ML-DSA crate are the fields of \<open>mldsa_signer\<close>; verification and SHA3 are those of
  \<open>crypto_env\<close>. The memory wiping of dropped values has no counterpart; the wiping of a used
  seed does.
\<close>

section \<open>Leaf keys\<close>

record mldsa_signer =
  mldsa_sk_len :: "dilithium_level \<Rightarrow> nat"
  mldsa_keygen :: "dilithium_level \<Rightarrow> bytes \<Rightarrow> bytes \<times> bytes"
  mldsa_sign :: "dilithium_level \<Rightarrow> bytes \<Rightarrow> bytes \<Rightarrow> bytes"

record pqc_secret_key =
  sk_level :: dilithium_level
  sk_bytes :: bytes

record pqc_key_pair =
  kp_public :: pqc_public_key
  kp_secret :: pqc_secret_key

definition pqc_secret_key_from_bytes ::
  "mldsa_signer \<Rightarrow> dilithium_level \<Rightarrow> bytes \<Rightarrow> (crypto_error, pqc_secret_key) result" where
  "pqc_secret_key_from_bytes G level bs =
     (if length bs \<noteq> mldsa_sk_len G level
      then Inl (InvalidSize (mldsa_sk_len G level) (length bs))
      else Inr \<lparr>sk_level = level, sk_bytes = bs\<rparr>)"

definition from_seed_pqc ::
  "'z crypto_env_scheme \<Rightarrow> mldsa_signer \<Rightarrow> dilithium_level \<Rightarrow> bytes \<Rightarrow> (crypto_error, pqc_key_pair) result" where
  "from_seed_pqc E G level seed =
     (let (pk, sk) = mldsa_keygen G level seed in
      bind_res (pqc_public_key_from_bytes E level pk) (\<lambda>public.
      bind_res (pqc_secret_key_from_bytes G level sk) (\<lambda>secret.
        Inr \<lparr>kp_public = public, kp_secret = secret\<rparr>)))"

definition sign_level :: "mldsa_signer \<Rightarrow> dilithium_level \<Rightarrow> bytes \<Rightarrow> bytes \<Rightarrow> (crypto_error, bytes) result" where
  "sign_level G level sk msg =
     (if length sk \<noteq> mldsa_sk_len G level then Inl MalformedPublicKey else Inr (mldsa_sign G level sk msg))"

definition sign_pqc ::
  "'z crypto_env_scheme \<Rightarrow> mldsa_signer \<Rightarrow> pqc_secret_key \<Rightarrow> bytes \<Rightarrow> (crypto_error, pqc_signature) result" where
  "sign_pqc E G secret msg =
     bind_res (sign_level G (sk_level secret) (sk_bytes secret) msg)
       (pqc_signature_from_bytes E (sk_level secret))"

section \<open>Constants and types\<close>

definition KES_TREE_DEPTH :: nat where "KES_TREE_DEPTH = 11"
definition KES_TOTAL_PERIODS :: u32 where "KES_TOTAL_PERIODS = push_bit KES_TREE_DEPTH 1"
definition KES_LEAF_LEVEL :: dilithium_level where "KES_LEAF_LEVEL = Level3"
definition KES_LEAF_SEED_TAG :: bytes where
  "KES_LEAF_SEED_TAG = map (\<lambda>c. of_char c) ''QuantumVault-KES-leaf-v1''"
definition KES_SIGN_TAG :: bytes where
  "KES_SIGN_TAG = map (\<lambda>c. of_char c) ''QuantumVault-KES-sign-v1''"
definition KES_MERKLE_TAG :: bytes where
  "KES_MERKLE_TAG = map (\<lambda>c. of_char c) ''QuantumVault-KES-merkle-v1''"

record kes_secret_key =
  ks_period :: u32
  leaf_seeds :: "bytes list"
  leaf_pk_hashes :: "bytes list"

definition is_exhausted :: "kes_secret_key \<Rightarrow> bool" where
  "is_exhausted sk \<longleftrightarrow> KES_TOTAL_PERIODS \<le> ks_period sk"

record kes_signature =
  kg_period :: u32
  kg_leaf_pk :: bytes
  kg_leaf_signature :: bytes
  kg_merkle_path :: "bytes list"

section \<open>The tree\<close>

definition derive_leaf_seed :: "'z crypto_env_scheme \<Rightarrow> bytes \<Rightarrow> u32 \<Rightarrow> bytes" where
  "derive_leaf_seed E master_seed period =
     sha3_256 E (KES_LEAF_SEED_TAG @ master_seed @ le_bytes 4 (unat period))"

definition leaf_pk_hash :: "'z crypto_env_scheme \<Rightarrow> bytes \<Rightarrow> bytes" where
  "leaf_pk_hash E pk = sha3_256 E (KES_MERKLE_TAG @ [0x00] @ pk)"

definition internal_node_hash :: "'z crypto_env_scheme \<Rightarrow> bytes \<Rightarrow> bytes \<Rightarrow> bytes" where
  "internal_node_hash E l r = sha3_256 E (KES_MERKLE_TAG @ [0x01] @ l @ r)"

text \<open>\<open>chunks(2)\<close>: a last chunk of one node is paired with itself.\<close>

fun kes_next_layer :: "'z crypto_env_scheme \<Rightarrow> bytes list \<Rightarrow> bytes list" where
  "kes_next_layer E (l # r # xs) = internal_node_hash E l r # kes_next_layer E xs"
| "kes_next_layer E [l] = [internal_node_hash E l l]"
| "kes_next_layer E [] = []"

lemma length_kes_next: "length (kes_next_layer E xs) = (length xs + 1) div 2"
  by (induction E xs rule: kes_next_layer.induct) auto

function merkle_root_from_leaves :: "'z crypto_env_scheme \<Rightarrow> bytes list \<Rightarrow> bytes" where
  "merkle_root_from_leaves E layer =
     (if 1 < length layer then merkle_root_from_leaves E (kes_next_layer E layer)
      else case layer of [] \<Rightarrow> replicate 32 0 | r # _ \<Rightarrow> r)"
  by pat_completeness auto
termination
  by (relation "measure (\<lambda>(E, layer). length layer)") (auto simp: length_kes_next)

declare merkle_root_from_leaves.simps [simp del]

definition get_or_zero :: "bytes list \<Rightarrow> nat \<Rightarrow> bytes" where
  "get_or_zero layer i = (if i < length layer then layer ! i else replicate 32 0)"

text \<open>\<open>idx ^ 1\<close> flips the lowest bit.\<close>

definition sibling_index :: "nat \<Rightarrow> nat" where
  "sibling_index i = (if even i then i + 1 else i - 1)"

primrec merkle_path_for :: "'z crypto_env_scheme \<Rightarrow> bytes list \<Rightarrow> nat \<Rightarrow> nat \<Rightarrow> bytes list" where
  "merkle_path_for E layer idx 0 = []"
| "merkle_path_for E layer idx (Suc depth) =
     get_or_zero layer (sibling_index idx) # merkle_path_for E (kes_next_layer E layer) (idx div 2) depth"

primrec merkle_root_from_path :: "'z crypto_env_scheme \<Rightarrow> bytes \<Rightarrow> nat \<Rightarrow> bytes list \<Rightarrow> bytes" where
  "merkle_root_from_path E current idx [] = current"
| "merkle_root_from_path E current idx (sibling # path) =
     merkle_root_from_path E
       (if even idx then internal_node_hash E current sibling else internal_node_hash E sibling current)
       (idx div 2) path"

definition period_bound_message :: "u32 \<Rightarrow> bytes \<Rightarrow> bytes" where
  "period_bound_message period msg = KES_SIGN_TAG @ le_bytes 4 (unat period) @ msg"

section \<open>Generating, signing, verifying, evolving\<close>

fun kes_leaves ::
  "'z crypto_env_scheme \<Rightarrow> mldsa_signer \<Rightarrow> bytes \<Rightarrow> u32 list \<Rightarrow> (crypto_error, bytes list \<times> bytes list) result" where
  "kes_leaves E G master_seed [] = Inr ([], [])"
| "kes_leaves E G master_seed (p # ps) =
     (let seed = derive_leaf_seed E master_seed p in
      bind_res (from_seed_pqc E G KES_LEAF_LEVEL seed) (\<lambda>kp.
        let h = leaf_pk_hash E (pk_bytes (kp_public kp)) in
        bind_res (kes_leaves E G master_seed ps) (\<lambda>(seeds, hs). Inr (seed # seeds, h # hs))))"

definition kes_generate ::
  "'z crypto_env_scheme \<Rightarrow> mldsa_signer \<Rightarrow> bytes \<Rightarrow> (crypto_error, bytes \<times> kes_secret_key) result" where
  "kes_generate E G master_seed =
     bind_res (kes_leaves E G master_seed (map of_nat [0..<unat KES_TOTAL_PERIODS])) (\<lambda>(seeds, hs).
       Inr (merkle_root_from_leaves E hs, \<lparr>ks_period = 0, leaf_seeds = seeds, leaf_pk_hashes = hs\<rparr>))"

definition kes_sign ::
  "'z crypto_env_scheme \<Rightarrow> mldsa_signer \<Rightarrow> kes_secret_key \<Rightarrow> bytes \<Rightarrow> (crypto_error, kes_signature) result" where
  "kes_sign E G sk msg =
     (if is_exhausted sk then Inl (CryptoOther ''kes secret key exhausted (period >= 2^depth)'')
      else let period = ks_period sk in
        bind_res (if unat period < length (leaf_seeds sk) then Inr (leaf_seeds sk ! unat period)
                  else Inl (CryptoOther ''kes leaf seed missing for period'')) (\<lambda>seed.
        bind_res (from_seed_pqc E G KES_LEAF_LEVEL seed) (\<lambda>kp.
        bind_res (sign_pqc E G (kp_secret kp) (period_bound_message period msg)) (\<lambda>sg.
          Inr \<lparr>kg_period = period, kg_leaf_pk = pk_bytes (kp_public kp), kg_leaf_signature = sig_bytes sg,
            kg_merkle_path = merkle_path_for E (leaf_pk_hashes sk) (unat period) KES_TREE_DEPTH\<rparr>))))"

definition kes_verify ::
  "'z crypto_env_scheme \<Rightarrow> bytes \<Rightarrow> kes_signature \<Rightarrow> bytes \<Rightarrow> (crypto_error, bool) result" where
  "kes_verify E pk sg msg =
     (if KES_TOTAL_PERIODS \<le> kg_period sg then Inr False
      else if length (kg_merkle_path sg) \<noteq> KES_TREE_DEPTH then Inr False
      else bind_res (pqc_public_key_from_bytes E KES_LEAF_LEVEL (kg_leaf_pk sg)) (\<lambda>leaf_pk.
        bind_res (pqc_signature_from_bytes E KES_LEAF_LEVEL (kg_leaf_signature sg)) (\<lambda>leaf_sig.
        bind_res (verify_pqc E leaf_pk (period_bound_message (kg_period sg) msg) leaf_sig) (\<lambda>ok.
          if \<not> ok then Inr False
          else Inr (merkle_root_from_path E (leaf_pk_hash E (kg_leaf_pk sg)) (unat (kg_period sg))
            (kg_merkle_path sg) = pk)))))"

definition kes_evolve :: "kes_secret_key \<Rightarrow> (crypto_error, unit) result \<times> kes_secret_key" where
  "kes_evolve sk =
     (if is_exhausted sk then (Inl (CryptoOther ''kes secret key already exhausted''), sk)
      else (Inr (), sk\<lparr>leaf_seeds := (leaf_seeds sk)[unat (ks_period sk) := replicate 32 0],
        ks_period := ks_period sk + 1\<rparr>))"

text \<open>
  The verifier of the consensus crate. bincode and the rendering of a crypto error are arguments;
  the message of a period mismatch leaves out the two numbers.
\<close>

definition dilithium_sum_verify ::
  "'z crypto_env_scheme \<Rightarrow> (bytes \<Rightarrow> (string, kes_signature) result) \<Rightarrow> (crypto_error \<Rightarrow> string) \<Rightarrow> kes_verifier" where
  "dilithium_sum_verify E de_sig show_err kes_pk expected_period msg signature =
     (if length kes_pk \<noteq> 32 then Inl (InvalidKesSignature (Inl ''kes_pk must be 32 bytes''))
      else bind_res (map_err (\<lambda>e. InvalidKesSignature (Inl (''bincode decode: '' @ e))) (de_sig signature)) (\<lambda>sg.
        if kg_period sg \<noteq> expected_period
        then Inl (InvalidKesSignature (Inl ''kes period does not match expected period for this slot''))
        else bind_res (map_err (\<lambda>e. InvalidKesSignature (Inl (show_err e))) (kes_verify E kes_pk sg msg)) (\<lambda>valid.
          if \<not> valid then Inl (InvalidKesSignature (Inl ''kes signature verification rejected'')) else Inr ())))"

lemma dilithium_sum_verify_iff:
  "dilithium_sum_verify E de_sig show_err kes_pk n msg signature = Inr () \<longleftrightarrow>
     length kes_pk = 32 \<and> (\<exists>sg. de_sig signature = Inr sg \<and> kg_period sg = n \<and> kes_verify E kes_pk sg msg = Inr True)"
  by (auto simp: dilithium_sum_verify_def res_simps split: if_splits)

section \<open>The path leads to the root\<close>

lemma kes_next_nth:
  "2 * j + 1 < length xs \<Longrightarrow> kes_next_layer E xs ! j = internal_node_hash E (xs ! (2 * j)) (xs ! (2 * j + 1))"
proof (induction E xs arbitrary: j rule: kes_next_layer.induct)
  case (1 E l r xs)
  then show ?case by (cases j) auto
qed auto

lemma path_root:
  "length leaves = 2 ^ d \<Longrightarrow> i < 2 ^ d \<Longrightarrow>
     merkle_root_from_path E (leaves ! i) i (merkle_path_for E leaves i d) = merkle_root_from_leaves E leaves"
proof (induction d arbitrary: leaves i)
  case 0
  then obtain l where "leaves = [l]" by (auto simp: length_Suc_conv)
  then show ?case using 0 by (simp add: merkle_root_from_leaves.simps)
next
  case (Suc d)
  let ?next = "kes_next_layer E leaves" and ?j = "i div 2"
  have j: "?j < 2 ^ d" and len: "length ?next = 2 ^ d" using Suc.prems by (auto simp: length_kes_next)
  have step: "?next ! ?j = (if even i then internal_node_hash E (leaves ! i) (get_or_zero leaves (sibling_index i))
      else internal_node_hash E (get_or_zero leaves (sibling_index i)) (leaves ! i))"
    using Suc.prems kes_next_nth [of ?j leaves E] j
    by (auto simp: get_or_zero_def sibling_index_def elim!: evenE oddE)
  have "merkle_root_from_path E (?next ! ?j) ?j (merkle_path_for E ?next ?j d) = merkle_root_from_leaves E ?next"
    by (rule Suc.IH [OF len j])
  moreover have "1 < length leaves" using Suc.prems(1) one_le_power [of "2 :: nat" d] by (simp only: power_Suc) linarith
  then have "merkle_root_from_leaves E leaves = merkle_root_from_leaves E ?next"
    by (subst merkle_root_from_leaves.simps) simp
  ultimately show ?case by (simp add: step)
qed

section \<open>The life of a key\<close>

text \<open>What FIPS 204 promises of the crate: fixed sizes, and that a signature verifies.\<close>

definition mldsa_ok :: "'z crypto_env_scheme \<Rightarrow> mldsa_signer \<Rightarrow> bool" where
  "mldsa_ok E G \<longleftrightarrow> (\<forall>level seed msg. case mldsa_keygen G level seed of (pk, sk) \<Rightarrow>
     length pk = mldsa_pk_len E level \<and> length sk = mldsa_sk_len G level \<and>
     length (mldsa_sign G level sk msg) = mldsa_sig_len E level \<and> mldsa_sign G level sk msg \<noteq> [] \<and>
     mldsa_verify E level pk msg (mldsa_sign G level sk msg))"

definition period_pk :: "'z crypto_env_scheme \<Rightarrow> mldsa_signer \<Rightarrow> bytes \<Rightarrow> nat \<Rightarrow> bytes" where
  "period_pk E G ms p = fst (mldsa_keygen G KES_LEAF_LEVEL (derive_leaf_seed E ms (of_nat p)))"

lemma from_seed_ok:
  assumes "mldsa_ok E G" and "mldsa_keygen G level seed = (pk, sk)"
  shows "from_seed_pqc E G level seed =
    Inr \<lparr>kp_public = \<lparr>pk_level = level, pk_bytes = pk\<rparr>, kp_secret = \<lparr>sk_level = level, sk_bytes = sk\<rparr>\<rparr>"
    and "sign_pqc E G \<lparr>sk_level = level, sk_bytes = sk\<rparr> msg =
      Inr \<lparr>sig_level = level, sig_bytes = mldsa_sign G level sk msg\<rparr>"
    and "verify_pqc E \<lparr>pk_level = level, pk_bytes = pk\<rparr> msg
      \<lparr>sig_level = level, sig_bytes = mldsa_sign G level sk msg\<rparr> = Inr True"
    and "pqc_public_key_from_bytes E level pk = Inr \<lparr>pk_level = level, pk_bytes = pk\<rparr>"
    and "pqc_signature_from_bytes E level (mldsa_sign G level sk msg) =
      Inr \<lparr>sig_level = level, sig_bytes = mldsa_sign G level sk msg\<rparr>"
proof -
  have ok: "length pk = mldsa_pk_len E level" "length sk = mldsa_sk_len G level"
    "length (mldsa_sign G level sk m) = mldsa_sig_len E level" "mldsa_sign G level sk m \<noteq> []"
    "mldsa_verify E level pk m (mldsa_sign G level sk m)" for m
    using assms(1) [unfolded mldsa_ok_def, rule_format, of level m seed] assms(2) by simp_all
  then show "from_seed_pqc E G level seed =
      Inr \<lparr>kp_public = \<lparr>pk_level = level, pk_bytes = pk\<rparr>, kp_secret = \<lparr>sk_level = level, sk_bytes = sk\<rparr>\<rparr>"
    "sign_pqc E G \<lparr>sk_level = level, sk_bytes = sk\<rparr> msg =
      Inr \<lparr>sig_level = level, sig_bytes = mldsa_sign G level sk msg\<rparr>"
    "verify_pqc E \<lparr>pk_level = level, pk_bytes = pk\<rparr> msg
      \<lparr>sig_level = level, sig_bytes = mldsa_sign G level sk msg\<rparr> = Inr True"
    "pqc_public_key_from_bytes E level pk = Inr \<lparr>pk_level = level, pk_bytes = pk\<rparr>"
    "pqc_signature_from_bytes E level (mldsa_sign G level sk msg) =
      Inr \<lparr>sig_level = level, sig_bytes = mldsa_sign G level sk msg\<rparr>"
    by (simp_all add: assms(2) from_seed_pqc_def sign_pqc_def sign_level_def pqc_public_key_from_bytes_def
        pqc_secret_key_from_bytes_def pqc_signature_from_bytes_def verify_pqc_True)
qed

lemma kes_leaves_ok:
  assumes "mldsa_ok E G"
  shows "kes_leaves E G ms (map of_nat ps) =
    Inr (map (\<lambda>p. derive_leaf_seed E ms (of_nat p)) ps, map (\<lambda>p. leaf_pk_hash E (period_pk E G ms p)) ps)"
proof (induction ps)
  case (Cons p ps)
  obtain pk sk where k: "mldsa_keygen G KES_LEAF_LEVEL (derive_leaf_seed E ms (of_nat p)) = (pk, sk)"
    by (cases "mldsa_keygen G KES_LEAF_LEVEL (derive_leaf_seed E ms (of_nat p))")
  show ?case by (simp add: Let_def Cons from_seed_ok(1) [OF assms k] period_pk_def k)
qed simp

lemma unat_KES_TOTAL: "unat KES_TOTAL_PERIODS = 2048"
  by (simp add: KES_TOTAL_PERIODS_def KES_TREE_DEPTH_def)

lemma kes_generate_ok:
  assumes "mldsa_ok E G" and hs_def: "hs = map (\<lambda>p. leaf_pk_hash E (period_pk E G ms p)) [0..<2048]"
  shows "kes_generate E G ms = Inr (merkle_root_from_leaves E hs,
    \<lparr>ks_period = 0, leaf_seeds = map (\<lambda>p. derive_leaf_seed E ms (of_nat p)) [0..<2048], leaf_pk_hashes = hs\<rparr>)"
  by (simp add: kes_generate_def unat_KES_TOTAL kes_leaves_ok [OF assms(1)] hs_def)

text \<open>The key after a number of periods.\<close>

definition evolved :: "nat \<Rightarrow> kes_secret_key \<Rightarrow> kes_secret_key" where
  "evolved n = (\<lambda>sk. snd (kes_evolve sk)) ^^ n"

lemma evolved_state:
  assumes "ks_period sk = 0" and "length (leaf_seeds sk) = 2048" and "n \<le> 2048"
  shows "evolved n sk = sk\<lparr>ks_period := of_nat n, leaf_seeds := replicate n (replicate 32 0) @ drop n (leaf_seeds sk)\<rparr>"
  using assms(3)
proof (induction n)
  case 0
  then show ?case using assms by (simp add: evolved_def)
next
  case (Suc n)
  have u: "unat (of_nat n :: u32) = n" using Suc.prems by (intro unat_of_nat_small) simp
  have "replicate n z @ z # drop (Suc n) xs = replicate (Suc n) z @ drop (Suc n) xs" for z and xs :: "bytes list"
    by (simp add: replicate_app_Cons_same)
  then show ?case
    using Suc assms(2) u
    by (simp add: evolved_def kes_evolve_def is_exhausted_def word_le_nat_alt unat_KES_TOTAL list_update_append
        drop_update_swap Cons_nth_drop_Suc [symmetric] add.commute)
qed

lemma kes_sign_verifies:
  assumes ok: "mldsa_ok E G" and n: "n < 2048" and gen: "kes_generate E G ms = Inr (pk, sk)"
  obtains sg where "kes_sign E G (evolved n sk) msg = Inr sg" and "kg_period sg = of_nat n"
    and "kes_verify E pk sg msg = Inr True"
    and "kg_merkle_path sg = merkle_path_for E (leaf_pk_hashes sk) n KES_TREE_DEPTH"
proof -
  define hs where "hs = map (\<lambda>p. leaf_pk_hash E (period_pk E G ms p)) [0..<2048]"
  have pk: "pk = merkle_root_from_leaves E hs" and sk: "sk = \<lparr>ks_period = 0,
      leaf_seeds = map (\<lambda>p. derive_leaf_seed E ms (of_nat p)) [0..<2048], leaf_pk_hashes = hs\<rparr>"
    using gen kes_generate_ok [OF ok hs_def] by simp_all
  have u: "unat (of_nat n :: u32) = n" using n by (intro unat_of_nat_small) simp
  have ev: "evolved n sk = sk\<lparr>ks_period := of_nat n,
      leaf_seeds := replicate n (replicate 32 0) @ drop n (leaf_seeds sk)\<rparr>"
    by (rule evolved_state) (use n in \<open>simp_all add: sk\<close>)
  let ?seed = "derive_leaf_seed E ms (of_nat n)"
  obtain lpk lsk where k: "mldsa_keygen G KES_LEAF_LEVEL ?seed = (lpk, lsk)"
    by (cases "mldsa_keygen G KES_LEAF_LEVEL ?seed")
  define sg where "sg = \<lparr>kg_period = of_nat n, kg_leaf_pk = lpk,
    kg_leaf_signature = mldsa_sign G KES_LEAF_LEVEL lsk (period_bound_message (of_nat n) msg),
    kg_merkle_path = merkle_path_for E hs n KES_TREE_DEPTH\<rparr>"
  have "kes_sign E G (evolved n sk) msg = Inr sg"
    using n unfolding kes_sign_def ev
    by (simp add: sk is_exhausted_def word_le_nat_alt u unat_KES_TOTAL Let_def nth_append
        from_seed_ok [OF ok k] sg_def)
  moreover have "length (merkle_path_for E hs n d) = d" for d
    by (induction d arbitrary: n hs) simp_all
  moreover have "merkle_root_from_path E (hs ! n) n (merkle_path_for E hs n KES_TREE_DEPTH) = pk"
    unfolding pk by (rule path_root) (use n in \<open>simp_all add: hs_def KES_TREE_DEPTH_def\<close>)
  moreover have "hs ! n = leaf_pk_hash E lpk" using n by (simp add: hs_def period_pk_def k)
  ultimately show thesis
    using n from_seed_ok(3-5) [OF ok k]
    by (intro that [of sg]) (simp_all add: kes_verify_def sg_def word_le_nat_alt u unat_KES_TOTAL sk)
qed

text \<open>
  C21. A key signs in every period, and the signatures verify. From any master seed a key is
  generated; evolved to any of its 2048 periods it signs every message, the signature carries that
  period and verifies against the root published at generation, and after the last period signing
  fails.
\<close>

theorem kes_lifecycle:
  assumes ok: "mldsa_ok E G"
  shows "\<exists>pk sk. kes_generate E G ms = Inr (pk, sk) \<and>
    (\<forall>n < 2048. \<forall>msg. \<exists>sg. kes_sign E G (evolved n sk) msg = Inr sg \<and> kg_period sg = of_nat n \<and>
       kes_verify E pk sg msg = Inr True) \<and>
    (\<forall>msg. \<exists>e. kes_sign E G (evolved 2048 sk) msg = Inl e)"
proof -
  obtain pk sk where gen: "kes_generate E G ms = Inr (pk, sk)" and sk: "ks_period sk = 0" "length (leaf_seeds sk) = 2048"
    using kes_generate_ok [OF ok refl, of ms] by auto
  have "\<exists>e. kes_sign E G (evolved 2048 sk) msg = Inl e" for msg
    unfolding kes_sign_def evolved_state [OF sk order_refl]
    by (simp add: is_exhausted_def word_le_nat_alt unat_KES_TOTAL)
  moreover have "\<exists>sg. kes_sign E G (evolved n sk) msg = Inr sg \<and> kg_period sg = of_nat n \<and>
      kes_verify E pk sg msg = Inr True" if "n < 2048" for n msg
    by (rule kes_sign_verifies [OF ok that gen]) blast
  ultimately show ?thesis using gen by blast
qed

text \<open>
  Evolving erases. After any number of evolutions the seeds of all earlier periods are
  overwritten with zeros, the seeds of the current and later periods and the public tree are as
  generated, and evolution stops at the last period without changing the key.
\<close>

theorem kes_evolve_erases:
  assumes "mldsa_ok E G" and "kes_generate E G ms = Inr (pk, sk)"
  shows "leaf_seeds (evolved n sk) =
      replicate (min n 2048) (replicate 32 0) @ drop n (map (\<lambda>p. derive_leaf_seed E ms (of_nat p)) [0..<2048]) \<and>
    leaf_pk_hashes (evolved n sk) = leaf_pk_hashes sk \<and> ks_period (evolved n sk) = of_nat (min n 2048)"
proof -
  have sk: "ks_period sk = 0" "leaf_seeds sk = map (\<lambda>p. derive_leaf_seed E ms (of_nat p)) [0..<2048]"
    using assms kes_generate_ok [OF assms(1) refl, of ms] by auto
  have stay: "evolved m (evolved 2048 sk) = evolved 2048 sk" for m
  proof (induction m)
    case (Suc m)
    have "snd (kes_evolve (evolved 2048 sk)) = evolved 2048 sk"
      using evolved_state [of sk 2048] sk
      by (simp add: kes_evolve_def is_exhausted_def word_le_nat_alt unat_KES_TOTAL)
    then show ?case using Suc by (simp add: evolved_def)
  qed (simp add: evolved_def)
  show ?thesis
  proof (cases "n \<le> 2048")
    case True
    then show ?thesis using evolved_state [of sk n] sk by simp
  next
    case False
    then have "evolved n sk = evolved 2048 sk"
      using stay [of "n - 2048"] by (simp add: evolved_def flip: funpow_add comp_apply [of "_ ^^ _"])
    then show ?thesis using False evolved_state [of sk 2048] sk by simp
  qed
qed

section \<open>A signature is bound to its period's key\<close>

text \<open>The strings a verifier hashes on its way from a leaf key to the root.\<close>

primrec path_strings :: "'z crypto_env_scheme \<Rightarrow> bytes \<Rightarrow> nat \<Rightarrow> bytes list \<Rightarrow> bytes list" where
  "path_strings E cur i [] = []"
| "path_strings E cur i (s # p) =
     (KES_MERKLE_TAG @ [0x01] @ (if even i then cur @ s else s @ cur)) #
     path_strings E (if even i then internal_node_hash E cur s else internal_node_hash E s cur) (i div 2) p"

definition walk_strings :: "'z crypto_env_scheme \<Rightarrow> bytes \<Rightarrow> nat \<Rightarrow> bytes list \<Rightarrow> bytes list" where
  "walk_strings E pk i path = (KES_MERKLE_TAG @ [0x00] @ pk) # path_strings E (leaf_pk_hash E pk) i path"

definition collide :: "'z crypto_env_scheme \<Rightarrow> bytes list \<Rightarrow> bytes list \<Rightarrow> bool" where
  "collide E xs ys \<longleftrightarrow> (\<exists>x \<in> set xs. \<exists>y \<in> set ys. x \<noteq> y \<and> sha3_256 E x = sha3_256 E y)"

lemma collide_Cons: "collide E xs ys \<Longrightarrow> collide E (x # xs) (y # ys)"
  by (auto simp: collide_def)

lemma path_binding:
  assumes "length p = length q" and "length a = 32" and "length b = 32"
    and "\<forall>s \<in> set p \<union> set q. length s = 32" and sha: "\<And>x. length (sha3_256 E x) = 32"
    and "merkle_root_from_path E a i p = merkle_root_from_path E b i q"
  shows "a = b \<or> collide E (path_strings E a i p) (path_strings E b i q)"
  using assms(1-4,6)
proof (induction p arbitrary: q a b i)
  case (Cons s p)
  then obtain t q' where q: "q = t # q'" by (cases q) auto
  let ?a = "if even i then internal_node_hash E a s else internal_node_hash E s a"
    and ?b = "if even i then internal_node_hash E b t else internal_node_hash E t b"
  have "?a = ?b \<or> collide E (path_strings E ?a (i div 2) p) (path_strings E ?b (i div 2) q')"
    using Cons.prems sha by (intro Cons.IH) (auto simp: q internal_node_hash_def)
  then show ?case
  proof
    assume "?a = ?b"
    moreover have "length s = 32" "length t = 32" using Cons.prems(4) by (auto simp: q)
    ultimately show ?thesis
      using Cons.prems(2,3) by (auto simp: q internal_node_hash_def collide_def split: if_splits)
  next
    assume "collide E (path_strings E ?a (i div 2) p) (path_strings E ?b (i div 2) q')"
    then show ?thesis by (simp add: q collide_Cons)
  qed
qed simp

lemma kes_verify_True:
  assumes "kes_verify E pk sg msg = Inr True"
  shows "unat (kg_period sg) < 2048 \<and> length (kg_merkle_path sg) = 11 \<and>
    mldsa_verify E KES_LEAF_LEVEL (kg_leaf_pk sg) (period_bound_message (kg_period sg) msg) (kg_leaf_signature sg) \<and>
    merkle_root_from_path E (leaf_pk_hash E (kg_leaf_pk sg)) (unat (kg_period sg)) (kg_merkle_path sg) = pk"
proof -
  have "\<not> KES_TOTAL_PERIODS \<le> kg_period sg" "length (kg_merkle_path sg) = KES_TREE_DEPTH"
    using assms by (auto simp: kes_verify_def split: if_splits)
  moreover obtain lpk lsg where "pqc_public_key_from_bytes E KES_LEAF_LEVEL (kg_leaf_pk sg) = Inr lpk"
    "pqc_signature_from_bytes E KES_LEAF_LEVEL (kg_leaf_signature sg) = Inr lsg"
    "verify_pqc E lpk (period_bound_message (kg_period sg) msg) lsg = Inr True"
    "merkle_root_from_path E (leaf_pk_hash E (kg_leaf_pk sg)) (unat (kg_period sg)) (kg_merkle_path sg) = pk"
    using assms by (auto simp: kes_verify_def res_simps split: if_splits)
  ultimately show ?thesis
    by (auto simp: word_le_nat_alt unat_KES_TOTAL KES_TREE_DEPTH_def verify_pqc_True pqc_public_key_from_bytes_def
        pqc_signature_from_bytes_def split: if_splits)
qed

lemma path_for_wf:
  assumes sha: "\<And>x. length (sha3_256 E x) = 32"
  shows "\<forall>s \<in> set layer. length s = 32 \<Longrightarrow> \<forall>s \<in> set (merkle_path_for E layer i d). length s = 32"
    and "length (merkle_path_for E layer i d) = d"
proof (induction d arbitrary: layer i)
  case (Suc d)
  {
    case 1
    have "\<forall>s \<in> set (kes_next_layer E xs). length s = 32" for xs
      by (induction xs rule: induct_list012) (auto simp: internal_node_hash_def sha)
    with Suc.IH(1) [of "kes_next_layer E layer" "i div 2"] 1 show ?case by (auto simp: get_or_zero_def)
  next
    case 2
    show ?case using Suc.IH(2) by simp
  }
qed simp_all

text \<open>
  C22. A signature is bound to the key of its period. When a key-evolving signature verifies
  against a generated root, its ML-DSA part verifies over the period and the message, under the
  leaf key generated for exactly that period, or the verifier's walk to the root exhibits a SHA3
  collision with the honest one.
\<close>

theorem kes_signature_bound:
  assumes ok: "mldsa_ok E G" and gen: "kes_generate E G ms = Inr (pk, sk)"
    and sha: "\<And>x. length (sha3_256 E x) = 32" and wf: "\<forall>s \<in> set (kg_merkle_path sg). length s = 32"
    and ver: "kes_verify E pk sg msg = Inr True"
  shows "mldsa_verify E KES_LEAF_LEVEL (kg_leaf_pk sg) (period_bound_message (kg_period sg) msg) (kg_leaf_signature sg) \<and>
    (kg_leaf_pk sg = period_pk E G ms (unat (kg_period sg)) \<or>
     collide E (walk_strings E (kg_leaf_pk sg) (unat (kg_period sg)) (kg_merkle_path sg))
       (walk_strings E (period_pk E G ms (unat (kg_period sg))) (unat (kg_period sg))
         (merkle_path_for E (leaf_pk_hashes sk) (unat (kg_period sg)) 11)))"
proof -
  let ?i = "unat (kg_period sg)" and ?lpk = "period_pk E G ms (unat (kg_period sg))"
  define hs where "hs = map (\<lambda>p. leaf_pk_hash E (period_pk E G ms p)) [0..<2048]"
  have pk: "pk = merkle_root_from_leaves E hs" and hs: "leaf_pk_hashes sk = hs"
    using gen kes_generate_ok [OF ok hs_def] by auto
  note v = kes_verify_True [OF ver]
  have wf': "\<forall>s \<in> set hs. length s = 32" by (auto simp: hs_def leaf_pk_hash_def sha)
  have "merkle_root_from_path E (hs ! ?i) ?i (merkle_path_for E hs ?i 11) = pk"
    unfolding pk by (rule path_root) (use v in \<open>simp_all add: hs_def\<close>)
  then have "merkle_root_from_path E (leaf_pk_hash E (kg_leaf_pk sg)) ?i (kg_merkle_path sg) =
      merkle_root_from_path E (leaf_pk_hash E ?lpk) ?i (merkle_path_for E hs ?i 11)"
    using v by (simp add: hs_def)
  then have "leaf_pk_hash E (kg_leaf_pk sg) = leaf_pk_hash E ?lpk \<or>
      collide E (path_strings E (leaf_pk_hash E (kg_leaf_pk sg)) ?i (kg_merkle_path sg))
        (path_strings E (leaf_pk_hash E ?lpk) ?i (merkle_path_for E hs ?i 11))"
    using v wf path_for_wf [where E = E, OF sha] wf'
    by (intro path_binding sha) (auto simp: leaf_pk_hash_def sha)
  then show ?thesis
    using v by (auto simp: hs walk_strings_def intro: collide_Cons) (auto simp: collide_def leaf_pk_hash_def)
qed

section \<open>Instances\<close>

definition demo_signer :: mldsa_signer where
  "demo_signer = \<lparr>mldsa_sk_len = (\<lambda>_. 2),
     mldsa_keygen = (\<lambda>_ seed. let b = (case seed of [] \<Rightarrow> 0 | x # _ \<Rightarrow> x) in ([b, b], [b, b])),
     mldsa_sign = (\<lambda>_ sk _. sk)\<rparr>"

lemma demo_signer_ok: "mldsa_ok demo_env demo_signer"
  by (simp add: mldsa_ok_def demo_signer_def demo_env_def Let_def)

theorem kes_lifecycle_witness:
  "\<exists>pk sk sg. kes_generate demo_env demo_signer [1] = Inr (pk, sk) \<and>
     kes_sign demo_env demo_signer (evolved 5 sk) [9] = Inr sg \<and> kes_verify demo_env pk sg [9] = Inr True"
proof -
  have "(5 :: nat) < 2048" by simp
  with kes_lifecycle [OF demo_signer_ok, of "[1]"] show ?thesis by blast
qed

theorem kes_evolve_erases_witness:
  "\<exists>pk sk. kes_generate demo_env demo_signer [1] = Inr (pk, sk) \<and>
     take 5 (leaf_seeds (evolved 5 sk)) = replicate 5 (replicate 32 0)"
proof -
  obtain pk sk where gen: "kes_generate demo_env demo_signer [1] = Inr (pk, sk)"
    using kes_generate_ok [OF demo_signer_ok refl, of "[1]"] by blast
  from kes_evolve_erases [OF demo_signer_ok gen, of 5] show ?thesis using gen by simp
qed

theorem kes_signature_bound_witness:
  "\<exists>sg lpk. kes_verify demo_env lpk sg [9] = Inr True \<and>
     mldsa_verify demo_env KES_LEAF_LEVEL (kg_leaf_pk sg) (period_bound_message 3 [9]) (kg_leaf_signature sg)"
proof -
  obtain pk sk where gen: "kes_generate demo_env demo_signer [1] = Inr (pk, sk)"
    using kes_generate_ok [OF demo_signer_ok refl, of "[1]"] by blast
  have sha: "length (sha3_256 demo_env x) = 32" for x by (simp add: demo_env_def)
  have hs: "\<forall>s \<in> set (leaf_pk_hashes sk). length s = 32"
    using gen kes_generate_ok [OF demo_signer_ok refl, of "[1]"] sha by (auto simp: leaf_pk_hash_def)
  obtain sg where sg: "kg_period sg = of_nat 3" "kes_verify demo_env pk sg [9] = Inr True"
    and path: "kg_merkle_path sg = merkle_path_for demo_env (leaf_pk_hashes sk) 3 KES_TREE_DEPTH"
    by (rule kes_sign_verifies [OF demo_signer_ok _ gen, of 3 "[9]"]) auto
  have "\<forall>s \<in> set (kg_merkle_path sg). length s = 32"
    unfolding path by (rule path_for_wf(1) [where E = demo_env, OF sha hs])
  from kes_signature_bound [OF demo_signer_ok gen sha this sg(2)] show ?thesis using sg by auto
qed

end
