(* ===== verification/QV_Field.thy ===== *)
theory QV_Field
  imports QV_Prelude
begin

text \<open>
  The field arithmetic of \<open>qv-crypto/src/threshold.rs\<close>: 256-bit numbers as four 64-bit limbs, most
  significant first, modulo \<open>2^256 - 189\<close>. The loops over the limbs run from the last limb to
  the first with a carry, so they are recursions that return the carry of the tail. The results are
  compared with arithmetic on natural numbers: no intermediate sum overflows its width.
\<close>

unbundle bit_operations_syntax

section \<open>Limbs\<close>

type_synonym limbs = "u64 list"

definition field_P :: bytes where "field_P = (replicate 32 0xFF)[31 := 0x43]"

definition be_word :: "bytes \<Rightarrow> u64" where
  "be_word bs = of_nat (le_val (rev bs))"

definition to_limbs :: "bytes \<Rightarrow> limbs" where
  "to_limbs a = [be_word (take 8 a), be_word (take 8 (drop 8 a)), be_word (take 8 (drop 16 a)),
     be_word (take 8 (drop 24 a))]"

definition from_limbs :: "limbs \<Rightarrow> bytes" where
  "from_limbs l = concat (map (\<lambda>w. rev (le_bytes 8 (unat w))) l)"

definition p_limbs :: limbs where "p_limbs = to_limbs field_P"

fun gte :: "limbs \<Rightarrow> limbs \<Rightarrow> bool" where
  "gte (a # as) (b # bs) = (if b < a then True else if a < b then False else gte as bs)"
| "gte _ _ = True"

fun add_limbs :: "limbs \<Rightarrow> limbs \<Rightarrow> limbs \<times> u64" where
  "add_limbs (a # as) (b # bs) =
     (let (out, carry) = add_limbs as bs; sum = (ucast a :: u128) + ucast b + ucast carry
      in (ucast sum # out, ucast (drop_bit 64 sum)))"
| "add_limbs _ _ = ([], 0)"

definition add_raw :: "limbs \<Rightarrow> limbs \<Rightarrow> limbs \<times> bool" where
  "add_raw a b = (let (out, carry) = add_limbs a b in (out, carry \<noteq> 0))"

text \<open>The differences are 128-bit signed and stay within 65 bits.\<close>

fun sub_limbs :: "limbs \<Rightarrow> limbs \<Rightarrow> limbs \<times> int" where
  "sub_limbs (a # as) (b # bs) =
     (let (out, borrow) = sub_limbs as bs; diff = uint a - uint b - borrow
      in if diff < 0 then (word_of_int (diff + 2 ^ 64) # out, 1) else (word_of_int diff # out, 0))"
| "sub_limbs _ _ = ([], 0)"

definition sub_raw :: "limbs \<Rightarrow> limbs \<Rightarrow> limbs \<times> bool" where
  "sub_raw a b = (let (out, borrow) = sub_limbs a b in (out, borrow \<noteq> 0))"

definition reduce :: "limbs \<Rightarrow> limbs" where
  "reduce a = (if gte a p_limbs then fst (sub_raw a p_limbs) else a)"

section \<open>The public interface\<close>

definition f_zero :: bytes where "f_zero = replicate 32 0"

definition f_from_u32 :: "u32 \<Rightarrow> bytes" where
  "f_from_u32 v = replicate 28 0 @ rev (le_bytes 4 (unat v))"

definition f_add :: "bytes \<Rightarrow> bytes \<Rightarrow> bytes" where
  "f_add a b =
     (let (sum, carry) = add_raw (to_limbs a) (to_limbs b)
      in if carry then from_limbs (fst (sub_raw sum p_limbs)) else from_limbs (reduce sum))"

definition f_sub :: "bytes \<Rightarrow> bytes \<Rightarrow> bytes" where
  "f_sub a b =
     (let (diff, borrow) = sub_raw (to_limbs a) (to_limbs b)
      in if borrow then from_limbs (fst (add_raw diff p_limbs)) else from_limbs diff)"

text \<open>The schoolbook product into eight 128-bit accumulators, and their carries.\<close>

definition mul_step :: "limbs \<Rightarrow> limbs \<Rightarrow> nat \<times> nat \<Rightarrow> u128 list \<Rightarrow> u128 list" where
  "mul_step la lb = (\<lambda>(i, j) prod.
     let p_ij = ucast (la ! i) * ucast (lb ! j); k = i + j;
         prod = prod[k := prod ! k + drop_bit 64 p_ij]
     in if k + 1 < 8 then prod[k + 1 := prod ! (k + 1) + (p_ij AND mask 64)] else prod)"

definition mul_raw :: "limbs \<Rightarrow> limbs \<Rightarrow> u128 list" where
  "mul_raw la lb = fold (mul_step la lb) (List.product [3, 2, 1, 0] [3, 2, 1, 0]) (replicate 8 0)"

fun propagate :: "u128 list \<Rightarrow> u128 list \<times> u128" where
  "propagate [] = ([], 0)"
| "propagate (x # xs) = (let (ys, c) = propagate xs; x = x + c in ((x AND mask 64) # ys, drop_bit 64 x))"

fun mul_189 :: "limbs \<Rightarrow> limbs \<times> u128" where
  "mul_189 [] = ([], 0)"
| "mul_189 (x # xs) =
     (let (out, carry) = mul_189 xs; v = (ucast x :: u128) * 189 + carry in (ucast v # out, drop_bit 64 v))"

text \<open>\<open>x_lo + 189 * x_hi\<close> as an overflow limb and four limbs.\<close>

definition fold_high :: "limbs \<Rightarrow> limbs \<Rightarrow> u64 \<times> limbs" where
  "fold_high x_hi x_lo =
     (let (correction, carry) = mul_189 x_hi; (low, c2) = add_limbs x_lo correction
      in (ucast ((ucast (ucast carry :: u64) :: u128) + ucast c2), low))"

definition fold_overflow :: "u64 \<Rightarrow> limbs \<Rightarrow> limbs" where
  "fold_overflow overflow l =
     (if 0 < overflow
      then let extra = (ucast overflow :: u128) * 189;
               (added, carry) = add_raw l [0, 0, ucast (drop_bit 64 extra), ucast extra]
        in if carry then fst (sub_raw added p_limbs) else added
      else l)"

definition f_mul :: "bytes \<Rightarrow> bytes \<Rightarrow> bytes" where
  "f_mul a b =
     (let prod = fst (propagate (mul_raw (to_limbs a) (to_limbs b)));
          (overflow, l) = fold_high (map ucast (take 4 prod)) (map ucast (drop 4 prod))
      in from_limbs (reduce (fold_overflow overflow l)))"

definition pow_bit :: "u8 \<Rightarrow> nat \<Rightarrow> bytes \<times> bytes \<Rightarrow> bytes \<times> bytes" where
  "pow_bit e k = (\<lambda>(result, b). (if bit e k then f_mul result b else result, f_mul b b))"

definition f_pow :: "bytes \<Rightarrow> bytes \<Rightarrow> bytes" where
  "f_pow base ex =
     fst (fold (\<lambda>e rb. fold (pow_bit e) [0..<8] rb) (rev ex) (f_from_u32 1, base))"

definition f_inv :: "bytes \<Rightarrow> bytes" where
  "f_inv a = f_pow a (field_P[31 := 0x41])"

definition reduce_bytes :: "bytes \<Rightarrow> bytes" where
  "reduce_bytes a = from_limbs (reduce (to_limbs a))"

section \<open>Values\<close>

definition limb_base :: nat where "limb_base = 2 ^ 64"

lemma B_gt: "0 < limb_base" "1 < limb_base"
  by (simp_all add: limb_base_def)

primrec lval :: "'a::len word list \<Rightarrow> nat" where
  "lval [] = 0"
| "lval (x # xs) = unat x * limb_base ^ length xs + lval xs"

definition fval :: "bytes \<Rightarrow> nat" where "fval a = le_val (rev a)"

definition field_prime :: nat where "field_prime = 2 ^ 256 - 189"

lemma unat_low: "unat (ucast (x :: u128) :: u64) = unat x mod limb_base"
  by (simp add: unsigned_ucast_eq take_bit_eq_mod limb_base_def)

lemma unat_high: "unat (drop_bit 64 (x :: u128)) = unat x div limb_base"
  by (simp add: drop_bit_eq_div unat_div limb_base_def)

lemma unat_mask64: "unat (x AND mask 64 :: u128) = unat x mod limb_base"
  by (simp add: take_bit_eq_mod unat_mod limb_base_def flip: take_bit_eq_mask)

lemma lval_append: "lval (xs @ ys) = lval xs * limb_base ^ length ys + lval ys"
  by (induction xs) (simp_all add: power_add algebra_simps)

lemma lval_bound: "(\<And>x. x \<in> set xs \<Longrightarrow> unat x < limb_base) \<Longrightarrow> lval xs < limb_base ^ length xs"
proof (induction xs)
  case (Cons x xs)
  have "lval (x # xs) < (unat x + 1) * limb_base ^ length xs" using Cons by simp
  also have "\<dots> \<le> limb_base * limb_base ^ length xs" using Cons.prems [of x] by (intro mult_right_mono) simp_all
  finally show ?case by simp
qed simp

lemma limbs_bound: "lval (xs :: limbs) < limb_base ^ length xs"
  using unat_bound [where 'a = 64] by (intro lval_bound) (simp add: limb_base_def)

lemma le_val_append: "le_val (xs @ ys) = le_val xs + 256 ^ length xs * le_val ys"
  by (induction xs) (simp_all add: algebra_simps)

lemma fval_append: "fval (xs @ ys) = fval xs * 256 ^ length ys + fval ys"
  by (simp add: fval_def le_val_append)

lemma fval_bound: "fval a < 256 ^ length a"
  using le_val_bound [of "rev a"] by (simp add: fval_def)

lemma be_word_val: "length bs = 8 \<Longrightarrow> unat (be_word bs) = fval bs"
  using fval_bound [of bs] by (simp add: be_word_def fval_def unat_of_nat_small)

lemma take_then_drop_8: "take 8 (drop k bs) @ drop (k + 8) bs = drop k bs"
  by (metis append_take_drop_id drop_drop add.commute)

lemma lval_to_limbs:
  assumes "length a = 32"
  shows "lval (to_limbs a) = fval a" and "length (to_limbs a) = 4"
proof -
  define w where "w k = take 8 (drop k a)" for k
  have len: "k \<le> 24 \<Longrightarrow> length (w k) = 8" for k using assms by (simp add: w_def)
  have "drop k a = w k @ drop (k + 8) a" for k by (simp add: w_def take_then_drop_8)
  from this [of 0] this [of 8] this [of 16] this [of 24]
  have parts: "a = w 0 @ w 8 @ w 16 @ w 24" using assms by simp
  have "fval a = ((fval (w 0) * limb_base + fval (w 8)) * limb_base + fval (w 16)) * limb_base + fval (w 24)"
    by (subst parts) (simp add: fval_append len limb_base_def)
  moreover have "lval (to_limbs a) = ((fval (w 0) * limb_base + fval (w 8)) * limb_base + fval (w 16)) * limb_base + fval (w 24)"
    using len [of 0] len [of 8] len [of 16] len [of 24]
    by (simp add: to_limbs_def be_word_val w_def power3_eq_cube power2_eq_square distrib_right mult.assoc)
  ultimately show "lval (to_limbs a) = fval a" by simp
  show "length (to_limbs a) = 4" by (simp add: to_limbs_def)
qed

lemma fval_from_limbs: "fval (from_limbs l) = lval l" "length (from_limbs l) = 8 * length l"
proof (induction l)
  case (Cons w l)
  have "fval (rev (le_bytes 8 (unat w))) = unat w"
    using unat_bound [of w] by (simp add: fval_def le_val_le_bytes)
  then show "fval (from_limbs (w # l)) = lval (w # l)" "length (from_limbs (w # l)) = 8 * length (w # l)"
    using Cons by (simp_all add: from_limbs_def fval_append limb_base_def power_mult)
qed (simp_all add: from_limbs_def fval_def)

lemma le_val_ff: "le_val (replicate n 0xFF) + 1 = 256 ^ n"
  by (induction n) simp_all

lemma field_P_bytes: "field_P[31 := x] = replicate 31 0xFF @ [x]" "field_P = replicate 31 0xFF @ [0x43]"
proof -
  have "replicate 32 z = replicate 31 z @ [z]" for z :: u8
    using replicate_append_same [of 31 z] by (simp add: numeral_eq_Suc)
  then have "(replicate 32 z)[31 := y] = replicate 31 z @ [y]" for y z :: u8 by (simp add: list_update_append)
  then show "field_P[31 := x] = replicate 31 0xFF @ [x]" "field_P = replicate 31 0xFF @ [0x43]"
    by (simp_all add: field_P_def list_update_append)
qed

lemma field_P_val: "fval (replicate 31 0xFF @ [x]) = 2 ^ 256 - 256 + unat x"
proof -
  have "le_val (replicate 31 0xFF) = 256 ^ 31 - 1" using le_val_ff [of 31] by linarith
  then show ?thesis by (simp add: fval_def)
qed

lemma p_limbs_val: "lval p_limbs = field_prime" "length p_limbs = 4"
  using lval_to_limbs [of field_P] field_P_val [of "0x43"] by (simp_all add: p_limbs_def field_P_bytes field_prime_def)

section \<open>Carries and borrows\<close>

lemma add_limbs_val:
  "length a = length b \<Longrightarrow> add_limbs a b = (out, c) \<Longrightarrow>
     lval out + unat c * limb_base ^ length a = lval a + lval b \<and> length out = length a \<and> unat c \<le> 1"
proof (induction a b arbitrary: out c rule: add_limbs.induct)
  case (1 a as b bs)
  obtain o' c' where rec: "add_limbs as bs = (o', c')" by (cases "add_limbs as bs")
  have IH: "lval o' + unat c' * limb_base ^ length as = lval as + lval bs" "length o' = length as" "unat c' \<le> 1"
    using "1.IH" [OF _ rec] "1.prems"(1) by auto
  define s where "s = (ucast a :: u128) + ucast b + ucast c'"
  have s: "unat s = unat a + unat b + unat c'"
    using unat_bound [of a] unat_bound [of b] IH(3) by (simp add: s_def unat_add_small)
  have o: "out = ucast s # o'" "c = ucast (drop_bit 64 s)" using "1.prems"(2) rec by (simp_all add: s_def Let_def)
  have "unat s < 2 * limb_base" using s unat_bound [of a] unat_bound [of b] IH(3) by (simp add: limb_base_def)
  then have q: "unat s div limb_base \<le> 1" using B_gt by (simp add: div_less_iff_less_mult less_Suc_eq_le [symmetric])
  then have c: "unat c = unat s div limb_base" using B_gt by (simp add: o unat_low unat_high)
  define X where "X = limb_base ^ length bs"
  have "unat s mod limb_base * X + unat s div limb_base * (limb_base * X) = (unat s mod limb_base + unat s div limb_base * limb_base) * X"
    by (simp only: distrib_right mult.assoc)
  then have "unat s mod limb_base * X + unat s div limb_base * (limb_base * X) = unat a * X + unat b * X + unat c' * X"
    using s by (simp add: distrib_right)
  then show ?case
    using IH(1,2) c q "1.prems"(1) by (simp add: o(1) unat_low X_def [symmetric])
qed auto

lemma add_raw_val:
  assumes "length a = length b" and "add_raw a b = (out, carry)"
  shows "lval out + (if carry then limb_base ^ length a else 0) = lval a + lval b" "length out = length a"
proof -
  obtain c where c: "add_limbs a b = (out, c)" "carry = (c \<noteq> 0)"
    using assms(2) by (auto simp: add_raw_def split: prod.splits)
  note v = add_limbs_val [OF assms(1) c(1)]
  then have "unat c = (if carry then 1 else 0)" using c(2) unat_gt_0 [of c] by auto
  then show "lval out + (if carry then limb_base ^ length a else 0) = lval a + lval b" "length out = length a"
    using v by auto
qed

lemma sub_limbs_val:
  "length a = length b \<Longrightarrow> sub_limbs a b = (out, w) \<Longrightarrow>
     int (lval out) + int (lval b) = int (lval a) + w * int (limb_base ^ length a) \<and> length out = length a \<and> (w = 0 \<or> w = 1)"
proof (induction a b arbitrary: out w rule: sub_limbs.induct)
  case (1 a as b bs)
  obtain o' w' where rec: "sub_limbs as bs = (o', w')" by (cases "sub_limbs as bs")
  have IH: "int (lval o') + int (lval bs) = int (lval as) + w' * int (limb_base ^ length as)" "length o' = length as"
    "w' = 0 \<or> w' = 1"
    using "1.IH" [OF _ rec] "1.prems"(1) by auto
  define d where "d = uint a - uint b - w'"
  have b: "uint a < 2 ^ 64" "uint b < 2 ^ 64" "0 \<le> uint a" "0 \<le> uint b"
    using uint_bounded [of a] uint_bounded [of b] by simp_all
  have o: "out = word_of_int (if d < 0 then d + 2 ^ 64 else d) # o'" "w = (if d < 0 then 1 else 0)"
    using "1.prems"(2) rec by (auto simp: d_def Let_def split: if_splits)
  have d: "0 \<le> d + 2 ^ 64" "d < 2 ^ 64" using b IH(3) unfolding d_def by linarith+
  have "uint (word_of_int (if d < 0 then d + 2 ^ 64 else d) :: u64) = (if d < 0 then d + 2 ^ 64 else d)"
    using d by (auto simp: unsigned_of_int intro!: take_bit_int_eq_self)
  then obtain h where h: "out = h # o'" "int (unat h) = d + w * int limb_base" by (simp add: o limb_base_def)
  define X where "X = int (limb_base ^ length bs)"
  have "int (unat h) * X + uint b * X = uint a * X + w * (int limb_base * X) - w' * X"
    unfolding h(2) d_def by (simp add: algebra_simps)
  then show ?case
    using IH(1,2) "1.prems"(1) o(2) by (simp add: h(1) X_def)
qed auto

lemma sub_raw_val:
  assumes "length a = length b" and "sub_raw a b = (out, borrow)"
  shows "lval out + lval b = lval a + (if borrow then limb_base ^ length a else 0)" "length out = length a"
    "borrow = (lval a < lval b)"
proof -
  obtain w where w: "sub_limbs a b = (out, w)" "borrow = (w \<noteq> 0)"
    using assms(2) by (auto simp: sub_raw_def split: prod.splits)
  note v = sub_limbs_val [OF assms(1) w(1)]
  then have "int (lval out + lval b) = int (lval a + (if borrow then limb_base ^ length a else 0))" using w(2) by auto
  then show e: "lval out + lval b = lval a + (if borrow then limb_base ^ length a else 0)" by (simp only: of_nat_eq_iff)
  show "length out = length a" using v by simp
  then show "borrow = (lval a < lval b)"
    using e limbs_bound [of out] limbs_bound [of b] assms(1) by (auto split: if_splits)
qed

lemma gte_val: "length a = length b \<Longrightarrow> gte a b \<longleftrightarrow> lval b \<le> lval a"
proof (induction a b rule: gte.induct)
  case (1 a as b bs)
  define X where "X = limb_base ^ length bs"
  have bnd: "lval as < X" "lval bs < X" using limbs_bound [of as] limbs_bound [of bs] 1 by (simp_all add: X_def)
  have lt: "unat u * X + l < unat v * X + m" if "unat u < unat v" "l < X" for u v :: u64 and l m
  proof -
    have "unat u * X + l < (unat u + 1) * X" using that by simp
    also have "\<dots> \<le> unat v * X" using that by (intro mult_right_mono) simp_all
    finally show ?thesis by simp
  qed
  show ?case
    using 1 lt [of a b "lval as" "lval bs"] lt [of b a "lval bs" "lval as"] bnd
    by (auto simp: word_less_nat_alt X_def [symmetric] not_le word_unat_eq_iff)
qed auto

lemma reduce_val:
  assumes "length a = 4"
  shows "lval (reduce a) = lval a mod field_prime" "length (reduce a) = 4"
proof -
  have a: "lval a < 2 ^ 256" using limbs_bound [of a] assms by (simp add: limb_base_def)
  have g: "gte a p_limbs \<longleftrightarrow> field_prime \<le> lval a" using gte_val [of a p_limbs] assms p_limbs_val by simp
  obtain out w where s: "sub_raw a p_limbs = (out, w)" by (cases "sub_raw a p_limbs")
  note v = sub_raw_val [OF _ s]
  have "lval (reduce a) = (if field_prime \<le> lval a then lval a - field_prime else lval a)"
    using v assms p_limbs_val g s by (auto simp: reduce_def)
  moreover have "lval a < 2 * field_prime" using a by (simp add: field_prime_def)
  ultimately show "lval (reduce a) = lval a mod field_prime" by (auto simp: le_mod_geq)
  show "length (reduce a) = 4" using v assms p_limbs_val s by (simp add: reduce_def)
qed

section \<open>Addition and subtraction\<close>

lemma f_add_val:
  assumes len: "length a = 32" "length b = 32" and red: "fval a < field_prime" "fval b < field_prime"
  shows "fval (f_add a b) = (fval a + fval b) mod field_prime \<and> length (f_add a b) = 32"
proof -
  obtain sum c where s: "add_raw (to_limbs a) (to_limbs b) = (sum, c)" by (cases "add_raw (to_limbs a) (to_limbs b)")
  obtain out w where o: "sub_raw sum p_limbs = (out, w)" by (cases "sub_raw sum p_limbs")
  note A = add_raw_val [OF _ s, unfolded lval_to_limbs [OF len(1)] lval_to_limbs [OF len(2)]]
  note S = sub_raw_val [OF _ o, unfolded p_limbs_val]
  have B4: "limb_base ^ 4 = field_prime + 189" by (simp add: limb_base_def field_prime_def)
  have len4: "length sum = 4" using A by simp
  show ?thesis
  proof (cases c)
    case True
    then have "lval sum + limb_base ^ 4 = fval a + fval b" using A by simp
    then have "lval out = fval a + fval b - field_prime" "fval a + fval b - field_prime < field_prime" "field_prime \<le> fval a + fval b"
      using S len4 red by (auto simp: B4 split: if_splits)
    then show ?thesis using True s o S len4 by (simp add: f_add_def fval_from_limbs le_mod_geq)
  next
    case False
    then show ?thesis using A s reduce_val [OF len4] by (simp add: f_add_def fval_from_limbs)
  qed
qed

lemma f_sub_val:
  assumes len: "length a = 32" "length b = 32" and red: "fval a < field_prime" "fval b < field_prime"
  shows "int (fval (f_sub a b)) = (int (fval a) - int (fval b)) mod int field_prime \<and> length (f_sub a b) = 32"
proof -
  obtain d w where s: "sub_raw (to_limbs a) (to_limbs b) = (d, w)" by (cases "sub_raw (to_limbs a) (to_limbs b)")
  obtain out c where o: "add_raw d p_limbs = (out, c)" by (cases "add_raw d p_limbs")
  note S = sub_raw_val [OF _ s, unfolded lval_to_limbs [OF len(1)] lval_to_limbs [OF len(2)]]
  note A = add_raw_val [OF _ o, unfolded p_limbs_val]
  have B4: "limb_base ^ 4 = field_prime + 189" by (simp add: limb_base_def field_prime_def)
  have len4: "length d = 4" using S by simp
  show ?thesis
  proof (cases w)
    case True
    then have "lval d + fval b = fval a + limb_base ^ 4" "fval a < fval b" using S by simp_all
    moreover have "lval out < limb_base ^ 4" using limbs_bound [of out] A len4 by simp
    ultimately have "lval out + fval b = fval a + field_prime"
      using A len4 red by (auto simp: B4 split: if_splits)
    then have "int (lval out) = int (fval a) - int (fval b) + int field_prime" by linarith
    moreover have "(int (fval a) - int (fval b)) mod int field_prime = int (fval a) - int (fval b) + int field_prime"
      using \<open>fval a < fval b\<close> red by (intro int_mod_pos_eq [of _ _ "- 1"]) auto
    ultimately show ?thesis using True s o A len4 by (simp add: f_sub_def fval_from_limbs)
  next
    case False
    then have "lval d + fval b = fval a" "\<not> fval a < fval b" using S by simp_all
    then show ?thesis using False s S red by (simp add: f_sub_def fval_from_limbs)
  qed
qed

section \<open>Multiplication\<close>

lemma lval_update:
  "k < length xs \<Longrightarrow> lval (xs[k := v]) + unat (xs ! k) * limb_base ^ (length xs - 1 - k) =
     lval xs + unat v * limb_base ^ (length xs - 1 - k)"
proof (induction xs arbitrary: k)
  case (Cons x xs)
  then show ?case by (cases k) auto
qed simp

text \<open>Adding a word below \<open>limb_base\<close> to one accumulator.\<close>

lemma lval_add_at:
  assumes "k < length xs" and "unat (xs ! k) + unat (v :: u128) < 2 ^ 128"
  shows "lval (xs[k := xs ! k + v]) = lval xs + unat v * limb_base ^ (length xs - 1 - k)"
  using lval_update [OF assms(1), of "xs ! k + v"] assms(2) by (simp add: unat_add_small distrib_right)

definition acc_ok :: "nat \<Rightarrow> u128 list \<Rightarrow> bool" where
  "acc_ok m xs \<longleftrightarrow> length xs = 8 \<and> (\<forall>k < 8. unat (xs ! k) \<le> m * limb_base)"

lemma unat_mul_u64: "unat ((ucast (x :: u64) :: u128) * ucast (y :: u64)) = unat x * unat y"
  using mult_u64_fits [of x y] by (simp add: unat_mult_small)

lemma mul_step_val:
  assumes ok: "acc_ok m xs" and m: "m < 100" and ij: "i < 4" "j < 4"
  shows "acc_ok (m + 1) (mul_step la lb (i, j) xs) \<and>
    lval (mul_step la lb (i, j) xs) = lval xs + unat (la ! i) * unat (lb ! j) * limb_base ^ (6 - (i + j))"
proof -
  define p where "p = (ucast (la ! i) :: u128) * ucast (lb ! j)"
  define k where "k = i + j"
  define u where "u = drop_bit 64 p"
  define v where "v = (p AND mask 64)"
  have p: "unat p = unat u * limb_base + unat v"
    by (simp add: u_def v_def unat_high unat_mask64)
  have "unat p < 2 ^ 128" using unat_bound [of p] by simp
  then have uv: "unat u < limb_base" "unat v < limb_base"
    using B_gt by (simp_all add: u_def v_def unat_high unat_mask64 div_less_iff_less_mult) (simp add: limb_base_def)
  have k: "k < 8" "k + 1 < 8" "length xs = 8" using ij ok by (simp_all add: k_def acc_ok_def)
  define ys where "ys = xs[k := xs ! k + u]"
  define zs where "zs = ys[k + 1 := ys ! (k + 1) + v]"
  have bnd: "unat (xs ! n) \<le> m * limb_base" if "n < 8" for n using ok that by (simp add: acc_ok_def)
  have "m * limb_base < 100 * limb_base" using m B_gt by simp
  then have small: "m * limb_base + limb_base < 2 ^ 128" by (simp add: limb_base_def)
  have s1: "unat (xs ! k + u) = unat (xs ! k) + unat u" "unat (xs ! k) + unat u < 2 ^ 128"
    using bnd [of k] uv k small by (simp_all add: unat_add_small)
  have s2: "unat (ys ! (k + 1) + v) = unat (xs ! (k + 1)) + unat v" "unat (ys ! (k + 1)) + unat v < 2 ^ 128"
    using bnd [of "k + 1"] uv k small by (simp_all add: ys_def unat_add_small)
  have eq: "mul_step la lb (i, j) xs = zs"
    using k by (simp add: mul_step_def p_def [symmetric] k_def [symmetric] u_def [symmetric] v_def [symmetric]
        zs_def ys_def Let_def)
  have "unat (zs ! n) \<le> (m + 1) * limb_base" if "n < 8" for n
    using bnd [OF that] bnd [of k] bnd [of "k + 1"] k uv s1(1) s2(1) that
    by (auto simp: zs_def ys_def nth_list_update)
  then have "acc_ok (m + 1) zs" using k by (simp add: acc_ok_def zs_def ys_def)
  moreover have "lval zs = lval xs + unat u * limb_base ^ (7 - k) + unat v * limb_base ^ (6 - k)"
    using lval_add_at [of k xs u] lval_add_at [of "k + 1" ys v] s1 s2 k by (simp add: zs_def ys_def)
  moreover have "7 - k = Suc (6 - k)" using k by simp
  then have "limb_base ^ (7 - k) = limb_base * limb_base ^ (6 - k)" by simp
  ultimately show ?thesis
    unfolding eq using p by (simp add: p_def unat_mul_u64 k_def distrib_right mult.assoc)
qed

lemma mul_steps_val:
  assumes "acc_ok m xs" and "m + length ps \<le> 100" and "\<forall>(i, j) \<in> set ps. i < 4 \<and> j < 4"
  shows "acc_ok (m + length ps) (fold (mul_step la lb) ps xs) \<and>
    lval (fold (mul_step la lb) ps xs) =
      lval xs + (\<Sum>(i, j) \<leftarrow> ps. unat (la ! i) * unat (lb ! j) * limb_base ^ (6 - (i + j)))"
  using assms
proof (induction ps arbitrary: m xs)
  case (Cons q ps)
  obtain i j where q: "q = (i, j)" by (cases q)
  have step: "acc_ok (m + 1) (mul_step la lb (i, j) xs)"
    "lval (mul_step la lb (i, j) xs) = lval xs + unat (la ! i) * unat (lb ! j) * limb_base ^ (6 - (i + j))"
    using mul_step_val [of m xs i j la lb] Cons.prems by (auto simp: q)
  from Cons.IH [OF step(1)] Cons.prems step(2) show ?case by (auto simp: q)
qed simp

lemma mul_raw_val:
  assumes "length la = 4" and "length lb = 4"
  shows "acc_ok 16 (mul_raw la lb) \<and> lval (mul_raw la lb) = lval la * lval lb"
proof -
  obtain a0 a1 a2 a3 where la: "la = [a0, a1, a2, a3]"
    using assms(1) by (auto simp: numeral_eq_Suc length_Suc_conv)
  obtain b0 b1 b2 b3 where lb: "lb = [b0, b1, b2, b3]"
    using assms(2) by (auto simp: numeral_eq_Suc length_Suc_conv)
  define ps :: "(nat \<times> nat) list" where "ps = List.product [3, 2, 1, 0] [3, 2, 1, 0]"
  have "acc_ok 0 (replicate 8 0)" by (simp add: acc_ok_def)
  moreover have ps: "length ps = 16" "\<forall>(i, j) \<in> set ps. i < 4 \<and> j < 4" by (simp_all add: ps_def)
  ultimately have steps: "acc_ok 16 (fold (mul_step la lb) ps (replicate 8 0))"
    "lval (fold (mul_step la lb) ps (replicate 8 0)) = lval (replicate 8 (0 :: u128)) +
      (\<Sum>(i, j) \<leftarrow> ps. unat (la ! i) * unat (lb ! j) * limb_base ^ (6 - (i + j)))"
    using mul_steps_val [of 0 "replicate 8 0" ps la lb] by simp_all
  have "lval (replicate n (0 :: u128)) = 0" for n by (induction n) simp_all
  moreover have "(\<Sum>(i, j) \<leftarrow> ps. unat (la ! i) * unat (lb ! j) * limb_base ^ (6 - (i + j))) = lval la * lval lb"
    by (simp add: ps_def la lb eval_nat_numeral) (simp add: algebra_simps)
  moreover have "mul_raw la lb = fold (mul_step la lb) ps (replicate 8 0)" by (simp only: mul_raw_def ps_def)
  ultimately show ?thesis using steps by simp
qed

lemma propagate_val:
  assumes "\<And>x. x \<in> set xs \<Longrightarrow> unat x \<le> 16 * limb_base" and "propagate xs = (ys, c)"
  shows "lval ys + unat c * limb_base ^ length xs = lval xs \<and> length ys = length xs \<and> unat c \<le> 16 \<and>
    (\<forall>y \<in> set ys. unat y < limb_base)"
  using assms
proof (induction xs arbitrary: ys c)
  case (Cons x xs)
  obtain ys' c' where rec: "propagate xs = (ys', c')" by (cases "propagate xs")
  have IH: "lval ys' + unat c' * limb_base ^ length xs = lval xs" "length ys' = length xs" "unat c' \<le> 16"
    "\<forall>y \<in> set ys'. unat y < limb_base"
    using Cons.IH [OF _ rec] Cons.prems(1) by auto
  define z where "z = x + c'"
  have o: "ys = (z AND mask 64) # ys'" "c = drop_bit 64 z" using Cons.prems(2) rec by (simp_all add: z_def Let_def)
  have x: "unat x \<le> 16 * limb_base" using Cons.prems(1) by simp
  then have z: "unat z = unat x + unat c'" "unat z < 17 * limb_base"
    using IH(3) by (simp_all add: z_def unat_add_small limb_base_def)
  then have c: "unat c = unat z div limb_base" "unat c \<le> 16"
    using B_gt by (simp_all add: o unat_high div_less_iff_less_mult less_Suc_eq_le [symmetric])
  define X where "X = limb_base ^ length xs"
  have "unat z mod limb_base * X + unat z div limb_base * (limb_base * X) = (unat z mod limb_base + unat z div limb_base * limb_base) * X"
    by (simp only: distrib_right mult.assoc)
  then have "unat z mod limb_base * X + unat z div limb_base * (limb_base * X) = unat x * X + unat c' * X"
    using z(1) by (simp add: distrib_right)
  then show ?case
    using IH c B_gt by (simp add: o(1) unat_mask64 X_def [symmetric])
qed simp

lemma mul_189_val:
  "mul_189 xs = (out, c) \<Longrightarrow> lval out + unat c * limb_base ^ length xs = 189 * lval xs \<and> length out = length xs \<and> unat c < 189"
proof (induction xs arbitrary: out c)
  case (Cons x xs)
  obtain o' c' where rec: "mul_189 xs = (o', c')" by (cases "mul_189 xs")
  have IH: "lval o' + unat c' * limb_base ^ length xs = 189 * lval xs" "length o' = length xs" "unat c' < 189"
    using Cons.IH [OF rec] by auto
  define v where "v = (ucast x :: u128) * 189 + c'"
  have o: "out = ucast v # o'" "c = drop_bit 64 v" using Cons.prems rec by (simp_all add: v_def Let_def)
  have x: "unat x < limb_base" using unat_bound [of x] by (simp add: limb_base_def)
  then have "unat ((ucast x :: u128) * 189) = unat x * 189" by (simp add: unat_mult_small limb_base_def)
  then have v: "unat v = unat x * 189 + unat c'" "unat v < 189 * limb_base"
    using x IH(3) by (simp_all add: v_def unat_add_small limb_base_def)
  then have c: "unat c = unat v div limb_base" "unat c < 189"
    using B_gt by (simp_all add: o unat_high div_less_iff_less_mult)
  define X where "X = limb_base ^ length xs"
  have "unat v mod limb_base * X + unat v div limb_base * (limb_base * X) = (unat v mod limb_base + unat v div limb_base * limb_base) * X"
    by (simp only: distrib_right mult.assoc)
  then have "unat v mod limb_base * X + unat v div limb_base * (limb_base * X) = unat x * 189 * X + unat c' * X"
    using v(1) by (simp add: distrib_right)
  then show ?case
    using IH c by (simp add: o(1) unat_low X_def [symmetric])
qed simp

lemma fold_high_val:
  assumes "length hi = 4" and "length lo = 4" and "fold_high hi lo = (ov, l)"
  shows "lval l + unat ov * limb_base ^ 4 = lval lo + 189 * lval hi" "length l = 4" "unat ov < 190"
proof -
  obtain cor c where m: "mul_189 hi = (cor, c)" by (cases "mul_189 hi")
  obtain low c2 where a: "add_limbs lo cor = (low, c2)" by (cases "add_limbs lo cor")
  note M = mul_189_val [OF m]
  note A = add_limbs_val [OF _ a]
  have small: "unat c < limb_base" "unat c2 < limb_base" "unat c + unat c2 < limb_base" using M A assms by (simp_all add: limb_base_def)
  have "ov = ucast ((ucast (ucast c :: u64) :: u128) + ucast c2)" "l = low"
    using assms(3) m a by (simp_all add: fold_high_def)
  then have ov: "unat ov = unat c + unat c2" "l = low"
    using small by (simp_all add: unat_low unat_add_small limb_base_def)
  show "lval l + unat ov * limb_base ^ 4 = lval lo + 189 * lval hi" "length l = 4" "unat ov < 190"
    using M A assms ov by (auto simp: distrib_right)
qed

lemma fold_overflow_val:
  assumes l: "length l = 4" and ov: "unat ov < 190"
  shows "lval (fold_overflow ov l) mod field_prime = (lval l + unat ov * limb_base ^ 4) mod field_prime" "length (fold_overflow ov l) = 4"
proof -
  define e where "e = (ucast ov :: u128) * 189"
  have e: "unat e = unat ov * 189" "unat e < limb_base" using ov by (simp_all add: e_def unat_mult_small limb_base_def)
  let ?x = "[0, 0, ucast (drop_bit 64 e), ucast e] :: limbs"
  have x: "lval ?x = unat ov * 189" using e by (simp add: unat_low unat_high)
  obtain s c where s: "add_raw l ?x = (s, c)" by (cases "add_raw l ?x")
  obtain d w where d: "sub_raw s p_limbs = (d, w)" by (cases "sub_raw s p_limbs")
  note A = add_raw_val [OF _ s, unfolded x]
  note S = sub_raw_val [OF _ d, unfolded p_limbs_val]
  have B4: "limb_base ^ 4 = field_prime + 189" by (simp add: limb_base_def field_prime_def)
  have len: "length s = 4" "length d = 4" using A S l by simp_all
  have res: "lval l + unat ov * 189 = lval (fold_overflow ov l) + (if 0 < ov \<and> c then field_prime else 0)"
  proof (cases "0 < ov")
    case True
    show ?thesis
    proof (cases c)
      case c: True
      then have sum: "lval s + limb_base ^ 4 = lval l + unat ov * 189" using A l by simp
      have "lval l < limb_base ^ 4" using limbs_bound [of l] l by simp
      then have "lval s < field_prime" using sum ov by (simp add: field_prime_def B4)
      then have "lval d = lval s + 189" using S len by (simp add: B4)
      then show ?thesis using True c sum s d e_def B4 by (simp add: fold_overflow_def Let_def)
    next
      case False
      then show ?thesis using A l s e_def True by (simp add: fold_overflow_def Let_def)
    qed
  next
    case False
    then have "ov = 0" by (simp add: word_gt_0)
    then show ?thesis by (simp add: fold_overflow_def)
  qed
  then have "lval (fold_overflow ov l) mod field_prime = (lval l + unat ov * 189) mod field_prime" by simp
  also have "\<dots> = (lval l + unat ov * 189 + unat ov * field_prime) mod field_prime" by simp
  also have "lval l + unat ov * 189 + unat ov * field_prime = lval l + unat ov * limb_base ^ 4" by (simp add: B4 distrib_left)
  finally show "lval (fold_overflow ov l) mod field_prime = (lval l + unat ov * limb_base ^ 4) mod field_prime" .
  show "length (fold_overflow ov l) = 4" using len l s d by (simp add: fold_overflow_def e_def [symmetric] Let_def)
qed

lemma lval_ucast:
  "(\<forall>y \<in> set ys. unat (y :: u128) < limb_base) \<Longrightarrow> lval (map ucast ys :: limbs) = lval ys"
  by (induction ys) (simp_all add: unat_low)

lemma f_mul_val:
  assumes "length a = 32" and "length b = 32"
  shows "fval (f_mul a b) = fval a * fval b mod field_prime \<and> length (f_mul a b) = 32"
proof -
  let ?la = "to_limbs a" and ?lb = "to_limbs b"
  note la = lval_to_limbs [OF assms(1)] and lb = lval_to_limbs [OF assms(2)]
  have M: "acc_ok 16 (mul_raw ?la ?lb)" "lval (mul_raw ?la ?lb) = fval a * fval b"
    using mul_raw_val [OF la(2) lb(2)] la lb by simp_all
  obtain prod c where pr: "propagate (mul_raw ?la ?lb) = (prod, c)" by (cases "propagate (mul_raw ?la ?lb)")
  have field_prime: "lval prod + unat c * limb_base ^ 8 = fval a * fval b" "length prod = 8" "\<forall>y \<in> set prod. unat y < limb_base"
    using propagate_val [OF _ pr] M by (auto simp: acc_ok_def in_set_conv_nth)
  have "fval a * fval b < 256 ^ 32 * 256 ^ 32"
    using fval_bound [of a] fval_bound [of b] assms by (intro mult_strict_mono) simp_all
  then have "fval a * fval b < limb_base ^ 8" by (simp add: limb_base_def)
  then have c: "unat c = 0" using field_prime(1) by (cases "unat c") auto
  define hi where "hi = (map ucast (take 4 prod) :: limbs)"
  define lo where "lo = (map ucast (drop 4 prod) :: limbs)"
  have hi: "lval hi = lval (take 4 prod)" "length hi = 4"
    unfolding hi_def using field_prime(2,3) by (auto intro!: lval_ucast dest: in_set_takeD)
  have lo: "lval lo = lval (drop 4 prod)" "length lo = 4"
    unfolding lo_def using field_prime(2,3) by (auto intro!: lval_ucast dest: in_set_dropD)
  have "lval (take 4 prod @ drop 4 prod) = lval (take 4 prod) * limb_base ^ 4 + lval (drop 4 prod)"
    using lval_append [of "take 4 prod" "drop 4 prod"] field_prime(2) by simp
  then have v: "lval hi * limb_base ^ 4 + lval lo = fval a * fval b" "length hi = 4" "length lo = 4"
    using field_prime(1) c hi lo by simp_all
  obtain ov l where h: "fold_high hi lo = (ov, l)" by (cases "fold_high hi lo")
  note H = fold_high_val [OF v(2,3) h] and F = fold_overflow_val [OF _ fold_high_val(3) [OF v(2,3) h]]
  have B4: "limb_base ^ 4 = field_prime + 189" by (simp add: limb_base_def field_prime_def)
  have "lval hi * limb_base ^ 4 + lval lo = lval lo + 189 * lval hi + lval hi * field_prime" by (simp add: B4 distrib_left)
  then have "(lval lo + 189 * lval hi) mod field_prime = fval a * fval b mod field_prime" using v(1) by simp
  then have "lval (reduce (fold_overflow ov l)) = fval a * fval b mod field_prime"
    using reduce_val(1) [of "fold_overflow ov l"] F [of l] H by simp
  moreover have "f_mul a b = from_limbs (reduce (fold_overflow ov l))"
    by (simp add: f_mul_def pr hi_def [symmetric] lo_def [symmetric] h)
  ultimately show ?thesis
    using reduce_val(2) [of "fold_overflow ov l"] F [of l] H by (simp add: fval_from_limbs)
qed

section \<open>Exponentiation\<close>

lemma P_gt: "1 < field_prime" "189 < field_prime"
  by (simp_all add: field_prime_def)

definition el :: "bytes \<Rightarrow> bool" where "el a \<longleftrightarrow> length a = 32 \<and> fval a < field_prime"

lemma fval_less: "length a = 32 \<Longrightarrow> fval (f_mul a b) < field_prime \<or> length b \<noteq> 32"
  using f_mul_val [of a b] P_gt by (cases "length b = 32") auto

lemma pow_bits:
  assumes "length r = 32" and "length b = 32" and "k \<le> 8" and "fold (pow_bit e) [0..<k] (r, b) = (r', b')"
  shows "length r' = 32 \<and> length b' = 32 \<and> fval r' mod field_prime = fval r * fval b ^ take_bit k (unat e) mod field_prime \<and>
    fval b' mod field_prime = fval b ^ (2 ^ k) mod field_prime \<and> (fval r < field_prime \<longrightarrow> fval r' < field_prime)"
  using assms(3,4)
proof (induction k arbitrary: r' b')
  case 0
  then show ?case using assms by simp
next
  case (Suc k)
  obtain r1 b1 where prev: "fold (pow_bit e) [0..<k] (r, b) = (r1, b1)" by (cases "fold (pow_bit e) [0..<k] (r, b)")
  have IH: "length r1 = 32" "length b1 = 32" "fval r1 mod field_prime = fval r * fval b ^ take_bit k (unat e) mod field_prime"
    "fval b1 mod field_prime = fval b ^ (2 ^ k) mod field_prime" "fval r < field_prime \<longrightarrow> fval r1 < field_prime"
    using Suc.IH [OF _ prev] Suc.prems by auto
  have o: "r' = (if bit e k then f_mul r1 b1 else r1)" "b' = f_mul b1 b1"
    using Suc.prems(2) prev by (simp_all add: pow_bit_def [of _ k])
  have sq: "fval b' mod field_prime = fval b ^ (2 ^ Suc k) mod field_prime"
    using f_mul_val [OF IH(2) IH(2)] IH(4)
    by (simp add: o) (metis mod_mult_eq mult_2 power_add)
  have tb: "take_bit (Suc k) (unat e) = 2 ^ k * of_bool (bit e k) + take_bit k (unat e)"
    using Suc.prems(1) by (simp add: take_bit_Suc_from_most bit_unsigned_iff)
  have "fval r' mod field_prime = fval r * fval b ^ take_bit (Suc k) (unat e) mod field_prime"
  proof (cases "bit e k")
    case True
    have "fval r' mod field_prime = (fval r1 mod field_prime) * (fval b1 mod field_prime) mod field_prime"
      using True f_mul_val [OF IH(1,2)] by (simp add: o mod_mult_eq)
    also have "\<dots> = fval r * fval b ^ take_bit k (unat e) * fval b ^ (2 ^ k) mod field_prime"
      by (simp only: IH(3,4) mod_mult_eq)
    also have "\<dots> = fval r * fval b ^ take_bit (Suc k) (unat e) mod field_prime"
      using True by (simp add: tb power_add ac_simps)
    finally show ?thesis .
  next
    case False
    then show ?thesis using IH(3) by (simp add: o tb)
  qed
  then show ?case
    using sq IH f_mul_val [OF IH(1,2)] f_mul_val [OF IH(2) IH(2)] P_gt by (simp add: o)
qed

lemma pow_byte:
  assumes "length r = 32" and "length b = 32" and "fold (pow_bit e) [0..<8] (r, b) = (r', b')"
  shows "length r' = 32 \<and> length b' = 32 \<and> fval r' mod field_prime = fval r * fval b ^ unat e mod field_prime \<and>
    fval b' mod field_prime = fval b ^ 256 mod field_prime \<and> (fval r < field_prime \<longrightarrow> fval r' < field_prime)"
proof -
  have "take_bit 8 (unat e) = unat e" using unat_bound [of e] by (simp add: take_bit_nat_eq_self)
  then show ?thesis using pow_bits [OF assms(1,2) order_refl assms(3)] by simp
qed

lemma pow_bytes:
  assumes "length r = 32" and "length b = 32" and "fval r < field_prime"
    and "fold (\<lambda>e rb. fold (pow_bit e) [0..<8] rb) es (r, b) = (r', b')"
  shows "length r' = 32 \<and> fval r' = fval r * fval b ^ le_val es mod field_prime"
  using assms
proof (induction es arbitrary: r b)
  case (Cons e es)
  obtain r1 b1 where prev: "fold (pow_bit e) [0..<8] (r, b) = (r1, b1)" by (cases "fold (pow_bit e) [0..<8] (r, b)")
  have limb_base: "length r1 = 32" "length b1 = 32" "fval r1 mod field_prime = fval r * fval b ^ unat e mod field_prime"
    "fval b1 mod field_prime = fval b ^ 256 mod field_prime" "fval r1 < field_prime"
    using pow_byte [OF Cons.prems(1,2) prev] Cons.prems(3) by auto
  have "length r' = 32" "fval r' = fval r1 * fval b1 ^ le_val es mod field_prime"
    using Cons.IH [OF limb_base(1,2,5)] Cons.prems(4) prev by auto
  moreover have "fval r1 * fval b1 ^ le_val es mod field_prime = (fval r1 mod field_prime) * ((fval b1 mod field_prime) ^ le_val es mod field_prime) mod field_prime"
    by (simp only: power_mod mod_mult_eq)
  moreover have "\<dots> = fval r * fval b ^ unat e * (fval b ^ 256) ^ le_val es mod field_prime"
    by (simp only: limb_base(3,4) power_mod mod_mult_eq)
  ultimately show ?case by (simp add: power_add power_mult mult.assoc)
qed simp

lemma el_from_u32: "el (f_from_u32 v)" "fval (f_from_u32 v) = unat v"
proof -
  have z: "fval (replicate n 0) = 0" for n
    by (induction n) (simp_all add: fval_def le_val_append replicate_append_same [symmetric])
  have "fval (rev (le_bytes 4 (unat v))) = unat v" using unat_bound [of v] by (simp add: fval_def le_val_le_bytes)
  then show "fval (f_from_u32 v) = unat v" using z [of 28] by (simp add: f_from_u32_def fval_append)
  then show "el (f_from_u32 v)" using unat_bound [of v] by (simp add: el_def field_prime_def) (simp add: f_from_u32_def)
qed

lemma el_zero: "el f_zero" "fval f_zero = 0"
proof -
  have "fval (replicate n 0) = 0" for n
    by (induction n) (simp_all add: fval_def le_val_append replicate_append_same [symmetric])
  then show "fval f_zero = 0" by (simp add: f_zero_def)
  then show "el f_zero" using P_gt by (simp add: el_def) (simp add: f_zero_def)
qed

lemma el_add: "el a \<Longrightarrow> el b \<Longrightarrow> el (f_add a b) \<and> fval (f_add a b) = (fval a + fval b) mod field_prime"
  using f_add_val [of a b] P_gt by (auto simp: el_def)

lemma el_sub: "el a \<Longrightarrow> el b \<Longrightarrow> el (f_sub a b) \<and> int (fval (f_sub a b)) = (int (fval a) - int (fval b)) mod int field_prime"
  using f_sub_val [of a b] P_gt pos_mod_bound [of "int field_prime" "int (fval a) - int (fval b)"]
  unfolding el_def by linarith

lemma el_mul: "el a \<Longrightarrow> el b \<Longrightarrow> el (f_mul a b) \<and> fval (f_mul a b) = fval a * fval b mod field_prime"
  using f_mul_val [of a b] P_gt by (auto simp: el_def)

lemma f_pow_val:
  assumes "length a = 32"
  shows "el (f_pow a ex) \<and> fval (f_pow a ex) = fval a ^ fval ex mod field_prime"
proof -
  obtain r b where f: "fold (\<lambda>e rb. fold (pow_bit e) [0..<8] rb) (rev ex) (f_from_u32 1, a) = (r, b)"
    by (cases "fold (\<lambda>e rb. fold (pow_bit e) [0..<8] rb) (rev ex) (f_from_u32 1, a)")
  have "length r = 32" "fval r = fval a ^ fval ex mod field_prime"
    using pow_bytes [OF _ assms _ f] el_from_u32 [of 1] by (auto simp: el_def fval_def)
  then show ?thesis using f P_gt by (simp add: f_pow_def el_def)
qed

lemma el_inv: "length a = 32 \<Longrightarrow> el (f_inv a) \<and> fval (f_inv a) = fval a ^ (field_prime - 2) mod field_prime"
  using f_pow_val [of a "field_P[31 := 0x41]"] field_P_val [of "0x41"] field_P_bytes(1) [of "0x41"]
  by (simp add: f_inv_def field_prime_def)

lemma el_reduce: "length a = 32 \<Longrightarrow> el (reduce_bytes a) \<and> fval (reduce_bytes a) = fval a mod field_prime"
  using reduce_val [of "to_limbs a"] lval_to_limbs [of a] P_gt
  by (simp add: reduce_bytes_def el_def fval_from_limbs)

lemma fval_inj: "el a \<Longrightarrow> el b \<Longrightarrow> fval a = fval b \<Longrightarrow> a = b"
  unfolding el_def fval_def by (metis le_bytes_le_val length_rev rev_rev_ident)

text \<open>
  C24. The limb arithmetic is arithmetic modulo \<open>2^256 - 189\<close>. On reduced 32-byte elements the
  addition and subtraction with carries, the schoolbook product with its two folds of the high
  half, and the bitwise exponentiation return exactly the reduced sum, difference, product and
  power: no 64-bit limb, 128-bit accumulator or final correction ever loses a bit.
\<close>

theorem field_ops_exact:
  assumes "el a" and "el b"
  shows "fval (f_add a b) = (fval a + fval b) mod field_prime \<and>
    int (fval (f_sub a b)) = (int (fval a) - int (fval b)) mod int field_prime \<and>
    fval (f_mul a b) = fval a * fval b mod field_prime \<and> fval (f_pow a e) = fval a ^ fval e mod field_prime \<and>
    el (f_add a b) \<and> el (f_sub a b) \<and> el (f_mul a b) \<and> el (f_pow a e)"
  using el_add [OF assms] el_sub [OF assms] el_mul [OF assms] f_pow_val [of a e] assms by (simp add: el_def)

theorem field_ops_exact_witness:
  "fval (f_mul (f_from_u32 7) (f_from_u32 9)) = 63 \<and> fval (f_add (f_from_u32 7) (f_from_u32 9)) = 16"
  using field_ops_exact [OF el_from_u32(1) [of 7] el_from_u32(1) [of 9]] by (simp add: el_from_u32 field_prime_def)

end
