(* ===== verification/QV_Lagrange.thy ===== *)
theory QV_Lagrange
  imports Main
begin

text \<open>
  Polynomials as coefficient lists over the integers modulo a number: the facts secret sharing
  rests on. A polynomial with as many roots as coefficients vanishes when the differences of the
  roots are invertible, so interpolation recovers the constant term. No primality is used. The last
  section shows that \<open>2^n\<close> is never one modulo an odd \<open>n\<close> above one.
\<close>

section \<open>Coefficient lists\<close>

primrec ev :: "int list \<Rightarrow> int \<Rightarrow> int" where
  "ev [] x = 0"
| "ev (c # cs) x = c + x * ev cs x"

fun synth :: "int \<Rightarrow> int list \<Rightarrow> int list" where
  "synth r (c # d # cs) = ev (d # cs) r # synth r (d # cs)"
| "synth r _ = []"

lemma length_synth: "length (synth r cs) = length cs - 1"
  by (induction r cs rule: synth.induct) auto

lemma ev_synth: "ev cs x = ev cs r + (x - r) * ev (synth r cs) x"
proof (induction r cs rule: synth.induct)
  case (1 r c d cs)
  define h where "h = ev (d # cs)"
  have "ev (c # d # cs) x - ev (c # d # cs) r = x * (h x - h r) + (x - r) * h r"
    by (simp add: h_def algebra_simps)
  also have "h x - h r = (x - r) * ev (synth r (d # cs)) x" using 1 by (simp only: h_def)
  finally show ?case by (simp add: h_def algebra_simps)
qed auto

definition inv_mod :: "int \<Rightarrow> int \<Rightarrow> bool" where
  "inv_mod p a \<longleftrightarrow> (\<exists>u. (a * u) mod p = 1 mod p)"

lemma inv_mod_cancel:
  assumes "inv_mod p a" and "(a * b) mod p = 0"
  shows "b mod p = 0"
proof -
  obtain u where u: "(a * u) mod p = 1 mod p" using assms(1) by (auto simp: inv_mod_def)
  have "b mod p = (1 mod p) * b mod p" by (simp add: mod_mult_left_eq)
  also have "\<dots> = (a * u) * b mod p" by (simp only: u [symmetric] mod_mult_left_eq)
  also have "\<dots> = ((a * b) mod p) * u mod p" by (simp only: mod_mult_left_eq) (simp add: ac_simps)
  finally show ?thesis using assms(2) by simp
qed

lemma inv_mod_factor: "inv_mod p (a * b) \<Longrightarrow> inv_mod p a"
  unfolding inv_mod_def by (metis mult.assoc)

lemma roots_vanish:
  assumes "length cs \<le> length xs" and "\<And>x. x \<in> set xs \<Longrightarrow> ev cs x mod p = 0"
    and "\<And>i j. i < j \<Longrightarrow> j < length xs \<Longrightarrow> inv_mod p (xs ! j - xs ! i)"
  shows "ev cs x mod p = 0"
  using assms
proof (induction xs arbitrary: cs)
  case (Cons r xs)
  have r: "ev cs r mod p = 0" using Cons.prems(2) by simp
  have root: "ev (synth r cs) y mod p = 0" if y: "y \<in> set xs" for y
  proof -
    obtain k where k: "k < length xs" "y = xs ! k" using y by (auto simp: in_set_conv_nth)
    then have "inv_mod p (y - r)" using Cons.prems(3) [of 0 "Suc k"] by simp
    moreover have "((y - r) * ev (synth r cs) y) mod p = (ev cs y - ev cs r) mod p"
      using ev_synth [of cs y r] by simp
    then have "((y - r) * ev (synth r cs) y) mod p = 0"
      using r Cons.prems(2) [of y] y mod_diff_eq [of "ev cs y" p "ev cs r"] by simp
    ultimately show ?thesis by (rule inv_mod_cancel)
  qed
  have "ev (synth r cs) x mod p = 0"
    using Cons.prems(1) Cons.prems(3) [of "Suc _" "Suc _"] root
    by (intro Cons.IH) (auto simp: length_synth)
  then have "((x - r) * ev (synth r cs) x) mod p = 0" by auto
  then show ?case
    using r ev_synth [of cs x r] mod_add_eq [of "ev cs r" p "(x - r) * ev (synth r cs) x"] by simp
qed simp

section \<open>Polynomial functions\<close>

definition is_poly :: "nat \<Rightarrow> (int \<Rightarrow> int) \<Rightarrow> bool" where
  "is_poly n F \<longleftrightarrow> (\<exists>cs. length cs = n \<and> (\<forall>x. F x = ev cs x))"

lemma ev_map2: "length as = length bs \<Longrightarrow> ev (map2 (+) as bs) x = ev as x + ev bs x"
  by (induction as bs rule: list_induct2) (simp_all add: algebra_simps)

lemma ev_scale: "ev (map ((*) c) as) x = c * ev as x"
  by (induction as) (simp_all add: algebra_simps)

lemma ev_snoc0: "ev (as @ [0]) x = ev as x"
  by (induction as) simp_all

lemma poly_add: "is_poly n F \<Longrightarrow> is_poly n G \<Longrightarrow> is_poly n (\<lambda>x. F x + G x)"
  unfolding is_poly_def by (metis ev_map2 length_map length_zip min.idem)

lemma poly_scale: "is_poly n F \<Longrightarrow> is_poly n (\<lambda>x. c * F x)"
  unfolding is_poly_def by (metis ev_scale length_map)

lemma poly_linear:
  assumes "is_poly n F"
  shows "is_poly (Suc n) (\<lambda>x. (x - c) * F x)"
proof -
  obtain cs where cs: "length cs = n" "\<And>x. F x = ev cs x" using assms by (auto simp: is_poly_def)
  have "ev (map2 (+) (0 # cs) (map ((*) (- c)) (cs @ [0]))) x = (x - c) * F x" for x
    by (subst ev_map2) (simp_all only: length_map length_append length_Cons list.size ev_scale ev_snoc0 ev.simps
        cs(2), simp_all add: algebra_simps)
  then show ?thesis
    unfolding is_poly_def using cs(1)
    by (intro exI [of _ "map2 (+) (0 # cs) (map ((*) (- c)) (cs @ [0]))"]) simp
qed

lemma poly_prod: "finite S \<Longrightarrow> is_poly (Suc (card S)) (\<lambda>x. \<Prod>j \<in> S. x - f j)"
proof (induction S rule: finite_induct)
  case empty
  show ?case by (auto simp: is_poly_def intro!: exI [of _ "[1]"])
next
  case (insert j S)
  then show ?case using poly_linear [OF insert.IH, of "f j"] by simp
qed

lemma poly_zero: "is_poly n (\<lambda>x. 0)"
proof -
  have "ev (replicate n 0) x = 0" for x by (induction n) simp_all
  then show ?thesis by (auto simp: is_poly_def intro!: exI [of _ "replicate n 0"])
qed

lemma poly_sum: "finite S \<Longrightarrow> (\<And>i. i \<in> S \<Longrightarrow> is_poly n (F i)) \<Longrightarrow> is_poly n (\<lambda>x. \<Sum>i \<in> S. F i x)"
  by (induction S rule: finite_induct) (simp_all add: poly_zero poly_add)

section \<open>Interpolation\<close>

text \<open>Interpolation at zero recovers the constant term.\<close>

lemma lagrange_at_zero:
  assumes t: "length xs = t" "length cs = t" "0 < t" and p: "1 < p"
    and inv: "\<And>i. i < t \<Longrightarrow> ((\<Prod>j \<in> {..<t} - {i}. xs ! i - xs ! j) * u i) mod p = 1"
  shows "(\<Sum>i < t. ev cs (xs ! i) * ((\<Prod>j \<in> {..<t} - {i}. - (xs ! j)) * u i)) mod p = ev cs 0 mod p"
proof -
  define L where "L i x = (\<Prod>j \<in> {..<t} - {i}. x - xs ! j) * u i" for i x
  define F where "F x = (\<Sum>i < t. ev cs (xs ! i) * L i x)" for x
  have unit: "inv_mod p (xs ! k - xs ! i)" if "i \<noteq> k" "i < t" "k < t" for i k
  proof -
    have "(\<Prod>j \<in> {..<t} - {k}. xs ! k - xs ! j) = (xs ! k - xs ! i) * (\<Prod>j \<in> {..<t} - {k} - {i}. xs ! k - xs ! j)"
      using that by (intro prod.remove) auto
    then have "inv_mod p ((xs ! k - xs ! i) * (\<Prod>j \<in> {..<t} - {k} - {i}. xs ! k - xs ! j))"
      using inv [OF that(3)] p by (auto simp: inv_mod_def)
    then show ?thesis by (rule inv_mod_factor)
  qed
  have L0: "L i (xs ! k) = 0" if "i \<noteq> k" "k < t" for i k
    using that by (auto simp: L_def prod_zero_iff)
  have "is_poly t (L i)" if "i < t" for i
  proof -
    have "is_poly t (\<lambda>x. \<Prod>j \<in> {..<t} - {i}. x - xs ! j)"
      using poly_prod [of "{..<t} - {i}" "\<lambda>j. xs ! j"] that t(3) by simp
    from poly_scale [OF this, of "u i"] show ?thesis by (simp add: L_def [abs_def] mult.commute)
  qed
  then have "is_poly t F" unfolding F_def by (intro poly_sum poly_scale) auto
  moreover have "is_poly t (ev cs)" using t by (auto simp: is_poly_def)
  ultimately have "is_poly t (\<lambda>x. F x + (- 1) * ev cs x)" by (intro poly_add poly_scale)
  then obtain ds where ds: "length ds = t" "\<And>x. F x - ev cs x = ev ds x" by (auto simp: is_poly_def)
  have "ev ds y mod p = 0" if y: "y \<in> set xs" for y
  proof -
    obtain k where k: "k < t" "y = xs ! k" using y t(1) by (auto simp: in_set_conv_nth)
    have "F y = ev cs y * L k y + (\<Sum>i \<in> {..<t} - {k}. ev cs (xs ! i) * L i y)"
      unfolding F_def using k by (subst sum.remove [of _ k]) auto
    also have "(\<Sum>i \<in> {..<t} - {k}. ev cs (xs ! i) * L i y) = 0"
      using L0 k by (intro sum.neutral) auto
    finally have "F y mod p = ev cs y * (L k y mod p) mod p" by (simp add: mod_mult_right_eq)
    moreover have "L k y mod p = 1" using inv [OF k(1)] by (simp add: L_def k(2))
    ultimately have "(F y - ev cs y) mod p = 0" using mod_diff_cong [of "F y" p "ev cs y" "ev cs y"] by simp
    then show ?thesis using ds(2) by simp
  qed
  then have "ev ds 0 mod p = 0"
    using roots_vanish [of ds xs p 0] ds(1) t(1) unit by auto
  then have "F 0 mod p = ev cs 0 mod p"
    using ds(2) [of 0] mod_add_eq [of "ev ds 0" p "ev cs 0"] by (simp add: algebra_simps)
  then show ?thesis by (simp add: F_def L_def)
qed

section \<open>Powers of two\<close>

lemma odd_dvd_pow2:
  assumes "odd (q :: nat)" and "q dvd 2 ^ a * m"
  shows "q dvd m"
  using assms(2)
proof (induction a arbitrary: m)
  case (Suc a)
  have "coprime q 2" using assms(1) by (simp add: coprime_commute)
  then show ?case using Suc by (metis coprime_dvd_mult_right_iff mult.assoc power_Suc)
qed simp

text \<open>The classical argument with the least divisor and the order of two modulo it.\<close>

lemma pow2_not_one:
  assumes n: "odd (n :: nat)" "1 < n"
  shows "\<not> n dvd 2 ^ n - 1"
proof
  assume dvd: "n dvd 2 ^ n - 1"
  define q where "q = (LEAST q. 1 < q \<and> q dvd n)"
  have q: "1 < q" "q dvd n" using LeastI [of "\<lambda>q. 1 < q \<and> q dvd n" n] n by (simp_all add: q_def)
  have least: "d = 1" if "d dvd n" "d < q" "0 < d" for d
    using not_less_Least [of d "\<lambda>q. 1 < q \<and> q dvd n"] that by (auto simp: q_def)
  have oddq: "odd q" using q(2) n(1) by auto
  have pos: "2 ^ k mod q \<noteq> 0" for k
    using odd_dvd_pow2 [OF oddq, of k 1] q(1) by (auto simp: mod_eq_0_iff_dvd)
  have "card ((\<lambda>k. 2 ^ k mod q) ` {..<q}) \<le> card {1..<q}"
    using q(1) pos by (intro card_mono) (auto simp: Suc_le_eq)
  then have "\<not> inj_on (\<lambda>k. 2 ^ k mod q) {..<q}" using card_image q(1) by fastforce
  then obtain a b where ab: "a < b" "b < q" "(2 :: nat) ^ a mod q = 2 ^ b mod q"
    unfolding inj_on_def by (metis lessThan_iff linorder_neqE_nat)
  have ord: "q dvd 2 ^ (b - a) - 1"
  proof -
    have "q dvd 2 ^ b - 2 ^ a" using ab by (metis mod_eq_dvd_iff_nat less_imp_le one_le_numeral power_increasing)
    moreover have "2 ^ b - 2 ^ a = (2 :: nat) ^ a * (2 ^ (b - a) - 1)"
      using ab by (simp add: diff_mult_distrib2 flip: power_add)
    ultimately show ?thesis using odd_dvd_pow2 [OF oddq] by metis
  qed
  define d where "d = (LEAST d. 0 < d \<and> q dvd 2 ^ d - 1)"
  have d: "0 < d" "q dvd 2 ^ d - 1" "d \<le> b - a"
    using LeastI [of "\<lambda>d. 0 < d \<and> q dvd 2 ^ d - 1" "b - a"] Least_le [of "\<lambda>d. 0 < d \<and> q dvd 2 ^ d - 1" "b - a"] ab ord
    by (simp_all add: d_def)
  have one: "2 ^ d mod q = 1" using d(2) q(1) mod_eq_dvd_iff_nat [of 1 "2 ^ d" q] by simp
  have "2 ^ (n mod d) mod q = 1"
  proof -
    have "2 ^ n mod q = (2 ^ d) ^ (n div d) * 2 ^ (n mod d) mod q"
      by (simp flip: power_mult power_add)
    also have "\<dots> = ((2 ^ d mod q) ^ (n div d) mod q) * 2 ^ (n mod d) mod q" by (simp add: power_mod mod_mult_left_eq)
    finally have "2 ^ n mod q = 2 ^ (n mod d) mod q" using one q(1) by simp
    moreover have "2 ^ n mod q = 1"
      using dvd_trans [OF q(2) dvd] q(1) mod_eq_dvd_iff_nat [of 1 "2 ^ n" q] by simp
    ultimately show ?thesis by simp
  qed
  then have "q dvd 2 ^ (n mod d) - 1" using q(1) mod_eq_dvd_iff_nat [of 1 "2 ^ (n mod d)" q] by simp
  then have "n mod d = 0"
    using d(1) not_less_Least [of "n mod d" "\<lambda>d. 0 < d \<and> q dvd 2 ^ d - 1"] by (auto simp: d_def)
  then have "d = 1" using least [of d] d ab by (auto simp: mod_eq_0_iff_dvd)
  then show False using d(2) q(1) by simp
qed

end
