(* ===== verification/QV_Threshold.thy ===== *)
theory QV_Threshold
  imports QV_Field QV_Lagrange QV_Crypto
begin

text \<open>
  \<open>qv-crypto/src/threshold.rs\<close>: Shamir sharing, Feldman verification, the Pedersen key generation
  round and the threshold decryption of the encrypted mempool, over the field of \<open>QV_Field\<close>.
  Error texts leave out the numbers they print. The mock participants for tests are left out.
\<close>

section \<open>Shamir sharing\<close>

record shamir_share =
  ss_index :: u32
  ss_value :: bytes

definition poly_eval :: "bytes list \<Rightarrow> bytes \<Rightarrow> bytes" where
  "poly_eval coeffs x = fold (\<lambda>coeff result. f_add (f_mul result x) coeff) (rev coeffs) f_zero"

definition sharing_coeffs :: "'z crypto_env_scheme \<Rightarrow> bytes \<Rightarrow> u32 \<Rightarrow> bytes list" where
  "sharing_coeffs E secret threshold =
     reduce_bytes secret #
     map (\<lambda>i. reduce_bytes (sha3_256 E (secret @ le_bytes 4 i))) [1..<unat threshold]"

definition split_secret ::
  "'z crypto_env_scheme \<Rightarrow> bytes \<Rightarrow> u32 \<Rightarrow> u32 \<Rightarrow> (crypto_error, shamir_share list) result" where
  "split_secret E secret threshold n =
     (if threshold = 0 \<or> n < threshold then Inl (CryptoOther ''invalid threshold/total'')
      else if 255 < n then Inl (CryptoOther ''total must be <= 255 for index space'')
      else let coefficients = sharing_coeffs E secret threshold in
        Inr (map (\<lambda>idx. \<lparr>ss_index = of_nat idx,
          ss_value = poly_eval coefficients (f_from_u32 (of_nat idx))\<rparr>) [1..<unat n + 1]))"

text \<open>The two products of the interpolation loop, over the positions other than \<open>i\<close>.\<close>

definition basis_parts :: "u32 list \<Rightarrow> nat \<Rightarrow> bytes \<times> bytes" where
  "basis_parts xs i = fold (\<lambda>j (num, den).
     if i = j then (num, den)
     else (f_mul num (f_sub f_zero (f_from_u32 (xs ! j))),
           f_mul den (f_sub (f_from_u32 (xs ! i)) (f_from_u32 (xs ! j)))))
     [0..<length xs] (f_from_u32 1, f_from_u32 1)"

definition lagrange_coeff :: "u32 list \<Rightarrow> nat \<Rightarrow> bytes" where
  "lagrange_coeff xs i = (let (num, den) = basis_parts xs i in f_mul num (f_inv den))"

text \<open>The length is compared as a 32-bit number; a slice is taken only when it is long enough.\<close>

definition reconstruct_secret :: "shamir_share list \<Rightarrow> u32 \<Rightarrow> (crypto_error, bytes) result" where
  "reconstruct_secret shares threshold =
     (if (of_nat (length shares) :: u32) < threshold then Inl (CryptoOther ''insufficient shares'')
      else let used = take (unat threshold) shares; indices = sort (map ss_index used) in
        if adjacent_equal indices then Inl (CryptoOther ''duplicate share index'')
        else if (case indices of [] \<Rightarrow> False | i # _ \<Rightarrow> i = 0)
        then Inl (CryptoOther ''share index must be non-zero'')
        else Inr (fold (\<lambda>i result. f_add result
          (f_mul (ss_value (used ! i)) (lagrange_coeff (map ss_index used) i))) [0..<length used] f_zero))"

section \<open>Feldman verification\<close>

record dkg_commitment =
  dc_value :: bytes
  dc_participant_id :: u32

record dkg_share =
  ds_recipient_id :: u32
  ds_issuer_id :: u32
  encrypted_share :: bytes

record feldman_participant =
  fp_id :: u32
  fp_threshold :: u32
  fp_total :: u32
  fp_coefficients :: "bytes list"

definition GENERATOR :: u32 where "GENERATOR = 2"

definition feldman_new :: "'z crypto_env_scheme \<Rightarrow> u32 \<Rightarrow> u32 \<Rightarrow> u32 \<Rightarrow> bytes \<Rightarrow> feldman_participant" where
  "feldman_new E i threshold n seed =
     \<lparr>fp_id = i, fp_threshold = threshold, fp_total = n,
      fp_coefficients = map (\<lambda>k. reduce_bytes (sha3_256 E
        (seed @ map (\<lambda>c. of_char c) ''feldman_coeff'' @ le_bytes 4 (unat i) @ le_bytes 4 k)))
        [0..<unat threshold]\<rparr>"

text \<open>\<open>None\<close> is the index panic on an empty coefficient list.\<close>

definition fp_secret :: "feldman_participant \<Rightarrow> bytes option" where
  "fp_secret p = (case fp_coefficients p of [] \<Rightarrow> None | a0 # _ \<Rightarrow> Some a0)"

definition evaluate_at :: "feldman_participant \<Rightarrow> bytes \<Rightarrow> bytes" where
  "evaluate_at p x = poly_eval (fp_coefficients p) x"

definition compute_commitments :: "feldman_participant \<Rightarrow> bytes list" where
  "compute_commitments p = map (f_pow (f_from_u32 GENERATOR)) (fp_coefficients p)"

definition compute_shares :: "feldman_participant \<Rightarrow> dkg_share list" where
  "compute_shares p = map (\<lambda>j. \<lparr>ds_recipient_id = of_nat j, ds_issuer_id = fp_id p,
     encrypted_share = evaluate_at p (f_from_u32 (of_nat j + 1))\<rparr>)
     (filter (\<lambda>j. of_nat j \<noteq> fp_id p) [0..<unat (fp_total p)])"

definition verify_share_against_commitments :: "dkg_share \<Rightarrow> bytes list \<Rightarrow> bool" where
  "verify_share_against_commitments share issuer_commitments =
     (let lhs = f_pow (f_from_u32 GENERATOR) (encrypted_share share);
          j = f_from_u32 (ds_recipient_id share + 1);
          (rhs, _) = fold (\<lambda>c (rhs, j_power). (f_mul rhs (f_pow c j_power), f_mul j_power j))
            issuer_commitments (f_from_u32 1, f_from_u32 1)
      in lhs = rhs)"

definition generate_commitment :: "feldman_participant \<Rightarrow> dkg_commitment option" where
  "generate_commitment p = map_option (\<lambda>a0. \<lparr>dc_value = f_pow (f_from_u32 GENERATOR) a0,
     dc_participant_id = fp_id p\<rparr>) (fp_secret p)"

definition verify_share :: "dkg_share \<Rightarrow> dkg_commitment \<Rightarrow> bool" where
  "verify_share share commitment \<longleftrightarrow>
     f_pow (f_from_u32 GENERATOR) (encrypted_share share) =
     f_pow (dc_value commitment) (f_from_u32 (ds_recipient_id share + 1))"

definition derive_public_key :: "dkg_commitment list \<Rightarrow> bytes" where
  "derive_public_key commitments = fold (\<lambda>c agg. f_mul agg (dc_value c)) commitments (f_from_u32 1)"

section \<open>The key generation round\<close>

record dkg_result =
  dr_public_key :: bytes
  dr_participant_shares :: "shamir_share list"

fun verify_round ::
  "nat \<Rightarrow> (bytes list \<times> dkg_share) list \<Rightarrow> (crypto_error, unit) result option" where
  "verify_round n [] = Some (Inr ())"
| "verify_round n ((commitments, share) # rest) =
     (if n \<le> unat (ds_recipient_id share) then None
      else if \<not> verify_share_against_commitments share commitments
      then Some (Inl (CryptoOther ''share verification failed''))
      else verify_round n rest)"

definition aggregate_shares :: "feldman_participant list \<Rightarrow> shamir_share list" where
  "aggregate_shares ps = map (\<lambda>j. \<lparr>ss_index = of_nat j + 1,
     ss_value = fold (\<lambda>p agg. f_add agg (evaluate_at p (f_from_u32 (of_nat j + 1)))) ps f_zero\<rparr>)
     [0..<length ps]"

definition run_pedersen_dkg :: "feldman_participant list \<Rightarrow> (crypto_error, dkg_result) result option" where
  "run_pedersen_dkg ps =
     (if length ps < 2 then Some (Inl (CryptoOther ''DKG requires at least 2 participants''))
      else case verify_round (length ps)
          (concat (map (\<lambda>p. map (Pair (compute_commitments p)) (compute_shares p)) ps)) of
        None \<Rightarrow> None
      | Some (Inl e) \<Rightarrow> Some (Inl e)
      | Some (Inr _) \<Rightarrow>
          if \<exists>p \<in> set ps. fp_coefficients p = [] then None
          else let aggregate_pk = fold (\<lambda>p agg. f_mul agg (compute_commitments p ! 0)) ps (f_from_u32 1);
                   total_secret = fold (\<lambda>p agg. f_add agg (fp_coefficients p ! 0)) ps f_zero in
            if aggregate_pk \<noteq> f_pow (f_from_u32 GENERATOR) total_secret
            then Some (Inl (CryptoOther ''aggregate public key mismatch''))
            else Some (Inr \<lparr>dr_public_key = aggregate_pk, dr_participant_shares = aggregate_shares ps\<rparr>))"

section \<open>Threshold decryption\<close>

record decryption_share =
  de_participant_id :: u32
  share_data :: bytes

record dkg_decryptor =
  dd_participant_index :: u32
  dd_key_share :: bytes
  dd_threshold :: u32

definition xor_bytes :: "bytes \<Rightarrow> bytes \<Rightarrow> bytes" where
  "xor_bytes a b = map2 (XOR) a b"

definition dkg_encrypt :: "'z crypto_env_scheme \<Rightarrow> bytes \<Rightarrow> bytes \<Rightarrow> bytes \<Rightarrow> bytes" where
  "dkg_encrypt E public_key message randomness =
     (let r = reduce_bytes randomness; c1 = f_pow (f_from_u32 GENERATOR) r;
          mask = sha3_256 E (f_pow public_key r)
      in c1 @ xor_bytes message mask)"

definition create_decryption_share ::
  "dkg_decryptor \<Rightarrow> bytes \<Rightarrow> (crypto_error, decryption_share) result" where
  "create_decryption_share d ciphertext =
     (if length ciphertext < 32 then Inl (CryptoOther ''ciphertext too short (need at least 32 bytes for C1)'')
      else Inr \<lparr>de_participant_id = dd_participant_index d,
        share_data = f_pow (take 32 ciphertext) (dd_key_share d)\<rparr>)"

definition combine_shares :: "decryption_share list \<Rightarrow> u32 \<Rightarrow> (crypto_error, bytes) result" where
  "combine_shares shares threshold =
     (if (of_nat (length shares) :: u32) < threshold then Inl (CryptoOther ''insufficient shares'')
      else let used = take (unat threshold) shares in
        Inr (fold (\<lambda>i combined.
          let d_i = (if 32 \<le> length (share_data (used ! i)) then take 32 (share_data (used ! i)) else replicate 32 0)
          in f_mul combined (f_pow d_i (lagrange_coeff (map de_participant_id used) i)))
          [0..<length used] (f_from_u32 1)))"

section \<open>Polynomials and interpolation\<close>

abbreviation iv :: "bytes \<Rightarrow> int" where "iv a \<equiv> int (fval a)"

lemma iv_add: "el a \<Longrightarrow> el b \<Longrightarrow> iv (f_add a b) = (iv a + iv b) mod int field_prime"
  using el_add [of a b] by (simp add: zmod_int)

lemma iv_mul: "el a \<Longrightarrow> el b \<Longrightarrow> iv (f_mul a b) = (iv a * iv b) mod int field_prime"
  using el_mul [of a b] by (simp add: zmod_int)

lemma iv_sub: "el a \<Longrightarrow> el b \<Longrightarrow> iv (f_sub a b) = (iv a - iv b) mod int field_prime"
  using el_sub [of a b] by simp

lemmas el_ops = conjunct1 [OF el_add] conjunct1 [OF el_mul] conjunct1 [OF el_sub] el_zero(1) el_from_u32(1)

lemma poly_eval_val:
  assumes "\<forall>c \<in> set cs. el c" and "el x"
  shows "el (poly_eval cs x) \<and> iv (poly_eval cs x) = ev (map iv cs) (iv x) mod int field_prime"
  using assms(1)
proof (induction cs)
  case Nil
  then show ?case by (simp add: poly_eval_def el_zero)
next
  case (Cons c cs)
  have eq: "poly_eval (c # cs) x = f_add (f_mul (poly_eval cs x) x) c" by (simp add: poly_eval_def)
  have IH: "el (poly_eval cs x)" "iv (poly_eval cs x) = ev (map iv cs) (iv x) mod int field_prime" using Cons by simp_all
  then have "iv (poly_eval (c # cs) x) = ((ev (map iv cs) (iv x) mod int field_prime) * iv x mod int field_prime + iv c) mod int field_prime"
    using Cons.prems assms(2) by (simp add: eq iv_add iv_mul el_ops)
  also have "\<dots> = (ev (map iv cs) (iv x) * iv x + iv c) mod int field_prime" by (simp add: mod_simps)
  finally show ?case using Cons.prems assms(2) IH(1) by (simp add: eq el_ops algebra_simps)
qed

lemma basis_parts_val:
  assumes "basis_parts xs i = (num, den)" and i: "i < length xs"
  shows "el num \<and> el den \<and>
    iv num = (\<Prod>j \<in> {..<length xs} - {i}. - int (unat (xs ! j))) mod int field_prime \<and>
    iv den = (\<Prod>j \<in> {..<length xs} - {i}. int (unat (xs ! i)) - int (unat (xs ! j))) mod int field_prime"
proof -
  define step where "step j = (\<lambda>(num, den). if i = j then (num, den)
     else (f_mul num (f_sub f_zero (f_from_u32 (xs ! j))),
           f_mul den (f_sub (f_from_u32 (xs ! i)) (f_from_u32 (xs ! j)))))" for j
  have gen: "fold step [0..<k] (f_from_u32 1, f_from_u32 1) = (num, den) \<Longrightarrow> el num \<and> el den \<and>
    iv num = (\<Prod>j \<in> {..<k} - {i}. - int (unat (xs ! j))) mod int field_prime \<and>
    iv den = (\<Prod>j \<in> {..<k} - {i}. int (unat (xs ! i)) - int (unat (xs ! j))) mod int field_prime" for k num den
  proof (induction k arbitrary: num den)
    case 0
    then show ?case using P_gt by (auto simp: el_from_u32)
  next
    case (Suc k)
    obtain n d where prev: "fold step [0..<k] (f_from_u32 1, f_from_u32 1) = (n, d)"
      by (cases "fold step [0..<k] (f_from_u32 1, f_from_u32 1)")
    note IH = Suc.IH [OF prev]
    have now: "(num, den) = step k (n, d)" using Suc.prems prev by simp
    show ?case
    proof (cases "i = k")
      case True
      then have "{..<Suc k} - {i} = {..<k} - {i}" by auto
      then show ?thesis using IH now True by (simp add: step_def)
    next
      case False
      then have "{..<Suc k} - {i} = insert k ({..<k} - {i})" by auto
      then show ?thesis
        using IH now False
        by (simp add: step_def el_ops iv_mul iv_sub el_zero el_from_u32 mod_simps mult.commute)
    qed
  qed
  show ?thesis
    using gen [of "length xs" num den] assms(1) by (simp add: basis_parts_def step_def [abs_def])
qed

text \<open>The inversions the interpolation performs succeed.\<close>

definition invertible :: "u32 list \<Rightarrow> bool" where
  "invertible xs \<longleftrightarrow> (\<forall>i < length xs. case basis_parts xs i of (num, den) \<Rightarrow> fval den * fval (f_inv den) mod field_prime = 1)"

lemma lagrange_coeff_val:
  assumes "invertible xs" and i: "i < length xs" and u: "u = iv (f_inv (snd (basis_parts xs i)))"
  shows "el (lagrange_coeff xs i)"
    and "iv (lagrange_coeff xs i) = (\<Prod>j \<in> {..<length xs} - {i}. - int (unat (xs ! j))) * u mod int field_prime"
    and "(\<Prod>j \<in> {..<length xs} - {i}. int (unat (xs ! i)) - int (unat (xs ! j))) * u mod int field_prime = 1"
proof -
  obtain num den where b: "basis_parts xs i = (num, den)" by (cases "basis_parts xs i")
  note v = basis_parts_val [OF b i]
  have inv: "el (f_inv den)" using el_inv [of den] v by (simp add: el_def)
  have "fval den * fval (f_inv den) mod field_prime = 1" using assms(1) i b by (auto simp: invertible_def)
  then have "iv den * iv (f_inv den) mod int field_prime = 1" by (metis of_nat_1 of_nat_mult zmod_int)
  then show "(\<Prod>j \<in> {..<length xs} - {i}. int (unat (xs ! i)) - int (unat (xs ! j))) * u mod int field_prime = 1"
    using v by (simp add: u b mod_mult_left_eq)
  show "iv (lagrange_coeff xs i) = (\<Prod>j \<in> {..<length xs} - {i}. - int (unat (xs ! j))) * u mod int field_prime"
    using v inv by (simp add: u lagrange_coeff_def b iv_mul mod_mult_left_eq)
  show "el (lagrange_coeff xs i)" using v inv by (simp add: lagrange_coeff_def b el_ops)
qed

section \<open>Sharing and reconstructing\<close>

lemma weighted_sum_val:
  assumes "\<And>i. i < n \<Longrightarrow> el (y i) \<and> el (c i)"
  shows "el (fold (\<lambda>i result. f_add result (f_mul (y i) (c i))) [0..<n] f_zero) \<and>
    iv (fold (\<lambda>i result. f_add result (f_mul (y i) (c i))) [0..<n] f_zero) = (\<Sum>i < n. iv (y i) * iv (c i)) mod int field_prime"
  using assms
proof (induction n)
  case 0
  then show ?case by (simp add: el_zero)
next
  case (Suc n)
  then show ?case by (simp add: el_ops iv_add iv_mul mod_simps)
qed

lemma sum_mult_mod: "(\<Sum>i \<in> A. (f i mod p) * (g i mod p)) mod p = (\<Sum>i \<in> A. f i * g i) mod (p :: int)"
proof -
  have "(\<Sum>i \<in> A. (f i mod p) * (g i mod p)) mod p = (\<Sum>i \<in> A. (f i mod p) * (g i mod p) mod p) mod p"
    by (rule mod_sum_eq [symmetric])
  also have "\<dots> = (\<Sum>i \<in> A. f i * g i mod p) mod p" by (simp only: mod_mult_eq)
  finally show ?thesis by (simp only: mod_sum_eq)
qed

lemma interpolation:
  assumes inv: "invertible xs" and t: "length xs = length cs" "cs \<noteq> []" and cs: "\<forall>c \<in> set cs. el c"
  shows "(\<Sum>i < length xs. iv (poly_eval cs (f_from_u32 (xs ! i))) * iv (lagrange_coeff xs i)) mod int field_prime =
    iv (hd cs)"
proof -
  let ?n = "length xs" and ?x = "\<lambda>i. int (unat (xs ! i))" and ?f = "ev (map iv cs)"
  define u where "u i = iv (f_inv (snd (basis_parts xs i)))" for i
  note L = lagrange_coeff_val(2,3) [OF inv _ u_def]
  have "(\<Sum>i < ?n. iv (poly_eval cs (f_from_u32 (xs ! i))) * iv (lagrange_coeff xs i)) mod int field_prime =
      (\<Sum>i < ?n. (?f (?x i) mod int field_prime) * ((\<Prod>j \<in> {..<?n} - {i}. - ?x j) * u i mod int field_prime)) mod int field_prime"
    using poly_eval_val [OF cs el_from_u32(1)] L(1) by (simp add: el_from_u32)
  also have "\<dots> = (\<Sum>i < ?n. ?f (?x i) * ((\<Prod>j \<in> {..<?n} - {i}. - ?x j) * u i)) mod int field_prime"
    by (rule sum_mult_mod)
  also have "\<dots> = ?f 0 mod int field_prime"
    using lagrange_at_zero [of "map ?x [0..<?n]" ?n "map iv cs" "int field_prime" u] t L(2) P_gt by simp
  also have "\<dots> = iv (hd cs)" using t cs by (cases cs) (simp_all add: el_def)
  finally show ?thesis .
qed

lemma reconstruct_ok:
  assumes "length used = unat t" and "distinct (map ss_index used)" and "0 \<notin> set (map ss_index used)"
  shows "reconstruct_secret used t = Inr (fold (\<lambda>i result. f_add result
    (f_mul (ss_value (used ! i)) (lagrange_coeff (map ss_index used) i))) [0..<length used] f_zero)"
proof -
  have "\<not> adjacent_equal (sort (map ss_index used))"
    using assms(2) adjacent_equal_sorted [of "sort (map ss_index used)"] by simp
  moreover have "set (sort (map ss_index used)) = set (map ss_index used)" by simp
  then have "\<not> (case sort (map ss_index used) of [] \<Rightarrow> False | i # _ \<Rightarrow> i = 0)"
    using assms(3) by (cases "sort (map ss_index used)") auto
  ultimately show ?thesis using assms(1) by (simp add: reconstruct_secret_def)
qed

lemma sharing_coeffs_el:
  assumes "length secret = 32" and "\<And>x. length (sha3_256 E x) = 32" and "0 < t"
  shows "\<forall>c \<in> set (sharing_coeffs E secret t). el c" "length (sharing_coeffs E secret t) = unat t"
proof -
  have "0 < unat t" using assms(3) by (simp add: unat_gt_0 word_gt_0)
  then show "\<forall>c \<in> set (sharing_coeffs E secret t). el c" "length (sharing_coeffs E secret t) = unat t"
    using el_reduce [OF assms(1)] el_reduce [OF assms(2)] by (auto simp: sharing_coeffs_def)
qed


section \<open>Powers of the generator\<close>

lemma gen_pow: "el (f_pow (f_from_u32 GENERATOR) e) \<and> fval (f_pow (f_from_u32 GENERATOR) e) = 2 ^ fval e mod field_prime"
  using f_pow_val [of "f_from_u32 GENERATOR" e] el_from_u32 [of GENERATOR] by (simp add: el_def GENERATOR_def)

text \<open>
  The exponents live modulo \<open>field_prime\<close> in the code but the powers of two do not: raising to a sum that
  wraps gives another group element.
\<close>

lemma pow2_wrap:
  assumes "field_prime \<le> s" and "s < 2 * field_prime"
  shows "2 ^ (s mod field_prime) mod field_prime \<noteq> 2 ^ s mod field_prime"
proof
  assume eq: "2 ^ (s mod field_prime) mod field_prime = 2 ^ s mod field_prime"
  have s: "s mod field_prime = s - field_prime" using assms by (simp add: le_mod_geq)
  have oddP: "odd field_prime" by (simp add: field_prime_def)
  have "field_prime dvd 2 ^ s - 2 ^ (s - field_prime)" using eq s by (metis diff_le_self mod_eq_dvd_iff_nat one_le_numeral power_increasing)
  moreover have "2 ^ s - 2 ^ (s - field_prime) = (2 :: nat) ^ (s - field_prime) * (2 ^ field_prime - 1)"
    using assms by (simp add: diff_mult_distrib2 flip: power_add)
  ultimately have "field_prime dvd 2 ^ field_prime - 1" using odd_dvd_pow2 [OF oddP] by metis
  then show False using pow2_not_one [OF oddP] P_gt by simp
qed

text \<open>What the verifier compares: the exponent as a plain sum.\<close>

primrec plain_exp :: "nat \<Rightarrow> nat \<Rightarrow> bytes list \<Rightarrow> nat" where
  "plain_exp j jp [] = 0"
| "plain_exp j jp (c # cs) = fval c * jp + plain_exp j (jp * j mod field_prime) cs"

lemma verify_rhs:
  assumes "el r" and "el jp" and "el j"
    and "fold (\<lambda>c (rhs, j_power). (f_mul rhs (f_pow c j_power), f_mul j_power j))
      (map (f_pow (f_from_u32 GENERATOR)) cs) (r, jp) = (rhs, jq)"
  shows "el rhs \<and> fval rhs = fval r * 2 ^ plain_exp (fval j) (fval jp) cs mod field_prime"
  using assms
proof (induction cs arbitrary: r jp)
  case Nil
  then show ?case by (simp add: el_def)
next
  case (Cons c cs)
  let ?C = "f_pow (f_from_u32 GENERATOR) c"
  let ?r = "f_mul r (f_pow ?C jp)" and ?jp = "f_mul jp j"
  have C: "el (f_pow ?C jp)" "fval (f_pow ?C jp) = (2 ^ fval c mod field_prime) ^ fval jp mod field_prime"
    using f_pow_val [of ?C jp] gen_pow [of c] by (simp_all add: el_def)
  have r: "el ?r" "fval ?r = fval r * ((2 ^ fval c mod field_prime) ^ fval jp mod field_prime) mod field_prime"
    using el_mul [OF Cons.prems(1) C(1)] C(2) by simp_all
  have jp: "el ?jp" "fval ?jp = fval jp * fval j mod field_prime" using el_mul [OF Cons.prems(2,3)] by simp_all
  have "el rhs \<and> fval rhs = fval ?r * 2 ^ plain_exp (fval j) (fval ?jp) cs mod field_prime"
    using Cons.IH [OF r(1) jp(1) Cons.prems(3)] Cons.prems(4) by simp
  then show ?case
    by (simp add: r jp power_mod mod_mult_left_eq mod_mult_right_eq power_add power_mult mult.assoc)
qed

lemma plain_exp_ev: "int (plain_exp j jp cs) mod int field_prime = int jp * ev (map iv cs) (int j) mod int field_prime"
proof (induction cs arbitrary: jp)
  case (Cons c cs)
  have "int (plain_exp j jp (c # cs)) mod int field_prime = (iv c * int jp + int (plain_exp j (jp * j mod field_prime) cs) mod int field_prime) mod int field_prime"
    by (simp add: mod_add_right_eq)
  also have "\<dots> = (iv c * int jp + int jp * int j * ev (map iv cs) (int j)) mod int field_prime"
    by (simp add: Cons zmod_int mod_simps)
  finally show ?case by (simp add: algebra_simps)
qed simp

text \<open>
  C29. An honest share is refused when its exponent wraps. The verifier compares \<open>2^share\<close> with a
  product of powers whose exponents add up without reduction, while the share was reduced modulo the
  prime. When the unreduced exponent is below the prime the honest share passes; when it is one
  wrap above, the honest share is always refused.
\<close>

theorem feldman_honest_share:
  assumes cs: "\<forall>c \<in> set (fp_coefficients p). el c"
    and sh: "encrypted_share sh = evaluate_at p (f_from_u32 (ds_recipient_id sh + 1))"
    and v: "v = plain_exp (unat (ds_recipient_id sh + 1)) 1 (fp_coefficients p)" "v < 2 * field_prime"
  shows "verify_share_against_commitments sh (compute_commitments p) \<longleftrightarrow> v < field_prime"
proof -
  let ?j = "f_from_u32 (ds_recipient_id sh + 1)"
  obtain rhs jq where f: "fold (\<lambda>c (rhs, j_power). (f_mul rhs (f_pow c j_power), f_mul j_power ?j))
      (compute_commitments p) (f_from_u32 1, f_from_u32 1) = (rhs, jq)"
    by (cases "fold (\<lambda>c (rhs, j_power). (f_mul rhs (f_pow c j_power), f_mul j_power ?j))
      (compute_commitments p) (f_from_u32 1, f_from_u32 1)")
  have rhs: "el rhs" "fval rhs = 2 ^ v mod field_prime"
    using verify_rhs [OF _ _ _ f [unfolded compute_commitments_def]] v(1) by (simp_all add: el_from_u32)
  have "iv (encrypted_share sh) = int v mod int field_prime"
    using poly_eval_val [OF cs el_from_u32(1)] plain_exp_ev [of _ 1 "fp_coefficients p"] v(1)
    by (simp add: sh evaluate_at_def el_from_u32)
  then have share: "fval (encrypted_share sh) = v mod field_prime" by (metis of_nat_eq_iff zmod_int)
  have "verify_share_against_commitments sh (compute_commitments p) \<longleftrightarrow> 2 ^ (v mod field_prime) mod field_prime = 2 ^ v mod field_prime"
    using gen_pow [of "encrypted_share sh"] rhs fval_inj
    by (simp add: verify_share_against_commitments_def f share) metis
  then show ?thesis using pow2_wrap [of v] v(2) by (cases "v < field_prime") auto
qed

lemma aggregate_vals:
  assumes "\<forall>p \<in> set ps. fp_coefficients p \<noteq> [] \<and> el (fp_coefficients p ! 0)" and "el a" and "el b"
  shows "el (fold (\<lambda>p agg. f_mul agg (compute_commitments p ! 0)) ps a) \<and>
    fval (fold (\<lambda>p agg. f_mul agg (compute_commitments p ! 0)) ps a) =
      fval a * 2 ^ (\<Sum>p \<leftarrow> ps. fval (fp_coefficients p ! 0)) mod field_prime"
    and "el (fold (\<lambda>p agg. f_add agg (fp_coefficients p ! 0)) ps b) \<and>
    fval (fold (\<lambda>p agg. f_add agg (fp_coefficients p ! 0)) ps b) =
      (fval b + (\<Sum>p \<leftarrow> ps. fval (fp_coefficients p ! 0))) mod field_prime"
  using assms
proof (induction ps arbitrary: a b)
  case Nil
  {
    case 1
    then show ?case by (simp add: el_def)
  next
    case 2
    then show ?case by (simp add: el_def)
  }
next
  case (Cons p ps)
  {
    case 1
    have c: "compute_commitments p ! 0 = f_pow (f_from_u32 GENERATOR) (fp_coefficients p ! 0)"
      using 1 by (cases "fp_coefficients p") (simp_all add: compute_commitments_def)
    then have "el (f_mul a (compute_commitments p ! 0))"
      "fval (f_mul a (compute_commitments p ! 0)) = fval a * (2 ^ fval (fp_coefficients p ! 0) mod field_prime) mod field_prime"
      using el_mul [OF 1(2), of "compute_commitments p ! 0"] gen_pow by simp_all
    with Cons.IH(1) [of "f_mul a (compute_commitments p ! 0)" b] 1 show ?case
      by (simp add: mod_mult_left_eq mod_mult_right_eq power_add mult.assoc)
  next
    case 2
    have "el (f_add b (fp_coefficients p ! 0))"
      "fval (f_add b (fp_coefficients p ! 0)) = (fval b + fval (fp_coefficients p ! 0)) mod field_prime"
      using el_add [OF 2(3), of "fp_coefficients p ! 0"] 2 by simp_all
    with Cons.IH(2) [of a "f_add b (fp_coefficients p ! 0)"] 2 show ?case
      by (simp add: mod_add_left_eq add.assoc)
  }
qed

text \<open>
  C30. Key generation aborts when the secrets wrap. The round multiplies the commitments to the
  participants' secrets, an unreduced sum in the exponent, and compares with the power of the sum
  reduced modulo the prime: when the secrets of honest participants add up to one wrap above the
  prime, the round never returns a key.
\<close>

theorem dkg_aborts_on_wrap:
  assumes ps: "\<forall>p \<in> set ps. fp_coefficients p \<noteq> [] \<and> el (fp_coefficients p ! 0)"
    and total: "total_sum = (\<Sum>p \<leftarrow> ps. fval (fp_coefficients p ! 0))" "field_prime \<le> total_sum" "total_sum < 2 * field_prime"
  shows "\<not> (\<exists>res. run_pedersen_dkg ps = Some (Inr res))"
proof -
  let ?agg = "fold (\<lambda>p agg. f_mul agg (compute_commitments p ! 0)) ps (f_from_u32 1)"
  let ?sec = "fold (\<lambda>p agg. f_add agg (fp_coefficients p ! 0)) ps f_zero"
  have "fval ?agg = 2 ^ total_sum mod field_prime" "fval ?sec = total_sum mod field_prime"
    using aggregate_vals [OF ps el_from_u32(1) el_zero(1)] by (simp_all add: el_from_u32 el_zero total(1))
  then have "fval ?agg \<noteq> fval (f_pow (f_from_u32 GENERATOR) ?sec)"
    using gen_pow [of ?sec] pow2_wrap [OF total(2,3)] by simp
  then have "?agg \<noteq> f_pow (f_from_u32 GENERATOR) ?sec" by metis
  then show ?thesis by (auto simp: run_pedersen_dkg_def Let_def split: option.splits sum.splits if_splits)
qed

section \<open>Decryption\<close>

lemma combined_val:
  assumes "\<And>i. i < n \<Longrightarrow> length (d i) = 32 \<and> fval (d i) = 2 ^ (r * k i) mod field_prime"
  shows "el (fold (\<lambda>i combined. f_mul combined (f_pow (d i) (c i))) [0..<n] (f_from_u32 1)) \<and>
    fval (fold (\<lambda>i combined. f_mul combined (f_pow (d i) (c i))) [0..<n] (f_from_u32 1)) =
      2 ^ (r * (\<Sum>i < n. k i * fval (c i))) mod field_prime"
  using assms
proof (induction n)
  case 0
  then show ?case using P_gt by (simp add: el_from_u32)
next
  case (Suc n)
  have p: "el (f_pow (d n) (c n))" "fval (f_pow (d n) (c n)) = (2 ^ (r * k n) mod field_prime) ^ fval (c n) mod field_prime"
    using f_pow_val [of "d n" "c n"] Suc.prems [of n] by simp_all
  show ?case
    using Suc.IH Suc.prems el_mul [OF _ p(1)] p(2)
    by (simp add: power_mod mod_mult_left_eq mod_mult_right_eq power_mult [symmetric] power_add [symmetric]
        distrib_left mult.assoc)
qed

lemma xor_bytes_twice: "length b = length a \<Longrightarrow> xor_bytes (xor_bytes a b) b = a"
proof (induction a b rule: list_induct2')
  case (4 x xs y ys)
  have "(x XOR y) XOR y = x" by (simp add: xor.assoc)
  then show ?case using 4 by (simp add: xor_bytes_def)
qed (simp_all add: xor_bytes_def)

lemma combine_opens:
  assumes pk: "length pk = 32" "fval pk = 2 ^ s mod field_prime"
    and c1: "take 32 ct = f_pow (f_from_u32 GENERATOR) (reduce_bytes r)" "32 \<le> length ct"
    and shares: "length shares = unat t" "xs = map de_participant_id shares"
      "\<And>i. i < length shares \<Longrightarrow> create_decryption_share (ds ! i) ct = Inr (shares ! i)"
    and plain: "(\<Sum>i < length shares. fval (dd_key_share (ds ! i)) * fval (lagrange_coeff xs i)) = s"
  shows "combine_shares shares t = Inr (f_pow pk (reduce_bytes r))"
proof -
  let ?r = "fval (reduce_bytes r)" and ?c1 = "f_pow (f_from_u32 GENERATOR) (reduce_bytes r)"
  define d where "d i = share_data (shares ! i)" for i
  have d: "length (d i) = 32 \<and> fval (d i) = 2 ^ (?r * fval (dd_key_share (ds ! i))) mod field_prime"
    if "i < length shares" for i
  proof -
    have "d i = f_pow ?c1 (dd_key_share (ds ! i))"
      using arg_cong [OF shares(3) [OF that], of "\<lambda>r. case r of Inl _ \<Rightarrow> [] | Inr x \<Rightarrow> share_data x"] c1
      by (simp add: create_decryption_share_def d_def)
    then show ?thesis
      using f_pow_val [of ?c1 "dd_key_share (ds ! i)"] gen_pow [of "reduce_bytes r"]
      by (simp add: el_def power_mod power_mult)
  qed
  let ?D = "fold (\<lambda>i combined. f_mul combined (f_pow (d i) (lagrange_coeff xs i))) [0..<length shares] (f_from_u32 1)"
  have D: "el ?D" "fval ?D = 2 ^ (?r * s) mod field_prime"
    using combined_val [where d = d and n = "length shares" and r = ?r and k = "\<lambda>i. fval (dd_key_share (ds ! i))"
        and c = "lagrange_coeff xs", OF d] plain by simp_all
  have "fval (f_pow pk (reduce_bytes r)) = 2 ^ (?r * s) mod field_prime" "el (f_pow pk (reduce_bytes r))"
    using f_pow_val [OF pk(1), of "reduce_bytes r"] pk(2) by (simp_all add: power_mod power_mult mult.commute)
  then have "?D = f_pow pk (reduce_bytes r)" using D by (intro fval_inj) simp_all
  moreover have "combine_shares shares t = Inr ?D"
    unfolding combine_shares_def shares(2) d_def Let_def
    using shares(1) d by (auto simp: d_def intro!: fold_cong)
  ultimately show ?thesis by simp
qed

text \<open>
  C1. The committee decrypts when the interpolated exponent does not wrap. A message encrypted to the
  key \<open>2^s\<close> is recovered from the shares of \<open>threshold\<close> members whose key shares, weighted by their
  interpolation coefficients, add up to \<open>s\<close> without reduction modulo the prime.
\<close>

theorem threshold_decrypts:
  assumes pk: "length pk = 32" "fval pk = 2 ^ s mod field_prime" and len: "length m = 32" "\<And>x. length (sha3_256 E x) = 32"
    and shares: "length shares = unat t" "xs = map de_participant_id shares"
      "\<And>i. i < length shares \<Longrightarrow> create_decryption_share (ds ! i) (dkg_encrypt E pk m r) = Inr (shares ! i)"
    and plain: "(\<Sum>i < length shares. fval (dd_key_share (ds ! i)) * fval (lagrange_coeff xs i)) = s"
  shows "\<exists>D. combine_shares shares t = Inr D \<and>
    xor_bytes (drop 32 (dkg_encrypt E pk m r)) (sha3_256 E D) = m"
proof -
  let ?ct = "dkg_encrypt E pk m r"
  have c1: "take 32 ?ct = f_pow (f_from_u32 GENERATOR) (reduce_bytes r)" "32 \<le> length ?ct"
    "drop 32 ?ct = xor_bytes m (sha3_256 E (f_pow pk (reduce_bytes r)))"
    using gen_pow [of "reduce_bytes r"] by (simp_all add: dkg_encrypt_def el_def Let_def)
  show ?thesis
    using combine_opens [OF pk c1(1,2) shares plain] c1(3) len
      xor_bytes_twice [of "sha3_256 E (f_pow pk (reduce_bytes r))" m] by simp
qed

section \<open>Concrete rounds\<close>

text \<open>A hash that returns the first 32 bytes, padded: enough to run the protocols.\<close>

definition pad_env :: crypto_env where
  "pad_env = \<lparr>sha3_256 = (\<lambda>x. take 32 (x @ replicate 32 0)),
     blake3_256 = (\<lambda>x. take 32 (x @ replicate 32 0)), mldsa_pk_len = (\<lambda>l. 0), mldsa_sig_len = (\<lambda>l. 0),
     mldsa_verify = (\<lambda>l pk m s. False)\<rparr>"

lemma pad_env_len: "length (sha3_256 pad_env x) = 32"
  by (simp add: pad_env_def)

lemma minus_one_self_inverse: "(field_prime - 1) * ((field_prime - 1) ^ (field_prime - 2) mod field_prime) mod field_prime = 1"
proof -
  have "int ((field_prime - 1) ^ (field_prime - 2) * (field_prime - 1)) mod int field_prime = (int field_prime - 1) ^ (field_prime - 1) mod int field_prime"
    using P_gt by (simp add: of_nat_diff Suc_diff_Suc numeral_2_eq_2 flip: power_Suc2)
  also have "\<dots> = ((int field_prime - 1) mod int field_prime) ^ (field_prime - 1) mod int field_prime" by (rule power_mod [symmetric])
  also have "(int field_prime - 1) mod int field_prime = (- 1) mod int field_prime" by (metis diff_0 mod_self mod_diff_left_eq)
  also have "((- 1) mod int field_prime) ^ (field_prime - 1) mod int field_prime = 1"
    using P_gt by (simp add: power_mod) (simp add: field_prime_def)
  finally have "int ((field_prime - 1) ^ (field_prime - 2) * (field_prime - 1) mod field_prime) = 1" by (simp add: zmod_int)
  then show ?thesis by (simp add: mod_mult_right_eq mult.commute)
qed

lemma invertible_2_1: "invertible [2, 1]"
  unfolding invertible_def
proof (intro allI impI)
  fix i assume i: "i < length [2, 1 :: u32]"
  obtain num den where b: "basis_parts [2, 1] i = (num, den)" by (cases "basis_parts [2, 1] i")
  note v = basis_parts_val [OF b i]
  have inv: "fval (f_inv den) = fval den ^ (field_prime - 2) mod field_prime" using el_inv [of den] v by (simp add: el_def)
  consider "i = 0" | "i = 1" using i by force
  then have "fval den = 1 \<or> fval den = field_prime - 1"
  proof cases
    case 1
    then have "{..<length [2, 1 :: u32]} - {i} = {1}" by auto
    then have "iv den = 1" using v 1 P_gt by simp
    then show ?thesis by simp
  next
    case 2
    then have "{..<length [2, 1 :: u32]} - {i} = {0}" by auto
    then have "iv den = (- 1) mod int field_prime" using v 2 by simp
    then have "iv den = int field_prime - 1" using P_gt by (simp add: zmod_minus1)
    then show ?thesis using P_gt by linarith
  qed
  then have "fval den * fval (f_inv den) mod field_prime = 1"
    using inv minus_one_self_inverse P_gt by auto
  then show "case basis_parts [2, 1] i of (num, den) \<Rightarrow> fval den * fval (f_inv den) mod field_prime = 1" by (simp add: b)
qed


text \<open>The largest field element, as a constant polynomial.\<close>

definition top_participant :: "u32 \<Rightarrow> feldman_participant" where
  "top_participant i = \<lparr>fp_id = i, fp_threshold = 1, fp_total = 2, fp_coefficients = [field_P[31 := 0x42]]\<rparr>"

lemma top_el: "el (field_P[31 := 0x42])" "fval (field_P[31 := 0x42]) = field_prime - 1"
  using field_P_val [of "0x42"] by (simp_all only: field_P_bytes(1) el_def) (simp_all add: field_prime_def)

theorem feldman_honest_share_witness:
  "verify_share_against_commitments
     \<lparr>ds_recipient_id = 1, ds_issuer_id = 0, encrypted_share = evaluate_at (top_participant 0) (f_from_u32 2)\<rparr>
     (compute_commitments (top_participant 0)) \<and>
   \<not> verify_share_against_commitments
     \<lparr>ds_recipient_id = 1, ds_issuer_id = 0,
      encrypted_share = evaluate_at ((top_participant 0)\<lparr>fp_coefficients := [field_P[31 := 0x42], f_from_u32 1]\<rparr>) (f_from_u32 2)\<rparr>
     (compute_commitments ((top_participant 0)\<lparr>fp_coefficients := [field_P[31 := 0x42], f_from_u32 1]\<rparr>))"
    (is "verify_share_against_commitments ?s1 _ \<and> \<not> verify_share_against_commitments ?s2 (compute_commitments ?p)")
  using feldman_honest_share [of "top_participant 0" ?s1 "field_prime - 1"] feldman_honest_share [of ?p ?s2 "field_prime + 1"]
    top_el el_from_u32 [of 1] P_gt
  by (auto simp: top_participant_def)

theorem dkg_aborts_on_wrap_witness:
  "\<not> (\<exists>res. run_pedersen_dkg [top_participant 0, top_participant 1] = Some (Inr res))"
  by (rule dkg_aborts_on_wrap [OF _ refl]) (use top_el P_gt in \<open>simp_all add: top_participant_def\<close>)

lemma lone_coeff: "fval (lagrange_coeff [1] 0) = 1"
  using P_gt el_mul [OF el_from_u32(1) [of 1], of "f_inv (f_from_u32 1)"] el_inv [of "f_from_u32 1"] el_from_u32 [of 1]
  by (simp add: lagrange_coeff_def basis_parts_def el_def)

theorem threshold_decrypts_witness:
  "\<exists>sh D. create_decryption_share \<lparr>dd_participant_index = 1, dd_key_share = f_from_u32 3, dd_threshold = 1\<rparr>
       (dkg_encrypt pad_env (f_from_u32 8) (replicate 32 9) (replicate 32 5)) = Inr sh \<and>
     combine_shares [sh] 1 = Inr D \<and>
     xor_bytes (drop 32 (dkg_encrypt pad_env (f_from_u32 8) (replicate 32 9) (replicate 32 5)))
       (sha3_256 pad_env D) = replicate 32 9"
proof -
  let ?d = "\<lparr>dd_participant_index = 1, dd_key_share = f_from_u32 3, dd_threshold = 1\<rparr>"
  let ?ct = "dkg_encrypt pad_env (f_from_u32 8) (replicate 32 9) (replicate 32 5)"
  have "32 \<le> length ?ct"
    using gen_pow [of "reduce_bytes (replicate 32 5)"] by (simp add: dkg_encrypt_def el_def Let_def)
  then obtain sh where sh: "create_decryption_share ?d ?ct = Inr sh" "de_participant_id sh = 1"
    by (simp add: create_decryption_share_def)
  have "fval (f_from_u32 8) = 2 ^ 3 mod field_prime" by (simp add: el_from_u32 field_prime_def)
  with threshold_decrypts [of "f_from_u32 8" 3 "replicate 32 9" pad_env "[sh]" 1 "[1]" "[?d]" "replicate 32 5"]
    sh pad_env_len lone_coeff el_from_u32 [of 8] el_from_u32 [of 3]
  show ?thesis by (simp add: el_def)
qed

end
