(* ===== verification/QV_Encrypted.thy ===== *)
theory QV_Encrypted
  imports QV_Mempool QV_Threshold
begin

text \<open>
  \<open>qv-mempool/src/encrypted.rs\<close>: the encrypted pool, the envelope that wraps a session key under the
  committee key, and the two threshold decryptors. AES-256-GCM is the record \<open>aead\<close>. A decryptor
  is a function that may panic (\<open>None\<close>). The iteration order of the hash map, which \<open>drain\<close> exposes,
  is the argument \<open>order\<close>; everywhere else the map is the ordered map. Error texts leave out the
  numbers and the inner errors they print; the wall clock is the argument \<open>now\<close>.
\<close>

section \<open>Envelopes\<close>

record encrypted_tx =
  et_id :: txid
  kem_ciphertext :: bytes
  encrypted_body :: bytes
  target_epoch :: epoch
  received_at :: u64

definition estimated_size :: "encrypted_tx \<Rightarrow> u64" where
  "estimated_size e = of_nat (length (kem_ciphertext e)) + of_nat (length (encrypted_body e)) + 40"

record envelope_share =
  member_index :: u32
  share_bytes :: bytes

type_synonym decryptor = "encrypted_tx \<Rightarrow> envelope_share list \<Rightarrow> (mempool_error, bytes) result option"

text \<open>AES-256-GCM: key, nonce and text.\<close>

record aead =
  aes_encrypt :: "bytes \<Rightarrow> bytes \<Rightarrow> bytes \<Rightarrow> bytes option"
  aes_decrypt :: "bytes \<Rightarrow> bytes \<Rightarrow> bytes \<Rightarrow> bytes option"

definition ENVELOPE_CIPHERTEXT_BYTES :: nat where "ENVELOPE_CIPHERTEXT_BYTES = 64"
definition AES_NONCE_BYTES :: nat where "AES_NONCE_BYTES = 12"
definition AES_KEY_BYTES :: nat where "AES_KEY_BYTES = 32"

text \<open>Constructing the cipher fails exactly on a key of another length.\<close>

definition encrypt_envelope ::
  "'z crypto_env_scheme \<Rightarrow> aead \<Rightarrow> bytes \<Rightarrow> bytes \<Rightarrow> bytes \<Rightarrow> bytes \<Rightarrow> bytes \<Rightarrow>
     (mempool_error, bytes \<times> bytes) result" where
  "encrypt_envelope E A committee_pk tx_body aes_key_seed randomness nonce =
     (let kem_64 = dkg_encrypt E committee_pk aes_key_seed randomness in
      if length aes_key_seed \<noteq> AES_KEY_BYTES then Inl (Decryption ''AES key init'')
      else bind_res (ok_or (aes_encrypt A aes_key_seed nonce tx_body) (Decryption ''AES-GCM encrypt'')) (\<lambda>ct.
        Inr (kem_64, nonce @ ct)))"

definition create_envelope_share ::
  "u32 \<Rightarrow> bytes \<Rightarrow> encrypted_tx \<Rightarrow> u32 \<Rightarrow> (mempool_error, envelope_share) result" where
  "create_envelope_share participant_id key_share etx threshold =
     (if length (kem_ciphertext etx) \<noteq> ENVELOPE_CIPHERTEXT_BYTES
      then Inl (Decryption ''kem_ciphertext has the wrong length'')
      else bind_res (map_err (\<lambda>_. Decryption ''create share'')
          (create_decryption_share \<lparr>dd_participant_index = participant_id, dd_key_share = key_share,
             dd_threshold = threshold\<rparr> (kem_ciphertext etx))) (\<lambda>sh.
        Inr \<lparr>member_index = de_participant_id sh, share_bytes = share_data sh\<rparr>))"

section \<open>Decryptors\<close>

definition share_count :: "envelope_share list \<Rightarrow> (mempool_error, u32) result" where
  "share_count shares =
     (if length shares < 2 ^ 32 then Inr (of_nat (length shares)) else Inl (Decryption ''share count overflow''))"

text \<open>The mock; indexing the first of no shares panics.\<close>

definition mock_decrypt :: "u32 \<Rightarrow> decryptor" where
  "mock_decrypt t etx shares = (case share_count shares of
     Inl e \<Rightarrow> Some (Inl e)
   | Inr got \<Rightarrow>
       if got < t then Some (Inl (InsufficientShares got t))
       else case shares of
         [] \<Rightarrow> None
       | s # _ \<Rightarrow> let key = share_bytes s in
           if key = [] then Some (Inl (Decryption ''empty share''))
           else Some (Inr (map (\<lambda>(i, b). b XOR key ! (i mod length key))
             (List.enumerate 0 (encrypted_body etx)))))"

definition session_key :: "'z crypto_env_scheme \<Rightarrow> bytes \<Rightarrow> bytes \<Rightarrow> bytes" where
  "session_key E combined kem = xor_bytes (take AES_KEY_BYTES (drop AES_KEY_BYTES kem)) (sha3_256 E (take 32 combined))"

definition envelope_decrypt :: "'z crypto_env_scheme \<Rightarrow> aead \<Rightarrow> u32 \<Rightarrow> decryptor" where
  "envelope_decrypt E A t etx shares = Some (
     bind_res (share_count shares) (\<lambda>got.
     if got < t then Inl (InsufficientShares got t)
     else let crypto_shares = map (\<lambda>s. \<lparr>de_participant_id = member_index s, share_data = share_bytes s\<rparr>) shares in
       if length (kem_ciphertext etx) \<noteq> ENVELOPE_CIPHERTEXT_BYTES
       then Inl (Decryption ''kem_ciphertext has the wrong length'')
       else if length (encrypted_body etx) < AES_NONCE_BYTES
       then Inl (Decryption ''encrypted_body shorter than AES-GCM nonce'')
       else bind_res (map_err (\<lambda>_. Decryption ''combine'') (combine_shares crypto_shares t)) (\<lambda>combined.
         if length combined < 32 then Inl (Decryption ''combined share shorter than 32 bytes'')
         else let aes_key = session_key E combined (kem_ciphertext etx) in
           if length aes_key \<noteq> AES_KEY_BYTES then Inl (Decryption ''AES key init'')
           else ok_or (aes_decrypt A aes_key (take AES_NONCE_BYTES (encrypted_body etx))
             (drop AES_NONCE_BYTES (encrypted_body etx))) (Decryption ''AES-GCM decrypt''))))"

section \<open>The pool\<close>

record encrypted_pool_config =
  ec_max_tx_count :: u64
  ec_max_pool_bytes :: u64
  ec_max_age_secs :: u64

definition encrypted_config_default :: encrypted_pool_config where
  "encrypted_config_default =
     \<lparr>ec_max_tx_count = 50000, ec_max_pool_bytes = 128 * 1024 * 1024, ec_max_age_secs = 3600\<rparr>"

record encrypted_pool =
  ep_config :: encrypted_pool_config
  ep_by_id :: "(txid, encrypted_tx) btree"
  ep_epoch :: epoch
  ep_total_bytes :: u64

definition ep_new :: "encrypted_pool_config \<Rightarrow> epoch \<Rightarrow> encrypted_pool" where
  "ep_new cfg ep = \<lparr>ep_config = cfg, ep_by_id = [], ep_epoch = ep, ep_total_bytes = 0\<rparr>"

definition advance_epoch :: "epoch \<Rightarrow> encrypted_pool \<Rightarrow> encrypted_pool" where
  "advance_epoch new_epoch P = P\<lparr>ep_by_id := [], ep_total_bytes := 0, ep_epoch := new_epoch\<rparr>"

definition ep_add :: "encrypted_tx \<Rightarrow> encrypted_pool \<Rightarrow> (mempool_error, txid) result \<times> encrypted_pool" where
  "ep_add etx P =
     (if target_epoch etx \<noteq> ep_epoch P then (Inl (WrongEpoch (target_epoch etx) (ep_epoch P)), P)
      else if bt_has (ep_by_id P) (et_id etx) then (Inl (DuplicateTx (et_id etx)), P)
      else let etx_size = estimated_size etx in
        if unat (ec_max_tx_count (ep_config P)) \<le> length (ep_by_id P) then (Inl PoolFull, P)
        else if ec_max_pool_bytes (ep_config P) < sat_add (ep_total_bytes P) etx_size then (Inl PoolFull, P)
        else (Inr (et_id etx), P\<lparr>ep_total_bytes := sat_add (ep_total_bytes P) etx_size,
               ep_by_id := bt_insert (et_id etx) etx (ep_by_id P)\<rparr>))"

definition ep_get :: "encrypted_pool \<Rightarrow> txid \<Rightarrow> encrypted_tx option" where
  "ep_get P tid = bt_get (ep_by_id P) tid"

definition ep_remove :: "txid \<Rightarrow> encrypted_pool \<Rightarrow> encrypted_tx option \<times> encrypted_pool" where
  "ep_remove tid P = (case bt_get (ep_by_id P) tid of
     None \<Rightarrow> (None, P)
   | Some e \<Rightarrow> (Some e, P\<lparr>ep_by_id := bt_remove tid (ep_by_id P),
       ep_total_bytes := sat_sub (ep_total_bytes P) (estimated_size e)\<rparr>))"

definition drain_all ::
  "(encrypted_tx list \<Rightarrow> encrypted_tx list) \<Rightarrow> encrypted_pool \<Rightarrow> encrypted_tx list \<times> encrypted_pool" where
  "drain_all order P = (order (map snd (ep_by_id P)), P\<lparr>ep_total_bytes := 0, ep_by_id := []\<rparr>)"

definition ep_evict_expired :: "u64 \<Rightarrow> encrypted_pool \<Rightarrow> nat \<times> encrypted_pool" where
  "ep_evict_expired now P =
     (let cutoff = sat_sub now (ec_max_age_secs (ep_config P));
          expired = map et_id (filter (\<lambda>e. received_at e < cutoff) (map snd (ep_by_id P)))
      in (length expired, fold (\<lambda>tid P. snd (ep_remove tid P)) expired P))"

fun decrypt_each :: "decryptor \<Rightarrow> envelope_share list \<Rightarrow> encrypted_tx list \<Rightarrow> (txid \<times> bytes) list option" where
  "decrypt_each D shares [] = Some []"
| "decrypt_each D shares (etx # all) =
     (case D etx shares of
        None \<Rightarrow> None
      | Some (Inr plaintext) \<Rightarrow> map_option ((#) (et_id etx, plaintext)) (decrypt_each D shares all)
      | Some (Inl _) \<Rightarrow> decrypt_each D shares all)"

definition decrypt_batch ::
  "(encrypted_tx list \<Rightarrow> encrypted_tx list) \<Rightarrow> decryptor \<Rightarrow> envelope_share list \<Rightarrow> encrypted_pool \<Rightarrow>
     ((txid \<times> bytes) list \<times> encrypted_pool) option" where
  "decrypt_batch order D shares P =
     (let (all, P) = drain_all order P in map_option (\<lambda>results. (results, P)) (decrypt_each D shares all))"

section \<open>The pool's invariant\<close>

definition ep_ok :: "encrypted_pool \<Rightarrow> bool" where
  "ep_ok P \<longleftrightarrow> bt_ok (ep_by_id P) \<and>
     (\<forall>k e. bt_get (ep_by_id P) k = Some e \<longrightarrow> et_id e = k \<and> target_epoch e = ep_epoch P) \<and>
     length (ep_by_id P) \<le> unat (ec_max_tx_count (ep_config P)) \<and>
     unat (ep_total_bytes P) = bt_total (\<lambda>e. unat (estimated_size e)) (ep_by_id P) \<and>
     ep_total_bytes P \<le> ec_max_pool_bytes (ep_config P)"

lemma ep_new_ok: "ep_ok (ep_new cfg ep)"
  by (simp add: ep_ok_def ep_new_def bt_simps bt_total_def bt_sum_def)

lemma advance_epoch_ok: "ep_ok P \<Longrightarrow> ep_ok (advance_epoch ep P)"
  by (simp add: ep_ok_def advance_epoch_def bt_simps bt_total_def bt_sum_def)

lemma drain_all_ok: "ep_ok P \<Longrightarrow> ep_ok (snd (drain_all order P))"
  by (simp add: ep_ok_def drain_all_def bt_simps bt_total_def bt_sum_def)

lemma ep_remove_ok:
  assumes ok: "ep_ok P"
  shows "ep_ok (snd (ep_remove tid P))"
proof (cases "bt_get (ep_by_id P) tid")
  case (Some e)
  let ?f = "\<lambda>e. unat (estimated_size e)"
  have "bt_total ?f (bt_remove tid (ep_by_id P)) + ?f e = bt_total ?f (ep_by_id P)"
    using bt_total_remove [of "ep_by_id P" ?f tid] ok Some by (simp add: ep_ok_def)
  then have "unat (sat_sub (ep_total_bytes P) (estimated_size e)) = bt_total ?f (bt_remove tid (ep_by_id P))"
    using ok by (simp add: ep_ok_def unat_sat_sub)
  moreover have "sat_sub (ep_total_bytes P) (estimated_size e) \<le> ec_max_pool_bytes (ep_config P)"
    using ok unfolding ep_ok_def word_le_nat_alt unat_sat_sub by linarith
  ultimately show ?thesis
    using ok Some length_bt_remove [of tid "ep_by_id P"] by (auto simp: ep_remove_def ep_ok_def bt_simps)
qed (use ok in \<open>simp add: ep_remove_def\<close>)

lemma ep_add_ok:
  assumes ok: "ep_ok P" and cfg: "ec_max_pool_bytes (ep_config P) < - 1"
  shows "ep_ok (snd (ep_add etx P))"
proof (cases "\<exists>tid. fst (ep_add etx P) = Inr tid")
  case True
  let ?f = "\<lambda>e. unat (estimated_size e)"
  have g: "target_epoch etx = ep_epoch P" "bt_get (ep_by_id P) (et_id etx) = None"
      "length (ep_by_id P) < unat (ec_max_tx_count (ep_config P))"
      "sat_add (ep_total_bytes P) (estimated_size etx) \<le> ec_max_pool_bytes (ep_config P)"
    and P': "snd (ep_add etx P) = P\<lparr>ep_total_bytes := sat_add (ep_total_bytes P) (estimated_size etx),
      ep_by_id := bt_insert (et_id etx) etx (ep_by_id P)\<rparr>"
    using True by (auto simp: ep_add_def Let_def split: if_splits)
  have total: "bt_total ?f (bt_insert (et_id etx) etx (ep_by_id P)) = bt_total ?f (ep_by_id P) + ?f etx"
    using bt_total_insert [of "ep_by_id P" ?f "et_id etx" etx] ok g(2) by (simp add: ep_ok_def)
  have "unat (sat_add (ep_total_bytes P) (estimated_size etx)) < 2 ^ 64 - 1"
    using g(4) cfg by (simp add: word_le_nat_alt word_less_nat_alt unat_minus_one)
  then have "unat (sat_add (ep_total_bytes P) (estimated_size etx)) = unat (ep_total_bytes P) + ?f etx"
    unfolding unat_sat_add by (auto simp: min_def split: if_splits)
  then have "unat (sat_add (ep_total_bytes P) (estimated_size etx)) =
      bt_total ?f (bt_insert (et_id etx) etx (ep_by_id P))"
    using ok total unfolding ep_ok_def by linarith
  then show ?thesis
    unfolding P' using ok g by (auto simp: ep_ok_def bt_simps length_bt_insert)
next
  case False
  then have "snd (ep_add etx P) = P" by (auto simp: ep_add_def Let_def split: if_splits)
  then show ?thesis using ok by simp
qed

lemma removes_ok: "ep_ok P \<Longrightarrow> ep_ok (fold (\<lambda>tid P. snd (ep_remove tid P)) ids P)"
  by (induction ids arbitrary: P) (simp_all add: ep_remove_ok)

lemma evict_get:
  "ep_ok P \<Longrightarrow> bt_get (ep_by_id (fold (\<lambda>tid P. snd (ep_remove tid P)) ids P)) k =
     (if k \<in> set ids then None else bt_get (ep_by_id P) k)"
proof (induction ids arbitrary: P)
  case (Cons i ids)
  have "bt_get (ep_by_id (snd (ep_remove i P))) = (bt_get (ep_by_id P))(i := None)"
    by (auto simp: ep_remove_def bt_get_remove split: option.splits)
  then show ?case using Cons.IH [OF ep_remove_ok [OF Cons.prems], of i] by simp
qed simp

text \<open>The calls a node makes on the pool, and the state after a sequence of them.\<close>

datatype ep_op = EpAdd encrypted_tx | EpRemove txid | EpEvict u64 | EpAdvance epoch | EpDrain

primrec ep_exec :: "ep_op \<Rightarrow> encrypted_pool \<Rightarrow> encrypted_pool" where
  "ep_exec (EpAdd etx) P = snd (ep_add etx P)"
| "ep_exec (EpRemove tid) P = snd (ep_remove tid P)"
| "ep_exec (EpEvict now) P = snd (ep_evict_expired now P)"
| "ep_exec (EpAdvance ep) P = advance_epoch ep P"
| "ep_exec EpDrain P = snd (drain_all id P)"

lemma ep_remove_config: "ep_config (snd (ep_remove tid P)) = ep_config P"
  by (simp add: ep_remove_def split: option.splits)

lemma ep_exec_config: "ep_config (ep_exec op P) = ep_config P"
proof (cases op)
  case (EpEvict now)
  have "ep_config (fold (\<lambda>tid P. snd (ep_remove tid P)) ids P) = ep_config P" for ids
    by (induction ids arbitrary: P) (simp_all add: ep_remove_config)
  then show ?thesis by (simp add: EpEvict ep_evict_expired_def Let_def)
qed (simp_all add: ep_add_def ep_remove_config advance_epoch_def drain_all_def Let_def)

lemma ep_run_ok:
  assumes "ec_max_pool_bytes (ep_config P) < - 1" and "ep_ok P"
  shows "ep_ok (fold ep_exec ops P)"
  using assms
proof (induction ops arbitrary: P)
  case (Cons op ops)
  have "ep_ok (ep_exec op P)"
    using Cons.prems
    by (cases op)
      (simp_all add: ep_add_ok ep_remove_ok advance_epoch_ok drain_all_ok removes_ok ep_evict_expired_def Let_def)
  then show ?case using Cons by (simp add: ep_exec_config)
qed simp

text \<open>
  C26. The encrypted pool after any sequence of calls. It holds only envelopes for the current epoch,
  each under its own identifier, within the configured number, and its byte count is exactly the sum
  of the envelope sizes and within the limit. An addition is refused with the pool unchanged or makes
  exactly its envelope available, and an eviction drops exactly the envelopes older than the cutoff.
\<close>

theorem encrypted_pool_correct:
  assumes cfg: "ec_max_pool_bytes cfg < - 1" and P: "P = fold ep_exec ops (ep_new cfg ep)"
  shows "ep_ok P \<and>
    (case ep_add etx P of
       (Inl e, P') \<Rightarrow> P' = P
     | (Inr tid, P') \<Rightarrow> tid = et_id etx \<and> target_epoch etx = ep_epoch P \<and> ep_get P tid = None \<and>
         (\<forall>k. ep_get P' k = (if k = tid then Some etx else ep_get P k))) \<and>
    (\<forall>k. ep_get (snd (ep_evict_expired now P)) k =
       (case ep_get P k of
          Some e \<Rightarrow> if received_at e < sat_sub now (ec_max_age_secs (ep_config P)) then None else Some e
        | None \<Rightarrow> None))"
proof (intro conjI allI)
  show ok: "ep_ok P" unfolding P by (rule ep_run_ok [OF _ ep_new_ok]) (simp add: ep_new_def cfg)
  then have bt: "bt_ok (ep_by_id P)" by (simp add: ep_ok_def)
  show "case ep_add etx P of (Inl e, P') \<Rightarrow> P' = P
     | (Inr tid, P') \<Rightarrow> tid = et_id etx \<and> target_epoch etx = ep_epoch P \<and> ep_get P tid = None \<and>
         (\<forall>k. ep_get P' k = (if k = tid then Some etx else ep_get P k))"
    using bt by (simp add: ep_add_def ep_get_def Let_def bt_simps)
  fix k
  let ?old = "\<lambda>e. received_at e < sat_sub now (ec_max_age_secs (ep_config P))"
  let ?ids = "map et_id (filter ?old (map snd (ep_by_id P)))"
  have ids: "et_id e = k" if "bt_get (ep_by_id P) k = Some e" for k e using ok that by (simp add: ep_ok_def)
  have d: "distinct (map fst (ep_by_id P))" using bt by (simp add: bt_ok_def strict_sorted_iff)
  have "k \<in> set ?ids \<longleftrightarrow> (\<exists>e. ep_get P k = Some e \<and> ?old e)"
  proof
    assume "k \<in> set ?ids"
    then obtain k' e where "(k', e) \<in> set (ep_by_id P)" "et_id e = k" "?old e" by auto
    then show "\<exists>e. ep_get P k = Some e \<and> ?old e" using ids d by (metis ep_get_def map_of_is_SomeI)
  next
    assume "\<exists>e. ep_get P k = Some e \<and> ?old e"
    then show "k \<in> set ?ids" using ids by (force simp: ep_get_def dest: map_of_SomeD)
  qed
  then show "ep_get (snd (ep_evict_expired now P)) k =
      (case ep_get P k of Some e \<Rightarrow> if ?old e then None else Some e | None \<Rightarrow> None)"
    using evict_get [OF ok, of ?ids k] by (auto simp: ep_evict_expired_def Let_def ep_get_def split: option.splits)
qed

definition demo_etx :: "u64 \<Rightarrow> encrypted_tx" where
  "demo_etx time = \<lparr>et_id = Hash256 (replicate 32 1), kem_ciphertext = replicate 64 2, encrypted_body = replicate 20 3,
     target_epoch = 7, received_at = time\<rparr>"

theorem encrypted_pool_correct_witness:
  "ep_get (snd (ep_evict_expired 5000 (snd (ep_add (demo_etx 100) (ep_new encrypted_config_default 7)))))
     (Hash256 (replicate 32 1)) = None \<and>
   ep_get (snd (ep_add (demo_etx 100) (ep_new encrypted_config_default 7))) (Hash256 (replicate 32 1)) = Some (demo_etx 100)"
proof -
  obtain P where add: "ep_add (demo_etx 100) (ep_new encrypted_config_default 7) = (Inr (Hash256 (replicate 32 1)), P)"
    "ep_config P = encrypted_config_default"
    by (simp add: ep_add_def ep_new_def demo_etx_def estimated_size_def encrypted_config_default_def sat_add_def Let_def)
  have "ec_max_pool_bytes encrypted_config_default < - 1" by (simp add: encrypted_config_default_def)
  note C = encrypted_pool_correct [OF this refl, of "[]" 7 "demo_etx 100" 0]
    encrypted_pool_correct [OF this refl, of "[EpAdd (demo_etx 100)]" 7 "demo_etx 100" 5000]
  from C(1) have g: "ep_get P (Hash256 (replicate 32 1)) = Some (demo_etx 100)" by (simp add: add)
  have run: "fold ep_exec [EpAdd (demo_etx 100)] (ep_new encrypted_config_default 7) = P" by (simp add: add)
  have "received_at (demo_etx 100) < sat_sub 5000 (ec_max_age_secs encrypted_config_default)"
    by (simp add: demo_etx_def encrypted_config_default_def sat_sub_def)
  then have "ep_get (snd (ep_evict_expired 5000 P)) (Hash256 (replicate 32 1)) = None"
    using C(2) [unfolded run add(2)] g by simp
  with g have "ep_get P (Hash256 (replicate 32 1)) = Some (demo_etx 100) \<and>
    ep_get (snd (ep_evict_expired 5000 P)) (Hash256 (replicate 32 1)) = None" by simp
  then show ?thesis by (simp add: add)
qed

section \<open>Decryption\<close>

text \<open>What the trait promises: fewer shares than the threshold are refused.\<close>

locale threshold_decryptor =
  fixes decrypt :: decryptor and t :: u32
  assumes too_few: "length shares < unat t \<Longrightarrow> decrypt etx shares = Some (Inl (InsufficientShares (of_nat (length shares)) t))"
begin

lemma few_shares_decrypt_none: "length shares < unat t \<Longrightarrow> decrypt_each decrypt shares all = Some []"
  by (induction all) (simp_all add: too_few)

lemma few_shares_lose_batch:
  "length shares < unat t \<Longrightarrow>
     decrypt_batch order decrypt shares P = Some ([], P\<lparr>ep_by_id := [], ep_total_bytes := 0\<rparr>)"
  by (simp add: decrypt_batch_def drain_all_def few_shares_decrypt_none)

end

lemma share_count_few:
  assumes "length shares < unat (t :: u32)"
  shows "share_count shares = Inr (of_nat (length shares))" "(of_nat (length shares) :: u32) < t"
proof -
  have l: "length shares < 2 ^ 32" using assms unat_bound [of t] by simp
  then show "share_count shares = Inr (of_nat (length shares))" by (simp add: share_count_def)
  show "(of_nat (length shares) :: u32) < t" using assms l by (simp add: word_less_nat_alt unat_of_nat_small)
qed

interpretation mock: threshold_decryptor "mock_decrypt t" t
  by unfold_locales (simp add: mock_decrypt_def share_count_few)

interpretation envelope: threshold_decryptor "envelope_decrypt E A t" t
  by unfold_locales (simp add: envelope_decrypt_def share_count_few)

text \<open>
  C28. A batch decrypted with too few shares is lost. Decryption drains the pool first and skips what
  it cannot decrypt, so when fewer shares than the threshold have arrived, the call returns an empty
  batch without an error and every pending envelope is gone.
\<close>

theorem insufficient_shares_drain:
  "length shares < unat t \<Longrightarrow>
     decrypt_batch order (envelope_decrypt E A t) shares P = Some ([], P\<lparr>ep_by_id := [], ep_total_bytes := 0\<rparr>)"
  by (rule envelope.few_shares_lose_batch)

theorem insufficient_shares_drain_witness:
  "(ep_get (snd (ep_add (demo_etx 100) (ep_new encrypted_config_default 7))) (Hash256 (replicate 32 1)) = Some (demo_etx 100)) \<and>
   (\<exists>P. decrypt_batch id (envelope_decrypt pad_env \<lparr>aes_encrypt = \<lambda>k n m. Some m, aes_decrypt = \<lambda>k n c. Some c\<rparr> 2)
     [\<lparr>member_index = 1, share_bytes = []\<rparr>] (snd (ep_add (demo_etx 100) (ep_new encrypted_config_default 7))) = Some ([], P) \<and>
     ep_get P (Hash256 (replicate 32 1)) = None)"
proof -
  have "length [\<lparr>member_index = 1, share_bytes = []\<rparr> :: envelope_share] < unat (2 :: u32)" by simp
  note insufficient_shares_drain [OF this, of id pad_env "\<lparr>aes_encrypt = \<lambda>k n m. Some m, aes_decrypt = \<lambda>k n c. Some c\<rparr>"
    "snd (ep_add (demo_etx 100) (ep_new encrypted_config_default 7))"]
  then show ?thesis
    by (simp add: ep_get_def) (simp add: ep_add_def ep_new_def demo_etx_def estimated_size_def
        encrypted_config_default_def sat_add_def Let_def)
qed

definition aead_ok :: "aead \<Rightarrow> bool" where
  "aead_ok A \<longleftrightarrow> (\<forall>k n m ct. aes_encrypt A k n m = Some ct \<longrightarrow> aes_decrypt A k n ct = Some m)"

definition crypto_share :: "envelope_share \<Rightarrow> decryption_share" where
  "crypto_share s = \<lparr>de_participant_id = member_index s, share_data = share_bytes s\<rparr>"

lemma dkg_encrypt_shape:
  assumes "length k = 32" and "\<And>x. length (sha3_256 E x) = 32"
  shows "length (dkg_encrypt E pk k r) = 64"
    and "drop 32 (dkg_encrypt E pk k r) = xor_bytes k (sha3_256 E (f_pow pk (reduce_bytes r)))"
  using gen_pow [of "reduce_bytes r"] assms by (simp_all add: dkg_encrypt_def el_def xor_bytes_def Let_def)

lemma envelope_decrypt_run:
  assumes "length shares = unat t" and "length (kem_ciphertext etx) = 64" and "12 \<le> length (encrypted_body etx)"
    and "combine_shares (map crypto_share shares) t = Inr D" and "length D = 32" and "\<And>x. length (sha3_256 E x) = 32"
  shows "envelope_decrypt E A t etx shares =
    Some (ok_or (aes_decrypt A (xor_bytes (drop 32 (kem_ciphertext etx)) (sha3_256 E D))
      (take 12 (encrypted_body etx)) (drop 12 (encrypted_body etx))) (Decryption ''AES-GCM decrypt''))"
proof -
  have "length shares < 2 ^ 32" using assms(1) unat_bound [of t] by simp
  then have "share_count shares = Inr t" using assms(1) by (simp add: share_count_def)
  then show ?thesis
    using assms
    by (simp add: envelope_decrypt_def ENVELOPE_CIPHERTEXT_BYTES_def AES_NONCE_BYTES_def AES_KEY_BYTES_def
        session_key_def xor_bytes_def crypto_share_def [abs_def] Let_def)
qed

lemma dkg_encrypt_c1:
  "take 32 (dkg_encrypt E pk k r) = f_pow (f_from_u32 GENERATOR) (reduce_bytes r)" "32 \<le> length (dkg_encrypt E pk k r)"
  using gen_pow [of "reduce_bytes r"] by (simp_all add: dkg_encrypt_def el_def Let_def)

lemma envelope_shares_open:
  assumes pk: "length pk = 32" "fval pk = 2 ^ s mod field_prime"
    and kem: "kem_ciphertext etx = dkg_encrypt E pk k r" "length (kem_ciphertext etx) = 64"
    and shares: "length shares = unat t" "length ms = unat t"
      "\<And>i. i < unat t \<Longrightarrow> create_envelope_share (fst (ms ! i)) (snd (ms ! i)) etx t = Inr (shares ! i)"
    and plain: "(\<Sum>i < unat t. fval (snd (ms ! i)) * fval (lagrange_coeff (map fst ms) i)) = s"
  shows "combine_shares (map crypto_share shares) t = Inr (f_pow pk (reduce_bytes r))"
proof -
  let ?ds = "map (\<lambda>m. \<lparr>dd_participant_index = fst m, dd_key_share = snd m, dd_threshold = t\<rparr>) ms"
  have sh: "create_decryption_share (?ds ! i) (dkg_encrypt E pk k r) = Inr (crypto_share (shares ! i)) \<and>
      de_participant_id (crypto_share (shares ! i)) = fst (ms ! i)" if i: "i < unat t" for i
  proof -
    have "shares ! i = \<lparr>member_index = fst (ms ! i),
        share_bytes = f_pow (take 32 (dkg_encrypt E pk k r)) (snd (ms ! i))\<rparr>"
      using shares(3) [OF i] kem
      by (simp add: create_envelope_share_def create_decryption_share_def ENVELOPE_CIPHERTEXT_BYTES_def)
    then show ?thesis
      using kem shares(2) i by (simp add: create_decryption_share_def crypto_share_def)
  qed
  have xs: "map fst ms = map de_participant_id (map crypto_share shares)"
    using shares(1,2) sh by (intro nth_equalityI) simp_all
  show ?thesis
    by (rule combine_opens [OF pk dkg_encrypt_c1 [where E = E and pk = pk and k = k], where ds = ?ds, OF _ xs])
      (use sh shares(1,2) plain in simp_all)
qed

lemma xor_bytes_cancel: "length a = length k \<Longrightarrow> length b = length k \<Longrightarrow> xor_bytes k a = xor_bytes k b \<Longrightarrow> a = b"
proof (induction k arbitrary: a b)
  case (Cons x k)
  obtain y ys z zs where ab: "a = y # ys" "b = z # zs" using Cons.prems(1,2) by (cases a; cases b) auto
  have undo: "(w XOR x) XOR x = w" for w by (simp add: xor.assoc)
  have eq: "y XOR x = z XOR x" and tail: "xor_bytes k ys = xor_bytes k zs"
    using Cons.prems(3) unfolding ab xor_bytes_def xor.commute [of _ x] by simp_all
  from eq have "y = z" using undo [of y] undo [of z] by presburger
  moreover have "ys = zs" by (rule Cons.IH [OF _ _ tail]) (use Cons.prems ab in simp_all)
  ultimately show ?case by (simp add: ab)
qed simp


text \<open>
  C1. Shares open one envelope only. The batch is decrypted with one list of shares; shares that open
  an envelope with randomness \<open>r\<close> make the decryptor use, on an envelope with randomness \<open>r'\<close>, the
  session key of that envelope exactly when the two masks agree.
\<close>

theorem shares_fit_one_envelope:
  assumes sha: "\<And>x. length (sha3_256 E x) = 32" and k': "length k' = 32" and pk: "length pk = 32"
    and opens: "combine_shares (map crypto_share shares) t = Inr (f_pow pk (reduce_bytes r))" "length shares = unat t"
    and etx': "kem_ciphertext etx' = dkg_encrypt E pk k' r'" "12 \<le> length (encrypted_body etx')"
  shows "\<exists>key. envelope_decrypt E A t etx' shares =
      Some (ok_or (aes_decrypt A key (take 12 (encrypted_body etx')) (drop 12 (encrypted_body etx')))
        (Decryption ''AES-GCM decrypt'')) \<and>
    (key = k' \<longleftrightarrow> sha3_256 E (f_pow pk (reduce_bytes r)) = sha3_256 E (f_pow pk (reduce_bytes r')))"
proof -
  let ?m = "sha3_256 E (f_pow pk (reduce_bytes r))" and ?m' = "sha3_256 E (f_pow pk (reduce_bytes r'))"
  note shape = dkg_encrypt_shape [OF k' sha, of pk r']
  have "length (f_pow pk (reduce_bytes r)) = 32" using f_pow_val [OF pk] by (simp add: el_def)
  then have run: "envelope_decrypt E A t etx' shares =
      Some (ok_or (aes_decrypt A (xor_bytes (xor_bytes k' ?m') ?m) (take 12 (encrypted_body etx'))
        (drop 12 (encrypted_body etx'))) (Decryption ''AES-GCM decrypt''))"
    using envelope_decrypt_run [OF opens(2) _ etx'(2) opens(1) _ sha] etx'(1) shape by simp
  have "xor_bytes (xor_bytes k' ?m') ?m = k' \<longleftrightarrow> ?m = ?m'"
  proof
    assume eq: "xor_bytes (xor_bytes k' ?m') ?m = k'"
    have l: "length (xor_bytes k' ?m') = 32" by (simp add: xor_bytes_def k' sha)
    have "xor_bytes (xor_bytes (xor_bytes k' ?m') ?m) ?m = xor_bytes k' ?m'" using l sha by (intro xor_bytes_twice) simp
    then have "xor_bytes k' ?m = xor_bytes k' ?m'" by (simp add: eq)
    then show "?m = ?m'" using k' sha xor_bytes_cancel by metis
  qed (simp add: xor_bytes_twice k' sha)
  with run show ?thesis by blast
qed

section \<open>A committee of one\<close>

text \<open>A cipher that prefixes the text with its key, so that a wrong key is noticed.\<close>

definition tag_aead :: aead where
  "tag_aead = \<lparr>aes_encrypt = (\<lambda>k n m. Some (k @ m)),
     aes_decrypt = (\<lambda>k n c. if take (length k) c = k then Some (drop (length k) c) else None)\<rparr>"

lemma tag_aead_ok: "aead_ok tag_aead"
  by (simp add: aead_ok_def tag_aead_def)

definition one_etx :: "u8 \<Rightarrow> encrypted_tx" where
  "one_etx r = (demo_etx 100)\<lparr>kem_ciphertext := dkg_encrypt pad_env (f_from_u32 8) (replicate 32 9) (replicate 32 r),
     encrypted_body := replicate 12 4 @ replicate 32 9 @ [1, 2, 3]\<rparr>"

lemma one_kem: "length (kem_ciphertext (one_etx r)) = 64"
  by (simp add: one_etx_def dkg_encrypt_shape pad_env_len)

lemma one_share:
  "\<exists>sh. create_envelope_share 1 (f_from_u32 3) (one_etx r) 1 = Inr sh"
  using one_kem [of r] by (simp add: create_envelope_share_def create_decryption_share_def ENVELOPE_CIPHERTEXT_BYTES_def)

lemma pk_8: "length (f_from_u32 8) = 32" "fval (f_from_u32 8) = 2 ^ 3 mod field_prime"
  using el_from_u32 [of 8] by (simp_all add: el_def field_prime_def)

lemma one_weight: "(\<Sum>i < unat (1 :: u32). fval (snd ([(1, f_from_u32 3)] ! i)) * fval (lagrange_coeff (map fst [(1, f_from_u32 3)]) i)) = 3"
  using lone_coeff el_from_u32 [of 3] by simp


theorem shares_fit_one_envelope_witness:
  "\<exists>sh key. create_envelope_share 1 (f_from_u32 3) (one_etx 0) 1 = Inr sh \<and>
     envelope_decrypt pad_env tag_aead 1 (one_etx 0) [sh] =
       Some (ok_or (aes_decrypt tag_aead key (replicate 12 4) (replicate 32 9 @ [1, 2, 3])) (Decryption ''AES-GCM decrypt'')) \<and>
     key = replicate 32 9"
proof -
  obtain sh where sh: "create_envelope_share 1 (f_from_u32 3) (one_etx 0) 1 = Inr sh" using one_share by blast
  have kem: "kem_ciphertext (one_etx 0) = dkg_encrypt pad_env (f_from_u32 8) (replicate 32 9) (replicate 32 0)"
    by (simp add: one_etx_def)
  have "combine_shares (map crypto_share [sh]) 1 = Inr (f_pow (f_from_u32 8) (reduce_bytes (replicate 32 0)))"
    by (rule envelope_shares_open [OF pk_8 kem one_kem, where ms = "[(1, f_from_u32 3)]"])
      (use sh one_weight in simp_all)
  from shares_fit_one_envelope [OF pad_env_len _ pk_8(1) this _ kem, of tag_aead] sh show ?thesis
    by (auto simp: one_etx_def)
qed

end
