(* ===== verification/QV_Producer.thy ===== *)
theory QV_Producer
  imports QV_Encrypted QV_Node
begin

text \<open>
  \<open>qv-miner/src/block_producer.rs\<close>: assembling a block from the clear pool, with or without the
  decrypted batch. Panics (a zero halving interval inside the reward, or a decryptor that panics)
  are \<open>None\<close>; error texts leave out the inner error. Logging and the unused parameters are left out.
\<close>

section \<open>Assembling a block\<close>

datatype miner_error = BlockProduction string

record production_context =
  pc_slot :: slot
  pc_parent_hash :: hash256
  pc_height :: height
  pc_timestamp :: timestamp
  pc_params :: protocol_params
  pc_reward_pubkey_hash :: "bytes option"

definition build_coinbase :: "production_context \<Rightarrow> amount \<Rightarrow> transaction option option" where
  "build_coinbase ctx fees = (case pc_reward_pubkey_hash ctx of
     None \<Rightarrow> Some None
   | Some pkh \<Rightarrow> map_option (\<lambda>reward.
       if reward = 0 then None
       else Some (tx_new_coinbase (pc_height ctx) [tx_output_new reward (p2pkh_pqc pkh)]))
       (total_block_reward (pc_height ctx) fees (pp_monetary (pc_params ctx))))"

text \<open>The common end of the two producers: the coinbase, the Merkle root, the header.\<close>

definition assemble ::
  "'z block_env_scheme \<Rightarrow> production_context \<Rightarrow> mempool_entry list \<Rightarrow> (txid \<times> transaction) list \<Rightarrow>
     bytes \<Rightarrow> bytes \<Rightarrow> (miner_error, block) result option" where
  "assemble E ctx clear_entries batched vrf_proof kes_sig =
     (case amount_checked_sum (map me_fee clear_entries) of
        None \<Rightarrow> Some (Inl (BlockProduction ''fee sum overflow''))
      | Some fees \<Rightarrow>
          map_option (\<lambda>coinbase.
            bind_res (case coinbase of
                None \<Rightarrow> Inr batched
              | Some cb \<Rightarrow> bind_res (map_err (\<lambda>_. BlockProduction ''coinbase id failed'') (tx_id E cb)) (\<lambda>cid.
                  Inr ((cid, cb) # batched))) (\<lambda>txs.
            Inr \<lparr>blk_header =
                \<lparr>bh_version = BLOCK_VERSION, bh_prev_hash = pc_parent_hash ctx, bh_height = pc_height ctx,
                 bh_slot = pc_slot ctx, bh_timestamp = pc_timestamp ctx,
                 bh_merkle_root = merkle_root_of (sha3_256 E) (map fst txs), bh_utxo_commitment = hash_zero,
                 bh_vrf_proof = vrf_proof, bh_kes_sig = kes_sig, bh_producer_key_hash = hash_zero\<rparr>,
              blk_txs = map snd txs\<rparr>))
            (build_coinbase ctx fees))"

definition produce_block ::
  "'z block_env_scheme \<Rightarrow> production_context \<Rightarrow> clear_pool \<Rightarrow> bytes \<Rightarrow> bytes \<Rightarrow> (miner_error, block) result option" where
  "produce_block E ctx clear_pool vrf_proof kes_sig =
     (let clear_entries = all_sorted clear_pool in
      assemble E ctx clear_entries (map (\<lambda>e. (me_tx_id e, me_tx e)) clear_entries) vrf_proof kes_sig)"

definition decoded_batch :: "'z block_env_scheme \<Rightarrow> (txid \<times> bytes) list \<Rightarrow> (txid \<times> transaction) list" where
  "decoded_batch E batch = List.map_filter (\<lambda>(tid, plaintext).
     case de_tx E plaintext of Inr tx \<Rightarrow> Some (tid, tx) | Inl _ \<Rightarrow> None) batch"

definition produce_block_with_decryption ::
  "'z block_env_scheme \<Rightarrow> (encrypted_tx list \<Rightarrow> encrypted_tx list) \<Rightarrow> production_context \<Rightarrow> clear_pool \<Rightarrow>
     encrypted_pool \<Rightarrow> decryptor \<Rightarrow> envelope_share list \<Rightarrow> bytes \<Rightarrow> bytes \<Rightarrow>
     ((miner_error, block) result \<times> encrypted_pool) option" where
  "produce_block_with_decryption E order ctx clear_pool ep D shares vrf_proof kes_sig =
     (let clear_entries = all_sorted clear_pool in
      Option.bind (decrypt_batch order D shares ep) (\<lambda>(batch, ep).
        map_option (\<lambda>r. (r, ep))
          (assemble E ctx clear_entries
             (map (\<lambda>e. (me_tx_id e, me_tx e)) clear_entries @ decoded_batch E batch) vrf_proof kes_sig)))"

section \<open>The economic rules hold for an honest block\<close>

text \<open>What the transaction handler checks of a transaction before it enters the pool.\<close>

definition entry_valid ::
  "'z store_env_scheme \<Rightarrow> kv_store \<Rightarrow> height \<Rightarrow> u64 \<Rightarrow> mempool_entry \<Rightarrow> bool" where
  "entry_valid E m h k e \<longleftrightarrow>
     (\<exists>v r. tx_preconditions E (me_tx e) m r = Inr v \<and> vt_tx_id v = me_tx_id e \<and> vt_fee v = me_fee e) \<and>
     check_coinbase_maturity E (me_tx e) m h k = Inr () \<and> length (tx_outputs (me_tx e)) \<le> 2 ^ 32"

lemma ex_u64: "n < 2 ^ 64 \<Longrightarrow> \<exists>i :: u64. unat i = n"
  by (rule exI [of _ "of_nat n"], rule unat_of_nat_small) simp

lemma sum_inputs_store:
  assumes "list_all2 (\<lambda>i out. utxo_get E m (prev_output i) = Inr (Some out)) ins outs"
    and "\<forall>i \<in> set ins. bt_get ib (prev_output i) = None" and "check_inputs_maturity E ins m h k = Inr ()"
    and "unat acc + total_of (map out_value outs) < 2 ^ 64"
  shows "\<exists>s. sum_inputs E m h k ib ins acc = Inr s \<and> unat s = unat acc + total_of (map out_value outs)"
  using assms
proof (induction ins outs arbitrary: acc rule: list_all2_induct)
  case Nil
  then show ?case by simp
next
  case (Cons i ins out outs)
  have v: "input_value E m h k ib (prev_output i) = Inr (out_value out)"
    using Cons.hyps(1) Cons.prems by (simp add: input_value_def res_simps)
  have "unat acc + unat (out_value out) < 2 ^ 64" using Cons.prems(3) by simp
  then obtain acc' where acc': "amount_checked_add acc (out_value out) = Some acc'" "unat acc' = unat acc + unat (out_value out)"
    by (metis amount_checked_add_Some ex_u64)
  with Cons.IH [of acc'] Cons.prems show ?case by (simp add: v res_simps add.assoc)
qed

lemma record_outputs_ok:
  assumes "idx + length outs \<le> 2 ^ 32" and "bt_ok ib"
  shows "\<exists>ib'. record_outputs tid cb idx outs ib = Inr ib' \<and> bt_ok ib' \<and>
    (\<forall>p. bt_get ib' p \<noteq> None \<longrightarrow> bt_get ib p \<noteq> None \<or> op_tx_id p = tid)"
  using assms
proof (induction outs arbitrary: idx ib)
  case (Cons out outs)
  let ?ib = "bt_insert (OutPoint tid (of_nat idx)) (out_value out, cb) ib"
  have ok: "bt_ok ?ib" using Cons.prems(2) by (simp add: bt_simps)
  obtain ib' where "record_outputs tid cb (Suc idx) outs ?ib = Inr ib'" "bt_ok ib'"
    "\<forall>p. bt_get ib' p \<noteq> None \<longrightarrow> bt_get ?ib p \<noteq> None \<or> op_tx_id p = tid"
    using Cons.IH [OF _ ok, of "Suc idx"] Cons.prems(1) by auto
  moreover have "bt_get ?ib p \<noteq> None \<longrightarrow> bt_get ib p \<noteq> None \<or> op_tx_id p = tid" for p
    using Cons.prems(2) by (auto simp: bt_simps)
  moreover have "\<not> 2 ^ 32 \<le> idx" using Cons.prems(1) by simp
  ultimately show ?case by (metis record_outputs.simps(2))
qed simp

text \<open>The outputs recorded so far belong to the transactions \<open>T\<close> of the block.\<close>

definition acc_ok :: "txid set \<Rightarrow> reward_acc \<Rightarrow> bool" where
  "acc_ok T a \<longleftrightarrow> bt_ok (ra_in_block a) \<and> (\<forall>p. bt_get (ra_in_block a) p \<noteq> None \<longrightarrow> op_tx_id p \<in> T)"

text \<open>No stored output carries the identifier of a transaction of the block.\<close>

definition ids_fresh :: "'z store_env_scheme \<Rightarrow> kv_store \<Rightarrow> txid set \<Rightarrow> bool" where
  "ids_fresh E m T \<longleftrightarrow> (\<forall>p. op_tx_id p \<in> T \<longrightarrow> utxo_view E m p = None)"

lemma reward_tx_pool:
  assumes e: "entry_valid E m h k e" "me_tx_id e \<in> T" and fresh: "ids_fresh E m T" and a: "acc_ok T a"
    and fees: "unat (ra_fees a) + unat (me_fee e) < 2 ^ 64"
  shows "\<exists>a'. reward_tx E m h k idx (me_tx e) a = Inr a' \<and> acc_ok T a' \<and> ra_claim a' = ra_claim a \<and>
    unat (ra_fees a') = unat (ra_fees a) + unat (me_fee e)"
proof -
  let ?tx = "me_tx e"
  obtain v r where "tx_preconditions E ?tx m r = Inr v" and v: "vt_tx_id v = me_tx_id e" "vt_fee v = me_fee e"
    and mat: "check_inputs_maturity E (tx_inputs ?tx) m h k = Inr ()" and outs: "length (tx_outputs ?tx) \<le> 2 ^ 32"
    using e(1) by (auto simp: entry_valid_def check_coinbase_maturity_def)
  then have pre: "tx_inputs ?tx \<noteq> []"
      "list_all2 (\<lambda>i out. utxo_get E m (prev_output i) = Inr (Some out)) (tx_inputs ?tx) (vt_resolved_inputs v)"
      "total_of (map out_value (vt_resolved_inputs v)) < 2 ^ 64"
      "total_of (map out_value (vt_resolved_inputs v)) = total_of (map out_value (tx_outputs ?tx)) + unat (me_fee e)"
      "tx_id E ?tx = Inr (me_tx_id e)"
    by (auto simp: tx_preconditions_Inr res_simps)
  have "bt_get (ra_in_block a) (prev_output i) = None" if "i \<in> set (tx_inputs ?tx)" for i
  proof -
    obtain out where "utxo_get E m (prev_output i) = Inr (Some out)"
      using pre(2) \<open>i \<in> set (tx_inputs ?tx)\<close> by (auto simp: list_all2_conv_all_nth in_set_conv_nth)
    then have "op_tx_id (prev_output i) \<notin> T" using fresh utxo_get_view by (fastforce simp: ids_fresh_def)
    then show ?thesis using a unfolding acc_ok_def by blast
  qed
  then obtain s where s: "sum_inputs E m h k (ra_in_block a) (tx_inputs ?tx) 0 = Inr s"
      "unat s = total_of (map out_value (vt_resolved_inputs v))"
    using sum_inputs_store [OF pre(2) _ mat, of "ra_in_block a" 0] pre(3) by auto
  obtain w :: u64 where "unat w = total_of (map out_value (tx_outputs ?tx))" using ex_u64 pre(3,4) by (metis add_lessD1)
  then have w: "amount_checked_sum (map out_value (tx_outputs ?tx)) = Some w" "amount_checked_sub s w = Some (me_fee e)"
    using s(2) pre(4) by (simp_all add: int_simps)
  obtain f where f: "amount_checked_add (ra_fees a) (me_fee e) = Some f" "unat f = unat (ra_fees a) + unat (me_fee e)"
    using ex_u64 [OF fees] by (metis amount_checked_add_Some)
  obtain ib where ib: "record_outputs (me_tx_id e) False 0 (tx_outputs ?tx) (ra_in_block a) = Inr ib" "bt_ok ib"
    "\<forall>p. bt_get ib p \<noteq> None \<longrightarrow> bt_get (ra_in_block a) p \<noteq> None \<or> op_tx_id p = me_tx_id e"
    using record_outputs_ok [of 0 "tx_outputs ?tx" "ra_in_block a" "me_tx_id e" False] outs a by (auto simp: acc_ok_def)
  have "reward_tx E m h k idx ?tx a = Inr (a\<lparr>ra_fees := f, ra_in_block := ib\<rparr>)"
    using pre(1,5) s(1) w f(1) ib(1) by (simp add: reward_tx_def)
  moreover have "acc_ok T (a\<lparr>ra_fees := f, ra_in_block := ib\<rparr>)"
    unfolding acc_ok_def using ib(2,3) a [unfolded acc_ok_def] e(2) by simp metis
  ultimately show ?thesis using f(2) by simp
qed

lemma reward_loop_pool:
  assumes "\<forall>e \<in> set es. entry_valid E m h k e \<and> me_tx_id e \<in> T" and "ids_fresh E m T" and "acc_ok T a"
    and "unat (ra_fees a) + total_of (map me_fee es) < 2 ^ 64"
  shows "\<exists>a'. reward_loop E m h k idx (map me_tx es) a = Inr a' \<and> ra_claim a' = ra_claim a \<and>
    unat (ra_fees a') = unat (ra_fees a) + total_of (map me_fee es)"
  using assms
proof (induction es arbitrary: idx a)
  case (Cons e es)
  have "unat (ra_fees a) + unat (me_fee e) < 2 ^ 64" using Cons.prems(4) by simp
  then obtain a1 where a1: "reward_tx E m h k idx (me_tx e) a = Inr a1" "acc_ok T a1" "ra_claim a1 = ra_claim a"
      "unat (ra_fees a1) = unat (ra_fees a) + unat (me_fee e)"
    using reward_tx_pool [of E m h k e T a idx] Cons.prems(1-3) by auto
  then obtain a' where "reward_loop E m h k (Suc idx) (map me_tx es) a1 = Inr a'" "ra_claim a' = ra_claim a1"
      "unat (ra_fees a') = unat (ra_fees a1) + total_of (map me_fee es)"
    using Cons.IH [OF _ Cons.prems(2) a1(2), of "Suc idx"] Cons.prems(1,4) by auto
  then show ?case using a1 by simp
qed simp

section \<open>Blocks of the producer\<close>

lemma pool_ids_distinct:
  assumes "pool_inv P"
  shows "distinct (map me_tx_id (all_sorted P))"
proof -
  have "sorted_wrt (<) (map key_of_entry (all_sorted P))"
    unfolding all_sorted_keys [OF assms] using assms by (simp add: pool_inv_def bt_ok_def)
  then have d: "distinct (all_sorted P)" by (metis distinct_map strict_sorted_iff)
  have "pool_get P (me_tx_id e) = Some e" if "e \<in> set (all_sorted P)" for e
    using batch_is_best_first [OF assms] that by blast
  then have "inj_on me_tx_id (set (all_sorted P))" by (metis inj_onI option.inject)
  with d show ?thesis by (simp add: distinct_map)
qed

definition pool_fees :: "clear_pool \<Rightarrow> nat" where
  "pool_fees P = total_of (map me_fee (all_sorted P))"

lemma total_block_reward_some:
  "halving_interval_blocks mon \<noteq> 0 \<Longrightarrow> \<exists>x. total_block_reward h f mon = Some x"
  using block_subsidy_at [of mon h] by (auto simp: total_block_reward_def capped_subsidy_def)

lemma entry_admissible:
  "entry_valid E m h k e \<Longrightarrow> tx_admissible h' j (me_tx e) \<and> tx_inputs (me_tx e) \<noteq> [] \<and> tx_id E (me_tx e) = Inr (me_tx_id e)"
  by (auto simp: entry_valid_def tx_preconditions_Inr tx_admissible_def res_simps)

lemma assembled_structure:
  assumes es: "\<forall>e \<in> set es. entry_valid E m h k e" "distinct (map me_tx_id es)"
    and cb: "cbs = [] \<or> (\<exists>cid cb. cbs = [(cid, cb)] \<and> tx_id E cb = Inr cid \<and> tx_admissible h 0 cb \<and> cid \<notin> me_tx_id ` set es)"
    and b: "blk_txs b = map snd cbs @ map me_tx es" "bh_height (blk_header b) = h"
      "bh_merkle_root (blk_header b) = merkle_root_of (sha3_256 E) (map fst cbs @ map me_tx_id es)"
  shows "block_validate_structure E b = Inr ()"
proof -
  have ids: "list_all2 (\<lambda>tx i. tx_id E tx = Inr i) (blk_txs b) (map fst cbs @ map me_tx_id es)"
    unfolding b(1) using es(1) cb entry_admissible
    by (intro list_all2_appendI) (fastforce simp: list_all2_conv_all_nth)+
  moreover have "tx_admissible h j (blk_txs b ! j)" if "j < length (blk_txs b)" for j
    using that cb entry_admissible es(1) unfolding b(1)
    by (cases "j < length cbs") (fastforce simp: nth_append)+
  moreover have "distinct (map fst cbs @ map me_tx_id es)" using cb es(2) by auto
  ultimately show ?thesis using b(2,3) by (auto simp: res_simps)
qed

lemma assembled_rewards:
  assumes es: "\<forall>e \<in> set es. entry_valid E m h k e" and h: "h \<noteq> 0" and fees: "total_of (map me_fee es) = unat fees"
    and fresh: "ids_fresh E m (fst ` set cbs \<union> me_tx_id ` set es)"
    and cb: "cbs = [] \<or> (\<exists>cid out. cbs = [(cid, tx_new_coinbase h [out])] \<and> tx_id E (tx_new_coinbase h [out]) = Inr cid \<and>
      total_block_reward h fees mon = Some (out_value out))"
    and b: "blk_txs b = map snd cbs @ map me_tx es" "bh_height (blk_header b) = h"
  shows "validate_block_rewards E b m mon k = Some (Inr fees)"
proof -
  let ?T = "fst ` set cbs \<union> me_tx_id ` set es" and ?a0 = "\<lparr>ra_in_block = [], ra_fees = 0, ra_claim = None\<rparr>"
  have start: "acc_ok ?T ?a0" by (simp add: acc_ok_def bt_simps)
  have es': "\<forall>e \<in> set es. entry_valid E m h k e \<and> me_tx_id e \<in> ?T" using es by simp
  have lim: "total_of (map me_fee es) < 2 ^ 64" using fees unat_bound [of fees] by simp
  show ?thesis
  proof (cases "cbs = []")
    case True
    obtain a' where "reward_loop E m h k 0 (map me_tx es) ?a0 = Inr a'" "ra_claim a' = None"
      "ra_fees a' = fees"
      using reward_loop_pool [OF es' fresh start, of 0] lim fees by (auto simp: word_unat_eq_iff)
    then show ?thesis using h b True by (simp add: validate_block_rewards_def)
  next
    case False
    then obtain cid out where c: "cbs = [(cid, tx_new_coinbase h [out])]" "tx_id E (tx_new_coinbase h [out]) = Inr cid"
      "total_block_reward h fees mon = Some (out_value out)" using cb by blast
    let ?cb = "tx_new_coinbase h [out]"
    let ?a1 = "\<lparr>ra_in_block = [(OutPoint cid 0, (out_value out, True))], ra_fees = 0, ra_claim = Some (out_value out)\<rparr>"
    have sum: "amount_checked_sum [out_value out] = Some (out_value out)" by (simp add: int_simps)
    have first: "reward_tx E m h k 0 ?cb ?a0 = Inr ?a1"
      using c(2) sum by (simp add: reward_tx_def tx_new_coinbase_def)
    have "acc_ok ?T ?a1" by (simp add: acc_ok_def bt_ok_def c(1))
    then obtain a' where "reward_loop E m h k (Suc 0) (map me_tx es) ?a1 = Inr a'" "ra_claim a' = Some (out_value out)"
      "ra_fees a' = fees"
      using reward_loop_pool [OF es' fresh _, of ?a1 "Suc 0"] lim fees by (auto simp: word_unat_eq_iff)
    then show ?thesis using h b c first by (simp add: validate_block_rewards_def)
  qed
qed

text \<open>
  C11. An honest producer's block is valid. When every pooled transaction is valid against the store and
  mature at the new height, the fees fit in 64 bits, the coinbase can be encoded, and no identifier of
  the block is already known, \<open>produce_block\<close> returns a block that contains the whole pool, passes
  structural validation and passes the economic rules with exactly the pool's fees collected.
\<close>

theorem produced_block_valid:
  assumes pool: "pool_inv P" "\<forall>e \<in> set (all_sorted P). entry_valid E m (pc_height ctx) k e"
    and fees: "unat fees = pool_fees P" and h: "pc_height ctx \<noteq> 0"
    and mon: "mon = pp_monetary (pc_params ctx)" "halving_interval_blocks mon \<noteq> 0"
    and enc: "\<And>cb. build_coinbase ctx fees = Some (Some cb) \<Longrightarrow> \<exists>cid. tx_id E cb = Inr cid \<and>
      cid \<notin> me_tx_id ` set (all_sorted P) \<and> ids_fresh E m {cid}"
    and fresh: "ids_fresh E m (me_tx_id ` set (all_sorted P))"
  shows "\<exists>b. produce_block E ctx P vrf kes = Some (Inr b) \<and> bh_height (blk_header b) = pc_height ctx \<and>
    set (map me_tx (all_sorted P)) \<subseteq> set (blk_txs b) \<and> block_validate_structure E b = Inr () \<and>
    validate_block_rewards E b m mon k = Some (Inr fees)"
proof -
  let ?es = "all_sorted P" and ?h = "pc_height ctx"
  have sum: "amount_checked_sum (map me_fee ?es) = Some fees" using fees by (simp add: int_simps pool_fees_def)
  obtain reward where rw: "total_block_reward ?h fees mon = Some reward" using total_block_reward_some [OF mon(2)] by blast
  have "build_coinbase ctx fees \<noteq> None" using rw by (simp add: build_coinbase_def mon(1) split: option.splits)
  then obtain coinbase where cb: "build_coinbase ctx fees = Some coinbase" by blast
  define cbs where "cbs = (case coinbase of None \<Rightarrow> [] | Some cb \<Rightarrow> [(projr (tx_id E cb), cb)])"
  have shape: "cbs = [] \<or> (\<exists>cid out. cbs = [(cid, tx_new_coinbase ?h [out])] \<and> coinbase = Some (tx_new_coinbase ?h [out]) \<and>
      tx_id E (tx_new_coinbase ?h [out]) = Inr cid \<and> total_block_reward ?h fees mon = Some (out_value out) \<and>
      cid \<notin> me_tx_id ` set ?es \<and> ids_fresh E m {cid})"
  proof (cases coinbase)
    case (Some cb')
    then obtain pkh where cb': "cb' = tx_new_coinbase ?h [tx_output_new reward (p2pkh_pqc pkh)]"
      using cb rw by (auto simp: build_coinbase_def mon(1) split: option.splits if_splits)
    moreover obtain cid where "tx_id E cb' = Inr cid" "cid \<notin> me_tx_id ` set ?es" "ids_fresh E m {cid}"
      using enc cb Some by blast
    ultimately show ?thesis
      using rw unfolding cbs_def Some by (intro disjI2 exI conjI) (simp_all add: cb', simp add: tx_output_new_def)
  qed (simp add: cbs_def)
  define b where "b = \<lparr>blk_header =
      \<lparr>bh_version = BLOCK_VERSION, bh_prev_hash = pc_parent_hash ctx, bh_height = ?h, bh_slot = pc_slot ctx,
       bh_timestamp = pc_timestamp ctx, bh_merkle_root = merkle_root_of (sha3_256 E) (map fst cbs @ map me_tx_id ?es),
       bh_utxo_commitment = hash_zero, bh_vrf_proof = vrf, bh_kes_sig = kes, bh_producer_key_hash = hash_zero\<rparr>,
     blk_txs = map snd cbs @ map me_tx ?es\<rparr>"
  have "(case coinbase of None \<Rightarrow> Inr txs | Some cb \<Rightarrow>
      bind_res (map_err (\<lambda>_. BlockProduction ''coinbase id failed'') (tx_id E cb)) (\<lambda>cid. Inr ((cid, cb) # txs))) =
      Inr (cbs @ txs)" for txs
  proof (cases coinbase)
    case (Some cb')
    then obtain cid where "tx_id E cb' = Inr cid" using enc cb by blast
    then show ?thesis by (simp add: Some cbs_def)
  qed (simp add: cbs_def)
  then have "produce_block E ctx P vrf kes = Some (Inr b)"
    by (simp add: produce_block_def assemble_def sum cb b_def o_def Let_def)
  moreover have "tx_admissible ?h 0 (tx_new_coinbase ?h [out])" for out
    using unat_bound [of "out_value out"] by (simp add: tx_admissible_def tx_new_coinbase_def)
  then have "block_validate_structure E b = Inr ()"
    using assembled_structure [OF pool(2) pool_ids_distinct [OF pool(1)], of cbs b] shape by (auto simp: b_def)
  moreover have "ids_fresh E m (fst ` set cbs \<union> me_tx_id ` set ?es)"
    using shape fresh by (auto simp: ids_fresh_def)
  then have "validate_block_rewards E b m mon k = Some (Inr fees)"
    using assembled_rewards [OF pool(2) h _ _ _ _ _, of fees cbs mon b] shape fees by (auto simp: b_def pool_fees_def)
  ultimately show ?thesis by (auto simp: b_def)
qed

section \<open>The decryption path\<close>

lemma tx_id_wf: "(\<And>x. length (sha3_256 E x) = 32) \<Longrightarrow> tx_id E tx = Inr i \<Longrightarrow> hash_wf i"
  by (auto simp: res_simps hash_wf_def)

lemma assemble_shape:
  assumes "assemble E ctx es batched vrf kes = Some (Inr b)"
  obtains cbs where "blk_txs b = map snd (cbs @ batched)"
    and "bh_merkle_root (blk_header b) = merkle_root_of (sha3_256 E) (map fst (cbs @ batched))"
    and "\<forall>(tid, tx) \<in> set cbs. tx_id E tx = Inr tid"
proof -
  define cb_result where "cb_result coinbase = (case coinbase of None \<Rightarrow> Inr batched | Some cb \<Rightarrow>
    bind_res (map_err (\<lambda>_. BlockProduction ''coinbase id failed'') (tx_id E cb)) (\<lambda>cid. Inr ((cid, cb) # batched)))" for coinbase
  obtain coinbase txs where t: "cb_result coinbase = Inr txs"
    and b: "blk_txs b = map snd txs" "bh_merkle_root (blk_header b) = merkle_root_of (sha3_256 E) (map fst txs)"
    using assms by (auto simp: assemble_def res_simps simp flip: cb_result_def split: option.splits)
  show thesis
  proof (cases coinbase)
    case None
    with t b show thesis by (intro that [of "[]"]) (simp_all add: cb_result_def)
  next
    case (Some cb)
    with t obtain cid where "tx_id E cb = Inr cid" "txs = (cid, cb) # batched" by (auto simp: cb_result_def res_simps)
    with b show thesis by (intro that [of "[(cid, cb)]"]) simp_all
  qed
qed


section \<open>Concrete blocks\<close>

text \<open>The demonstration environment with an encoder that also encodes other transactions.\<close>

definition prod_env :: store_env where
  "prod_env = (demo_store_env ())\<lparr>ser_tx := \<lambda>t. if t = demo_tx then Inr [1] else Inr [2]\<rparr>"

definition prod_ctx :: "bytes option \<Rightarrow> production_context" where
  "prod_ctx reward = \<lparr>pc_slot = 1, pc_parent_hash = hash_zero, pc_height = 5, pc_timestamp = 0,
     pc_params = protocol_mainnet, pc_reward_pubkey_hash = reward\<rparr>"

definition prod_entry :: mempool_entry where
  "prod_entry = entry_new 0 demo_tx demo_id 2 10"

definition prod_pool :: clear_pool where
  "prod_pool = pool_insert prod_entry (pool_new pool_config_testnet)"

lemmas prod_entry_simps = prod_entry_def entry_new_def

lemma prod_pool_inv: "pool_inv prod_pool"
  unfolding prod_pool_def
proof (rule pool_insert_inv)
  show "pool_inv (pool_new pool_config_testnet)" by (rule pool_new_inv) (simp add: pool_config_testnet_def)
qed (simp_all add: pool_new_def over_capacity_def sat_add_def prod_entry_simps pool_config_testnet_def)

lemma prod_sorted: "all_sorted prod_pool = [prod_entry]"
  by (simp add: all_sorted_def prod_pool_def pool_insert_def pool_new_def List.map_filter_def prod_entry_simps)

lemma prod_ids: "tx_id prod_env demo_tx = Inr demo_id" "tx \<noteq> demo_tx \<Longrightarrow> tx_id prod_env tx = Inr (Hash256 (2 # replicate 31 0))"
  by (simp_all add: res_simps prod_env_def demo_store_env_def demo_env_def demo_id_def)

lemma prod_input: "utxo_get prod_env demo_store (OutPoint hash_zero 0) = Inr (Some (tx_output_new 9 [2]))"
  using demo_stored_output [of demo_store "OutPoint hash_zero 0" "()"]
  by (simp add: utxo_get_def prod_env_def demo_store_def kv_get_def decode_with_def)

lemma prod_entry_valid: "entry_valid prod_env demo_store 5 k prod_entry"
proof -
  have "tx_validate_structure demo_tx = Inr ()" by (auto simp: res_simps demo_tx_parts tx_output_new_def)
  then have "tx_preconditions prod_env demo_tx demo_store 0 =
      Inr \<lparr>vt_tx_id = demo_id, vt_fee = 2, vt_resolved_inputs = [tx_output_new 9 [2]]\<rparr>" (is "_ = Inr ?v")
    unfolding tx_preconditions_Inr using prod_input prod_ids(1) by (simp add: demo_tx_parts tx_output_new_def)
  then have "tx_preconditions prod_env demo_tx demo_store 0 = Inr ?v \<and> vt_tx_id ?v = demo_id \<and> vt_fee ?v = 2" by simp
  moreover have "check_coinbase_maturity prod_env demo_tx demo_store 5 k = Inr ()"
    by (simp add: check_coinbase_maturity_def demo_tx_parts check_maturity_def utxo_coinbase_height_def
        demo_store_def kv_get_def key_simps)
  ultimately show ?thesis
    unfolding entry_valid_def prod_entry_def entry_new_def mempool_entry.select_convs
    by (intro conjI exI) (assumption | simp add: demo_tx_parts)+
qed

lemma prod_fresh:
  assumes "hbytes tid = x # replicate 31 0" and "x \<noteq> 0"
  shows "ids_fresh prod_env demo_store {tid}"
proof -
  have zero: "hbytes hash_zero = 0 # replicate 31 0" by (simp add: hash_zero_def numeral_eq_Suc)
  have "key_outpoint p \<noteq> key_outpoint (OutPoint hash_zero 0)" if "op_tx_id p = tid" for p
    unfolding key_outpoint_def op_canonical_bytes_def using that assms zero by simp
  then show ?thesis by (auto simp: ids_fresh_def utxo_view_def demo_store_def kv_get_def)
qed

theorem produced_block_valid_witness:
  "\<exists>b. produce_block prod_env (prod_ctx (Some (replicate 32 7))) prod_pool [] [] = Some (Inr b) \<and>
     block_validate_structure prod_env b = Inr () \<and>
     validate_block_rewards prod_env b demo_store monetary_mainnet 3 = Some (Inr 2)"
proof -
  let ?ctx = "prod_ctx (Some (replicate 32 7))"
  have sorted: "\<forall>e \<in> set (all_sorted prod_pool). entry_valid prod_env demo_store (pc_height ?ctx) 3 e"
    by (simp add: prod_sorted prod_entry_valid prod_ctx_def)
  have fees: "unat (2 :: u64) = pool_fees prod_pool" by (simp add: pool_fees_def prod_sorted prod_entry_simps)
  have mon: "monetary_mainnet = pp_monetary (pc_params ?ctx)" "halving_interval_blocks monetary_mainnet \<noteq> 0"
    by (simp_all add: prod_ctx_def protocol_mainnet_def monetary_mainnet_def)
  have "\<exists>cid. tx_id prod_env cb = Inr cid \<and> cid \<notin> me_tx_id ` set (all_sorted prod_pool) \<and> ids_fresh prod_env demo_store {cid}"
    if "build_coinbase ?ctx 2 = Some (Some cb)" for cb
  proof -
    have "tx_inputs cb = []" using that
      by (auto simp: build_coinbase_def prod_ctx_def tx_new_coinbase_def split: if_splits)
    then have "cb \<noteq> demo_tx" by (auto simp: demo_tx_def tx_new_def)
    then show ?thesis
      using prod_ids(2) [of cb] prod_fresh [of "Hash256 (2 # replicate 31 0)" 2]
      by (simp add: prod_sorted prod_entry_simps demo_id_def)
  qed
  moreover have "ids_fresh prod_env demo_store (me_tx_id ` set (all_sorted prod_pool))"
    using prod_fresh [of demo_id 1] by (simp add: prod_sorted prod_entry_simps demo_id_def)
  ultimately show ?thesis
    using produced_block_valid [OF prod_pool_inv sorted fees _ mon, of "[]" "[]"] by (auto simp: prod_ctx_def)
qed

definition prod_etx :: encrypted_tx where
  "prod_etx = \<lparr>et_id = demo_id, kem_ciphertext = [], encrypted_body = [1], target_epoch = 0, received_at = 0\<rparr>"

definition prod_ep :: encrypted_pool where
  "prod_ep = (ep_new encrypted_config_default 0)\<lparr>ep_by_id := [(demo_id, prod_etx)], ep_total_bytes := 41\<rparr>"

lemma prod_batch:
  "decrypt_batch id (mock_decrypt 1) [\<lparr>member_index = 0, share_bytes = [0]\<rparr>] prod_ep =
     Some ([(demo_id, [1])], prod_ep\<lparr>ep_total_bytes := 0, ep_by_id := []\<rparr>)"
  by (simp add: decrypt_batch_def drain_all_def prod_ep_def mock_decrypt_def share_count_def prod_etx_def)


end
