(* ===== verification/Spec2Isabelle.thy ===== *)
theory Spec2Isabelle
  imports QV_Params QV_Script QV_Validator QV_Node QV_Batcher QV_TxHelpers QV_Oracle QV_Kes QV_Producer
begin

text \<open>
  A verification development of QuantumVault, a proof-of-stake UTXO ledger written in Rust
  (\<open>src/crates\<close>): what a node accepts, stores and reorganises, what its scripts mean, and what the
  market maker, the lending pool and the committee cryptography on top of it guarantee.

  \<^bold>\<open>How the parts interact.\<close> A peer offers a block to \<open>handle_block\<close> of \<open>qv-node/src/node.rs\<close>. The node
  checks the structure (\<open>qv-core/src/block.rs\<close>), the link to the tip (\<open>qv-consensus/src/chain_state.rs\<close>)
  and the economic rules (\<open>qv-node/src/validation.rs\<close> with \<open>qv-consensus/src/rewards.rs\<close>), connects it
  to the persistent UTXO store (\<open>qv-storage/src/utxo_store.rs\<close>), compares the commitment, and then
  updates the chain state, the block store (\<open>block_store.rs\<close>) and the pool (\<open>qv-mempool/src/clear.rs\<close>).
  A transaction is offered to \<open>handle_tx\<close>, which runs every input script (\<open>qv-script\<close>) and adds it to
  the pool. The DeFi crate builds transactions whose pool outputs are guarded by scripts of
  \<open>qv-script/src/templates.rs\<close>. The committee that decrypts the encrypted pool shares a key through
  \<open>qv-crypto/src/threshold.rs\<close>, and block producers sign with the evolving keys of \<open>kes.rs\<close>.

  \<^bold>\<open>The theories.\<close>
  \<^item> \<open>QV_Prelude\<close>: results and their inversion rules (\<open>res_simps\<close>), checked and saturating machine
    arithmetic (\<open>int_simps\<close>), little-endian bytes, the ordered map as a locale with its interpretation.
  \<^item> \<open>QV_Types\<close>, \<open>QV_Params\<close>, \<open>QV_Crypto\<close>, \<open>QV_Transaction\<close>, \<open>QV_Block\<close>, \<open>QV_Utxo\<close>: the data of \<open>qv-core\<close>
    with its structural checks, identifiers, signature hashes, Merkle roots, presets, and the UTXO set
    interface as a locale interpreted on the in-memory set.
  \<^item> \<open>QV_Opcode\<close>, \<open>QV_Gas\<close>, \<open>QV_Interp\<close>, \<open>QV_ScriptProps\<close>, \<open>QV_Script\<close>: the script language of
    \<open>qv-script\<close>: codec, gas meter, interpreter with its panics, validation and basic templates. Shown:
    the codec is exact, execution is bounded and does not panic apart from one opcode, and the flat
    conditionals agree with a structured semantics.
  \<^item> \<open>QV_Straight\<close>, \<open>QV_Covenant\<close>, \<open>QV_LendingLock\<close>: execution of straight-line scripts on symbolic
    stacks, and what the market-maker and lending covenants accept, exactly.
  \<^item> \<open>QV_Slot\<close>, \<open>QV_Stake\<close>, \<open>QV_Rewards\<close>, \<open>QV_Leader\<close>, \<open>QV_Chain\<close>, \<open>QV_ChainProps\<close>, \<open>QV_Validator\<close>: the
    consensus crate: slots, stake snapshots, emission and supply cap, leader election over a VRF locale,
    fork choice, finality and equivocation, header validation.
  \<^item> \<open>QV_Kv\<close>, \<open>QV_UtxoStore\<close>, \<open>QV_StoreProps\<close>, \<open>QV_BlockStore\<close>: the key-value backend as a locale, the
    persistent stores, connecting and disconnecting blocks as a refinement of an abstract ledger.
  \<^item> \<open>QV_Mempool\<close>, \<open>QV_Batcher\<close>, \<open>QV_Validation\<close>, \<open>QV_Node\<close>: the pool and its order, batches of swaps,
    validation against the store, and the node's handlers and event loop with the invariant that spans
    all of its parts.
  \<^item> \<open>QV_Amm\<close>, \<open>QV_Lending\<close>, \<open>QV_Oracle\<close>, \<open>QV_TxHelpers\<close>: \<open>qv-defi\<close>: quotes, share value, the solvency
    of positions, price aggregation, and that every transaction the builders return satisfies the
    covenant it spends.
  \<^item> \<open>QV_Producer\<close>: the block producer of \<open>qv-miner\<close>, whose blocks pass the rules of the node.
  \<^item> \<open>QV_Kes\<close>, \<open>QV_Field\<close>, \<open>QV_Lagrange\<close>, \<open>QV_Threshold\<close>, \<open>QV_Encrypted\<close>: evolving signatures, limb
    arithmetic modulo \<open>2^256 - 189\<close> against plain arithmetic, interpolation, secret sharing, the key
    generation round, and the encrypted pool with its envelopes.

  \<^bold>\<open>How code becomes definitions.\<close> Structs are records, enums are datatypes, machine integers are words
  of their width (\<open>usize\<close> is 64 bits), \<open>Result\<close> is a sum with the error on the left. A \<open>BTreeMap\<close>, and
  a \<open>HashMap\<close> whose order the code does not expose, is an association list with increasing keys. A
  method with \<open>&mut self\<close> takes and returns the state. Panics are values: \<open>None\<close>, or the constructor
  \<open>Panic\<close> in the interpreter. Error values that only print numbers or inner errors leave them out.

  \<^bold>\<open>Loops.\<close> Loops over a list are structural recursion; those on shrinking data have a measure. The walks
  over the chain and the eviction loop of the pool may not end on ill-formed states and are
  \<open>partial_function (option)\<close>; that they return on every well-formed state is proved. No definition has
  fuel: the interpreter recurses over the instruction list, and its gas is part of the program.

  \<^bold>\<open>Parameters.\<close> Hash functions, ML-DSA verification, bincode and serde are fields of \<open>crypto_env\<close> and
  the records extending it; ML-DSA key generation and signing are \<open>mldsa_signer\<close>, AES-256-GCM is \<open>aead\<close>,
  the VRF is a locale. What theorems rely on of them is named: \<open>bincode_ok\<close> and \<open>block_codec_ok\<close> (a value
  that was encoded decodes to itself), \<open>env_ok\<close> (both), \<open>mldsa_ok\<close> (generated keys have the documented
  sizes and their signatures verify), \<open>aead_ok\<close> (what was encrypted decrypts), digests of 32 bytes.
  \<open>invertible\<close> says that the inversions of an interpolation succeed, which holds as \<open>2^256 - 189\<close> is
  prime; primality itself is not proved. \<open>offered_ok\<close> and \<open>fresh_hash\<close> say that two different blocks a
  node is offered have different hashes; \<open>small_datums\<close> that a datum is shorter than \<open>2^63\<close> bytes. Collision resistance is never assumed: where it matters the
  conclusion exhibits the colliding strings. The witnesses instantiate every parameter.

  \<^bold>\<open>Not modelled.\<close> Sockets, gossip, RPC, the HTTP wallet and its pages, the ceremony and key files, the
  terminal dashboard and command lines are input and output around the modelled parts. The RocksDB and
  redb backends, the Ristretto VRF, hybrid encryption, stealth and confidential amounts wrap third-party
  engines and curve or lattice crates. Serde, Display and hex glue, floating-point diagnostics, mocks for
  tests and memory wiping on drop have no counterpart. Intent matching and the wallet's coin selection
  are not modelled. The C++ implementation under \<open>src/archive\<close> is superseded.
\<close>

end
